(* ===== verification/Prelude.thy ===== *)
theory Prelude
  imports Main "HOL-Library.Word"
begin

unbundle bit_operations_syntax

text \<open>
  Shared vocabulary of the development: the machine integers of
  \<^verbatim>\<open>kernel/types.h\<close>, results of C functions that may panic or block, loops over
  index ranges, little-endian encodings, and byte arrays and byte memories.

  A C function that can call \<^verbatim>\<open>panic\<close> or \<^verbatim>\<open>sleep\<close> returns a value of type
  \<open>'a res\<close>: \<open>Ok\<close> of the result (usually paired with the new state), \<open>Panic\<close>
  of the message, \<open>Blocked\<close> of the channel the calling thread would sleep on, or
  \<open>Diverge\<close> when a loop of the C code has no end (a pointer chain that never
  reaches its end marker, a deliberate \<^verbatim>\<open>for(;;);\<close>).
  \<open>and_then\<close> sequences two such computations.

  A critical section between \<^verbatim>\<open>acquire\<close> and \<^verbatim>\<open>release\<close> of a spin lock is one
  atomic step of the model: the theory \<open>SpinLock\<close> shows that two CPUs are never inside
  sections of the same lock.
\<close>

section \<open>Machine integers\<close>

type_synonym byte = "8 word"
type_synonym u16 = "16 word"
type_synonym u32 = "32 word"
type_synonym u64 = "64 word"

named_theorems model_defs \<open>definitions a concrete evaluation unfolds\<close>
named_theorems frame \<open>what an operation leaves unchanged\<close>

section \<open>Results of functions that may panic or block\<close>

text \<open>The addresses the kernel passes to \<^verbatim>\<open>sleep\<close> and \<^verbatim>\<open>wakeup\<close> as channels.\<close>

datatype chan =
    ProcChan nat | BufChan nat | BufIOChan nat | InodeChan nat | PipeReadChan u64 | PipeWriteChan u64
  | LogChan | TicksChan | ConsChan | UartChan | DiskChan

datatype 'a res = Ok 'a | Panic string | Blocked chan | Diverge

primrec and_then :: "'a res \<Rightarrow> ('a \<Rightarrow> 'b res) \<Rightarrow> 'b res" where
  "and_then (Ok x) f = f x"
| "and_then (Panic m) f = Panic m"
| "and_then (Blocked c) f = Blocked c"
| "and_then Diverge f = Diverge"

lemma and_then_cong [fundef_cong]:
  "r = r' \<Longrightarrow> (\<And>x. r' = Ok x \<Longrightarrow> f x = g x) \<Longrightarrow> and_then r f = and_then r' g"
  by (cases r') auto

lemma and_then_Ok_iff: "and_then r f = Ok y \<longleftrightarrow> (\<exists>x. r = Ok x \<and> f x = Ok y)"
  by (cases r) auto

lemma and_then_assoc: "and_then (and_then r f) g = and_then r (\<lambda>x. and_then (f x) g)"
  by (cases r) auto

lemma and_then_Ok_right [simp]: "and_then r Ok = r"
  by (cases r) auto

lemma and_then_split:
  "P (and_then r f) \<longleftrightarrow>
     (\<forall>x. r = Ok x \<longrightarrow> P (f x)) \<and> (\<forall>m. r = Panic m \<longrightarrow> P (Panic m)) \<and>
     (\<forall>c. r = Blocked c \<longrightarrow> P (Blocked c)) \<and> (r = Diverge \<longrightarrow> P Diverge)"
  by (cases r) auto

definition returns :: "'a res \<Rightarrow> bool" where
  "returns r \<longleftrightarrow> (\<exists>x. r = Ok x)"

lemma returns_simps [simp]:
  "returns (Ok x)" "\<not> returns (Panic m)" "\<not> returns (Blocked c)" "\<not> returns Diverge"
  by (auto simp: returns_def)

section \<open>Loops over an index range\<close>

text \<open>A C loop \<^verbatim>\<open>for(i = lo; i < hi; i++)\<close> whose body may fail is
  \<open>for_each body [lo..<hi]\<close>.\<close>

fun for_each :: "('i \<Rightarrow> 's \<Rightarrow> 's res) \<Rightarrow> 'i list \<Rightarrow> 's \<Rightarrow> 's res" where
  "for_each f [] s = Ok s"
| "for_each f (i # is) s = and_then (f i s) (for_each f is)"

lemma for_each_append:
  "for_each f (xs @ ys) s = and_then (for_each f xs s) (for_each f ys)"
proof (induction xs arbitrary: s)
  case (Cons x xs)
  then show ?case by (cases "f x s") auto
qed simp

text \<open>The invariant rule of the loop, for total correctness: \<open>I ds s\<close> speaks of the
  indices already done.\<close>

lemma for_each_rule:
  assumes "I [] s"
    and "\<And>ds x rs s. xs = ds @ x # rs \<Longrightarrow> I ds s \<Longrightarrow> \<exists>s'. f x s = Ok s' \<and> I (ds @ [x]) s'"
  shows "\<exists>s'. for_each f xs s = Ok s' \<and> I xs s'"
proof -
  have gen: "\<exists>s'. for_each f ys s = Ok s' \<and> I (ds @ ys) s'"
    if "xs = ds @ ys" "I ds s" for ds ys s
    using that
  proof (induction ys arbitrary: ds s)
    case Nil
    then show ?case by simp
  next
    case (Cons y ys)
    from assms(2)[OF Cons.prems(1,2)] obtain s1
      where s1: "f y s = Ok s1" "I (ds @ [y]) s1" by blast
    from Cons.IH[of "ds @ [y]" s1] Cons.prems(1) s1(2)
    show ?case using s1(1) by simp
  qed
  show ?thesis using gen[of "[]" xs s] assms(1) by simp
qed

section \<open>Loops with early exits\<close>

text \<open>A C loop that may leave early is \<open>loop fuel body\<close>: the body says whether to go on
  with a new loop state or to leave with a result. The fuel is a bound on the number of
  iterations computed from the loop's arguments; running out of it is \<open>Diverge\<close>.\<close>

datatype ('s, 'r) ctl = Next 's | Done 'r

fun loop :: "nat \<Rightarrow> ('s \<Rightarrow> ('s, 'r) ctl res) \<Rightarrow> 's \<Rightarrow> 'r res" where
  "loop 0 body s = Diverge"
| "loop (Suc n) body s =
     and_then (body s) (\<lambda>c. case c of Next s' \<Rightarrow> loop n body s' | Done r \<Rightarrow> Ok r)"

text \<open>Total correctness: an invariant and a measure below the fuel.\<close>

lemma loop_rule:
  assumes "I s" "m s < fuel"
    and step: "\<And>s. I s \<Longrightarrow> (\<exists>s'. body s = Ok (Next s') \<and> I s' \<and> m s' < m s) \<or>
      (\<exists>r. body s = Ok (Done r) \<and> Q r)"
  shows "\<exists>r. loop fuel body s = Ok r \<and> Q r"
  using assms(1,2)
proof (induction fuel arbitrary: s)
  case (Suc n)
  from step[OF Suc.prems(1)] show ?case
  proof
    assume "\<exists>s'. body s = Ok (Next s') \<and> I s' \<and> m s' < m s"
    then obtain s' where s': "body s = Ok (Next s')" "I s'" "m s' < m s" by blast
    then show ?thesis using Suc.IH[OF s'(2)] Suc.prems(2) by simp
  qed auto
qed simp

text \<open>The rule for a loop that is known to have returned.\<close>

lemma loop_returned:
  assumes "loop fuel body s = Ok r" "I s"
    and "\<And>s s'. I s \<Longrightarrow> body s = Ok (Next s') \<Longrightarrow> I s'" "\<And>s r. I s \<Longrightarrow> body s = Ok (Done r) \<Longrightarrow> Q r"
  shows "Q r"
  using assms(1,2)
proof (induction fuel arbitrary: s)
  case (Suc n)
  from Suc.prems(1) obtain c where c: "body s = Ok c" "(case c of Next s \<Rightarrow> loop n body s | Done r \<Rightarrow> Ok r) = Ok r"
    by (auto simp: and_then_Ok_iff)
  then show ?case using Suc.IH assms(3,4) Suc.prems(2) by (cases c) auto
qed simp

section \<open>Little-endian encodings\<close>

primrec le_word :: "byte list \<Rightarrow> 'a::len word" where
  "le_word [] = 0"
| "le_word (b # bs) = ucast b OR push_bit 8 (le_word bs)"

definition le_bytes :: "nat \<Rightarrow> 'a::len word \<Rightarrow> byte list" where
  "le_bytes n w = map (\<lambda>i. ucast (drop_bit (8 * i) w)) [0..<n]"

lemma length_le_bytes [simp]: "length (le_bytes n w) = n"
  by (simp add: le_bytes_def)

lemma nth_le_bytes: "i < n \<Longrightarrow> le_bytes n w ! i = ucast (drop_bit (8 * i) w)"
  by (simp add: le_bytes_def)

lemma bit_le_word:
  "bit (le_word bs :: 'a::len word) n \<longleftrightarrow>
     n < LENGTH('a) \<and> n div 8 < length bs \<and> bit (bs ! (n div 8)) (n mod 8)"
proof (induction bs arbitrary: n)
  case (Cons b bs)
  show ?case
  proof (cases "n < 8")
    case True
    then show ?thesis by (auto simp: bit_or_iff bit_push_bit_iff bit_ucast_iff)
  next
    case False
    then have d: "n div 8 = Suc ((n - 8) div 8)" "n mod 8 = (n - 8) mod 8"
      by (simp_all add: le_div_geq le_mod_geq)
    have "\<not> bit b n" using False by (simp add: bit_word.rep_eq)
    then show ?thesis
      using False Cons.IH[of "n - 8"] by (auto simp: bit_or_iff bit_push_bit_iff bit_ucast_iff d)
  qed
qed simp

lemma le_word_le_bytes [simp]:
  fixes w :: "'a::len word"
  assumes "LENGTH('a) = 8 * n"
  shows "le_word (le_bytes n w) = w"
proof (rule bit_word_eqI)
  fix k assume k: "k < LENGTH('a)"
  then have d: "k div 8 < n" using assms by simp
  have "bit (le_bytes n w ! (k div 8)) (k mod 8) = bit w k"
    using d k by (simp add: nth_le_bytes bit_ucast_iff bit_drop_bit_eq)
  with d k show "bit (le_word (le_bytes n w) :: 'a word) k = bit w k"
    by (simp add: bit_le_word)
qed

lemma le_bytes_le_word:
  assumes "LENGTH('a::len) = 8 * n" and "length bs = n"
  shows "le_bytes n (le_word bs :: 'a word) = bs"
proof (rule nth_equalityI)
  fix i assume "i < length (le_bytes n (le_word bs :: 'a word))"
  then have i: "i < n" by simp
  show "le_bytes n (le_word bs :: 'a word) ! i = bs ! i"
  proof (rule bit_word_eqI)
    fix k assume "k < LENGTH(8)"
    then have k: "k < 8" by simp
    then have "8 * i + k < 8 * n" using i by linarith
    then show "bit (le_bytes n (le_word bs :: 'a word) ! i) k = bit (bs ! i) k"
      using i k assms by (simp add: nth_le_bytes bit_ucast_iff bit_drop_bit_eq bit_le_word)
  qed
qed (simp add: assms)

section \<open>Byte arrays\<close>

text \<open>A C array of known size is a function from its index; copying the whole array is an
  assignment. \<open>get_bytes\<close> and \<open>put_bytes\<close> access a run of bytes at an offset.\<close>

type_synonym block = "nat \<Rightarrow> byte"

definition get_bytes :: "block \<Rightarrow> nat \<Rightarrow> nat \<Rightarrow> byte list" where
  "get_bytes b off n = map (\<lambda>i. b (off + i)) [0..<n]"

definition put_bytes :: "block \<Rightarrow> nat \<Rightarrow> byte list \<Rightarrow> block" where
  "put_bytes b off bs = (\<lambda>i. if off \<le> i \<and> i < off + length bs then bs ! (i - off) else b i)"

lemma length_get_bytes [simp]: "length (get_bytes b off n) = n"
  by (simp add: get_bytes_def)

lemma get_put_same [simp]: "length bs = n \<Longrightarrow> get_bytes (put_bytes b off bs) off n = bs"
  by (rule nth_equalityI) (auto simp: get_bytes_def put_bytes_def)

lemma get_put_other [simp]:
  "off + n \<le> off' \<or> off' + length bs \<le> off \<Longrightarrow>
     get_bytes (put_bytes b off' bs) off n = get_bytes b off n"
  by (auto simp: get_bytes_def put_bytes_def)

lemma get_bytes_zero [simp]: "get_bytes (\<lambda>_. 0) off n = replicate n 0"
  by (simp add: get_bytes_def map_replicate_const)

lemma le_word_replicate_0 [simp]: "le_word (replicate n 0) = (0 :: 'a::len word)"
  by (rule bit_word_eqI) (simp add: bit_le_word)

text \<open>The view of a block as \<^verbatim>\<open>uint a[]\<close>.\<close>

definition get32 :: "block \<Rightarrow> nat \<Rightarrow> u32" where
  "get32 b i = le_word (get_bytes b (4 * i) 4)"

definition put32 :: "block \<Rightarrow> nat \<Rightarrow> u32 \<Rightarrow> block" where
  "put32 b i v = put_bytes b (4 * i) (le_bytes 4 v)"

lemma get32_put32: "get32 (put32 b i v) j = (if i = j then v else get32 b j)"
proof (cases "i = j")
  case False
  then have "4 * j + 4 \<le> 4 * i \<or> 4 * i + 4 \<le> 4 * j" by arith
  with False show ?thesis by (simp add: get32_def put32_def)
qed (simp add: get32_def put32_def)

lemma get32_zero [simp]: "get32 (\<lambda>_. 0) i = 0"
  by (simp add: get32_def)

end
