(* ===== verification/KState.thy ===== *)
theory KState
  imports Prelude
begin

text \<open>
  The kernel state every component shares: the constants of \<^verbatim>\<open>kernel/param.h\<close>, the
  process table entry \<^verbatim>\<open>struct proc\<close> of \<^verbatim>\<open>kernel/proc.h\<close>, and the record \<open>kcore\<close>
  of the globals below all other components: physical memory, the free-page list of
  \<^verbatim>\<open>kalloc.c\<close>, the process table, and which process is running. Later components
  extend the record with their own globals, so an operation of a lower component applies
  to the state of every higher one. A pointer into a static table of the kernel is its
  index.
\<close>

section \<open>Constants of param.h\<close>

abbreviation (input) NPROC :: nat where "NPROC \<equiv> 64"
abbreviation (input) NOFILE :: nat where "NOFILE \<equiv> 16"
abbreviation (input) NFILE :: nat where "NFILE \<equiv> 100"
abbreviation (input) NINODE :: nat where "NINODE \<equiv> 50"
abbreviation (input) NDEV :: nat where "NDEV \<equiv> 10"
abbreviation (input) ROOTDEV :: u32 where "ROOTDEV \<equiv> 1"
abbreviation (input) MAXARG :: nat where "MAXARG \<equiv> 32"
abbreviation (input) MAXOPBLOCKS :: nat where "MAXOPBLOCKS \<equiv> 10"
abbreviation (input) LOGSIZE :: nat where "LOGSIZE \<equiv> 30"
abbreviation (input) NBUF :: nat where "NBUF \<equiv> 30"
abbreviation (input) FSSIZE :: nat where "FSSIZE \<equiv> 97000"
abbreviation (input) MAXPATH :: nat where "MAXPATH \<equiv> 128"

section \<open>Processes\<close>

datatype procstate = UNUSED | USED | SLEEPING | RUNNABLE | RUNNING | ZOMBIE

text \<open>\<open>p_parent\<close>, \<open>p_chan\<close> and \<open>p_cwd\<close> are pointers, \<open>None\<close> when null;
  \<open>p_trapframe\<close> and \<open>p_pagetable\<close> are page addresses, 0 when null. The saved kernel
  registers (\<^verbatim>\<open>struct context\<close>) are those of \<^verbatim>\<open>swtch\<close>, which is assembly code:
  of them the entry point and the stack pointer that \<^verbatim>\<open>allocproc\<close> writes are kept.\<close>

record proc =
  p_state :: procstate
  p_chan :: "chan option"
  p_killed :: bool
  p_xstate :: int
  p_pid :: int
  p_parent :: "nat option"
  p_kstack :: u64
  p_sz :: u64
  p_pagetable :: u64
  p_trapframe :: u64
  p_ctx_forkret :: bool
  p_ctx_sp :: u64
  p_ofile :: "nat \<Rightarrow> nat option"
  p_cwd :: "nat option"
  p_name :: "nat \<Rightarrow> byte"

text \<open>\<open>kern_end\<close>, \<open>kern_etext\<close> and \<open>trampoline_pa\<close> are addresses the linker fixes;
  \<open>locals\<close> is the local variable of the running kernel function whose address it passes to
  a callee. \<open>mem\<close> is physical memory, which the kernel maps at its own addresses.\<close>

record kcore =
  mem :: "u64 \<Rightarrow> byte"
  locals :: "nat \<Rightarrow> byte"
  kern_end :: u64
  kern_etext :: u64
  trampoline_pa :: u64
  kernel_pagetable :: u64
  freelist :: u64
  procs :: "nat \<Rightarrow> proc"
  curp :: nat
  nextpid :: int
  initproc :: "nat option"

definition myproc :: "'a kcore_scheme \<Rightarrow> proc" where
  "myproc s = procs s (curp s)"

section \<open>Sleep locks\<close>

text \<open>\<^verbatim>\<open>wakeup\<close> of \<^verbatim>\<open>proc.c\<close>: every process but the running one that sleeps on
  the channel becomes runnable.\<close>

definition wakeup :: "chan \<Rightarrow> 'a kcore_scheme \<Rightarrow> 'a kcore_scheme" where
  "wakeup c s = s\<lparr>procs := (\<lambda>i. let p = procs s i in
     if i < NPROC \<and> i \<noteq> curp s \<and> p_state p = SLEEPING \<and> p_chan p = Some c
     then p\<lparr>p_state := RUNNABLE\<rparr> else p)\<rparr>"

lemma wakeup_frame [simp]:
  "mem (wakeup c s) = mem s" "locals (wakeup c s) = locals s" "kern_end (wakeup c s) = kern_end s"
  "kern_etext (wakeup c s) = kern_etext s" "trampoline_pa (wakeup c s) = trampoline_pa s"
  "kernel_pagetable (wakeup c s) = kernel_pagetable s" "freelist (wakeup c s) = freelist s" "curp (wakeup c s) = curp s"
  "nextpid (wakeup c s) = nextpid s" "initproc (wakeup c s) = initproc s"
  "kcore.more (wakeup c s) = kcore.more s"
  by (simp_all add: wakeup_def)

lemma wakeup_pid [simp]: "p_pid (procs (wakeup c s) i) = p_pid (procs s i)"
  by (simp add: wakeup_def Let_def)

lemma wakeup_myproc [simp]: "myproc (wakeup c s) = myproc s"
  by (simp add: wakeup_def myproc_def)

text \<open>\<open>wakeups s s'\<close>: between the two states the kernel core has changed only by calls of
  \<^verbatim>\<open>wakeup\<close>.\<close>

definition wakeups :: "'a kcore_scheme \<Rightarrow> 'b kcore_scheme \<Rightarrow> bool" where
  "wakeups s s' \<longleftrightarrow>
     mem s' = mem s \<and> locals s' = locals s \<and> kern_end s' = kern_end s \<and>
     kern_etext s' = kern_etext s \<and> trampoline_pa s' = trampoline_pa s \<and>
     kernel_pagetable s' = kernel_pagetable s \<and> freelist s' = freelist s \<and> curp s' = curp s \<and> nextpid s' = nextpid s \<and>
     initproc s' = initproc s \<and> myproc s' = myproc s \<and>
     (\<forall>i. procs s' i = procs s i \<or>
       p_state (procs s i) = SLEEPING \<and> procs s' i = (procs s i)\<lparr>p_state := RUNNABLE\<rparr>)"

lemma wakeups_refl [simp]: "wakeups s s"
  by (simp add: wakeups_def)

lemma wakeups_wakeup [simp]: "wakeups s (wakeup c s)"
  by (simp add: wakeups_def) (simp add: wakeup_def Let_def)

lemma wakeups_trans [trans]:
  assumes "wakeups s s'" "wakeups s' s''"
  shows "wakeups s s''"
proof -
  have "procs s'' i = procs s i \<or>
      p_state (procs s i) = SLEEPING \<and> procs s'' i = (procs s i)\<lparr>p_state := RUNNABLE\<rparr>" for i
  proof -
    have a: "procs s' i = procs s i \<or>
      p_state (procs s i) = SLEEPING \<and> procs s' i = (procs s i)\<lparr>p_state := RUNNABLE\<rparr>"
      using assms(1) by (simp add: wakeups_def)
    have b: "procs s'' i = procs s' i \<or>
      p_state (procs s' i) = SLEEPING \<and> procs s'' i = (procs s' i)\<lparr>p_state := RUNNABLE\<rparr>"
      using assms(2) by (simp add: wakeups_def)
    from a b show ?thesis by auto
  qed
  then show ?thesis using assms by (simp add: wakeups_def)
qed

lemma wakeups_myproc: "wakeups s s' \<Longrightarrow> myproc s' = myproc s"
  by (simp add: wakeups_def)

text \<open>\<^verbatim>\<open>struct sleeplock\<close>: the flag and the holder. Its inner spin lock makes each
  operation atomic. \<open>acquiresleep\<close> of a held lock blocks; when the thread is woken it
  runs the test again. The lock lives inside some object of the state: \<open>upd\<close> applies a
  function to it there, and \<open>c\<close> is its address.\<close>

record sleeplock =
  locked :: bool
  lk_pid :: int

lemma sleeplock_upd [simp]:
  "(lk::sleeplock)\<lparr>locked := a, lk_pid := b\<rparr> = \<lparr>locked = a, lk_pid = b\<rparr>"
  by (cases lk) simp

definition initsleeplock :: sleeplock where
  "initsleeplock = \<lparr>locked = False, lk_pid = 0\<rparr>"

definition acquiresleep ::
  "chan \<Rightarrow> sleeplock \<Rightarrow> ((sleeplock \<Rightarrow> sleeplock) \<Rightarrow> 'a kcore_scheme \<Rightarrow> 'a kcore_scheme) \<Rightarrow>
   'a kcore_scheme \<Rightarrow> 'a kcore_scheme res" where
  "acquiresleep c lk upd s =
     (if locked lk then Blocked c
      else Ok (upd (\<lambda>l. l\<lparr>locked := True, lk_pid := p_pid (myproc s)\<rparr>) s))"

definition releasesleep ::
  "chan \<Rightarrow> ((sleeplock \<Rightarrow> sleeplock) \<Rightarrow> 'a kcore_scheme \<Rightarrow> 'a kcore_scheme) \<Rightarrow>
   'a kcore_scheme \<Rightarrow> 'a kcore_scheme" where
  "releasesleep c upd s = wakeup c (upd (\<lambda>l. l\<lparr>locked := False, lk_pid := 0\<rparr>) s)"

definition holdingsleep :: "sleeplock \<Rightarrow> 'a kcore_scheme \<Rightarrow> bool" where
  "holdingsleep lk s \<longleftrightarrow> locked lk \<and> lk_pid lk = p_pid (myproc s)"

section \<open>A concrete process and core\<close>

text \<open>Used where a theorem is applied to a concrete state.\<close>

definition zero_proc :: proc where
  "zero_proc = \<lparr>p_state = RUNNING, p_chan = None, p_killed = False, p_xstate = 0, p_pid = 1,
     p_parent = None, p_kstack = 0, p_sz = 0, p_pagetable = 0, p_trapframe = 0,
     p_ctx_forkret = False, p_ctx_sp = 0, p_ofile = (\<lambda>_. None), p_cwd = None, p_name = (\<lambda>_. 0)\<rparr>"

definition core0 :: kcore where
  "core0 = \<lparr>mem = (\<lambda>_. 0), locals = (\<lambda>_. 0), kern_end = 0x80030000, kern_etext = 0x80008000,
     trampoline_pa = 0x80007000, kernel_pagetable = 0, freelist = 0, procs = (\<lambda>_. zero_proc),
     curp = 0, nextpid = 2, initproc = None\<rparr>"

end
