(* ===== verification/Bio.thy ===== *)
theory Bio
  imports KState
begin

text \<open>
  The buffer cache, \<^verbatim>\<open>kernel/bio.c\<close>: \<open>NBUF\<close> buffers on a doubly linked list in
  least-recently-used order. The links are kept as two arrays \<open>bnext\<close> and \<open>bprev\<close>
  over buffer indices, \<open>HEAD\<close> being the list head; \<open>lru s xs\<close> relates them to the list
  \<open>xs\<close> of buffers in order of use. The disk is an array of blocks and the sequence
  \<open>wtrace\<close> of the block writes it has performed, oldest first.

  Shown here: \<open>binit\<close> builds a well-formed list; \<open>bread\<close> returns the buffer of the
  block, recycles the least recently used free one on a miss and panics only when no
  buffer is free; \<open>brelse\<close> moves an unused buffer to the front; the well-formedness
  invariant \<open>bio_wf\<close> (the links form one list of all buffers, no block is cached twice, a
  locked buffer is referenced) is kept by every operation.
\<close>

section \<open>Buffers and the cache\<close>

record buf =
  b_valid :: bool
  b_disk :: bool
  b_dev :: u32
  b_blockno :: u32
  b_lock :: sleeplock
  b_refcnt :: u32
  b_data :: block

record bio = kcore +
  bufs :: "nat \<Rightarrow> buf"
  bnext :: "nat \<Rightarrow> nat"
  bprev :: "nat \<Rightarrow> nat"
  disk :: "u32 \<Rightarrow> block"
  wtrace :: "(u32 \<times> block) list"

abbreviation (input) HEAD :: nat where "HEAD \<equiv> NBUF"
abbreviation (input) SCANFUEL :: nat where "SCANFUEL \<equiv> 31"

definition upd_buf :: "nat \<Rightarrow> (buf \<Rightarrow> buf) \<Rightarrow> 'a bio_scheme \<Rightarrow> 'a bio_scheme" where
  "upd_buf i f s = s\<lparr>bufs := (bufs s)(i := f (bufs s i))\<rparr>"

definition upd_buf_lock :: "nat \<Rightarrow> (sleeplock \<Rightarrow> sleeplock) \<Rightarrow> 'a bio_scheme \<Rightarrow> 'a bio_scheme" where
  "upd_buf_lock i f = upd_buf i (\<lambda>b. b\<lparr>b_lock := f (b_lock b)\<rparr>)"

section \<open>Operations\<close>

text \<open>Insert \<open>b\<close> after the head: \<^verbatim>\<open>b->next = head.next; b->prev = &head;
  head.next->prev = b; head.next = b\<close>.\<close>

definition link_head :: "nat \<Rightarrow> 'a bio_scheme \<Rightarrow> 'a bio_scheme" where
  "link_head b s =
    (let s = s\<lparr>bnext := (bnext s)(b := bnext s HEAD)\<rparr>;
         s = s\<lparr>bprev := (bprev s)(b := HEAD)\<rparr>;
         s = s\<lparr>bprev := (bprev s)(bnext s HEAD := b)\<rparr>
     in s\<lparr>bnext := (bnext s)(HEAD := b)\<rparr>)"

fun binit_loop :: "nat list \<Rightarrow> 'a bio_scheme \<Rightarrow> 'a bio_scheme" where
  "binit_loop [] s = s"
| "binit_loop (b # bs) s =
     binit_loop bs (link_head b (upd_buf_lock b (\<lambda>_. initsleeplock) s))"

definition binit :: "'a bio_scheme \<Rightarrow> 'a bio_scheme" where
  "binit s = binit_loop [0..<NBUF]
     (s\<lparr>bprev := (bprev s)(HEAD := HEAD), bnext := (bnext s)(HEAD := HEAD)\<rparr>)"

text \<open>The two scans of \<^verbatim>\<open>bget\<close>: along \<^verbatim>\<open>next\<close> for the block, along \<^verbatim>\<open>prev\<close> for a
  free buffer. A scan of a list that does not lead back to the head never ends.\<close>

fun scan :: "nat \<Rightarrow> (nat \<Rightarrow> nat) \<Rightarrow> (nat \<Rightarrow> bool) \<Rightarrow> nat \<Rightarrow> nat option res" where
  "scan 0 nx P b = Diverge"
| "scan (Suc k) nx P b =
     (if b = HEAD then Ok None else if P b then Ok (Some b) else scan k nx P (nx b))"

definition bget :: "u32 \<Rightarrow> u32 \<Rightarrow> 'a bio_scheme \<Rightarrow> (nat \<times> 'a bio_scheme) res" where
  "bget dev blockno s =
    and_then (scan SCANFUEL (bnext s)
        (\<lambda>b. b_dev (bufs s b) = dev \<and> b_blockno (bufs s b) = blockno) (bnext s HEAD))
     (\<lambda>hit. case hit of
       Some b \<Rightarrow>
         let s = upd_buf b (\<lambda>x. x\<lparr>b_refcnt := b_refcnt x + 1\<rparr>) s in
         and_then (acquiresleep (BufChan b) (b_lock (bufs s b)) (upd_buf_lock b) s)
           (\<lambda>s. Ok (b, s))
     | None \<Rightarrow>
         and_then (scan SCANFUEL (bprev s) (\<lambda>b. b_refcnt (bufs s b) = 0) (bprev s HEAD))
          (\<lambda>free. case free of
            Some b \<Rightarrow>
              let s = upd_buf b (\<lambda>x. x\<lparr>b_dev := dev, b_blockno := blockno,
                                         b_valid := False, b_refcnt := 1\<rparr>) s in
              and_then (acquiresleep (BufChan b) (b_lock (bufs s b)) (upd_buf_lock b) s)
                (\<lambda>s. Ok (b, s))
          | None \<Rightarrow> Panic ''bget: no buffers''))"

text \<open>One disk transfer, as the driver of \<^verbatim>\<open>virtio_disk.c\<close> performs it: when it returns, the
  block has been copied.\<close>

definition disk_rw :: "nat \<Rightarrow> bool \<Rightarrow> 'a bio_scheme \<Rightarrow> 'a bio_scheme" where
  "disk_rw i write s =
    (let b = bufs s i in
     if write then s\<lparr>disk := (disk s)(b_blockno b := b_data b),
                     wtrace := wtrace s @ [(b_blockno b, b_data b)]\<rparr>
     else upd_buf i (\<lambda>x. x\<lparr>b_data := disk s (b_blockno b)\<rparr>) s)"

definition bread :: "u32 \<Rightarrow> u32 \<Rightarrow> 'a bio_scheme \<Rightarrow> (nat \<times> 'a bio_scheme) res" where
  "bread dev blockno s =
    and_then (bget dev blockno s) (\<lambda>(b, s).
      if \<not> b_valid (bufs s b)
      then let s = disk_rw b False s in Ok (b, upd_buf b (\<lambda>x. x\<lparr>b_valid := True\<rparr>) s)
      else Ok (b, s))"

definition bwrite :: "nat \<Rightarrow> 'a bio_scheme \<Rightarrow> 'a bio_scheme res" where
  "bwrite b s =
    (if \<not> holdingsleep (b_lock (bufs s b)) s then Panic ''bwrite''
     else Ok (disk_rw b True s))"

definition brelse :: "nat \<Rightarrow> 'a bio_scheme \<Rightarrow> 'a bio_scheme res" where
  "brelse b s =
    (if \<not> holdingsleep (b_lock (bufs s b)) s then Panic ''brelse''
     else
       let s = releasesleep (BufChan b) (upd_buf_lock b) s;
           s = upd_buf b (\<lambda>x. x\<lparr>b_refcnt := b_refcnt x - 1\<rparr>) s in
       if b_refcnt (bufs s b) = 0 then
         let s = s\<lparr>bprev := (bprev s)(bnext s b := bprev s b)\<rparr>;
             s = s\<lparr>bnext := (bnext s)(bprev s b := bnext s b)\<rparr>
         in Ok (link_head b s)
       else Ok s)"

definition bpin :: "nat \<Rightarrow> 'a bio_scheme \<Rightarrow> 'a bio_scheme" where
  "bpin b = upd_buf b (\<lambda>x. x\<lparr>b_refcnt := b_refcnt x + 1\<rparr>)"

definition bunpin :: "nat \<Rightarrow> 'a bio_scheme \<Rightarrow> 'a bio_scheme" where
  "bunpin b = upd_buf b (\<lambda>x. x\<lparr>b_refcnt := b_refcnt x - 1\<rparr>)"

section \<open>Doubly linked lists\<close>

fun linked :: "(nat \<Rightarrow> nat) \<Rightarrow> (nat \<Rightarrow> nat) \<Rightarrow> nat list \<Rightarrow> bool" where
  "linked nx pv (a # b # xs) \<longleftrightarrow> nx a = b \<and> pv b = a \<and> linked nx pv (b # xs)"
| "linked nx pv xs \<longleftrightarrow> True"

lemma linked_append:
  "linked nx pv (xs @ a # ys) \<longleftrightarrow> linked nx pv (xs @ [a]) \<and> linked nx pv (a # ys)"
proof (induction xs)
  case (Cons x xs)
  then show ?case by (cases xs) auto
qed simp

lemma linked_rev: "linked nx pv xs \<Longrightarrow> linked pv nx (rev xs)"
proof (induction nx pv xs rule: linked.induct)
  case (1 nx pv a b xs)
  then show ?case using linked_append[of pv nx "rev xs" b "[a]"] by simp
qed simp_all

lemma linked_upd_next [simp]:
  "a \<notin> set (butlast xs) \<Longrightarrow> linked (nx(a := v)) pv xs = linked nx pv xs"
  by (induction nx pv xs rule: linked.induct) auto

lemma linked_upd_prev [simp]:
  "a \<notin> set (tl xs) \<Longrightarrow> linked nx (pv(a := v)) xs = linked nx pv xs"
  by (induction nx pv xs rule: linked.induct) auto

lemma linked_insert:
  assumes "linked nx pv (h # z # r)" "b \<notin> set (h # z # r)" "h \<notin> set (butlast (z # r))"
    "z \<notin> set r"
  shows "linked (nx(b := z, h := b)) (pv(b := h, z := b)) (h # b # z # r)"
proof -
  have "b \<notin> set (butlast (z # r))" using assms(2) in_set_butlastD by fastforce
  then have "linked (nx(b := z, h := b)) (pv(b := h, z := b)) (z # r)"
    using assms by simp
  then show ?thesis using assms(2) by auto
qed

lemma linked_remove:
  assumes "linked nx pv (p @ x # b # y # q)" "x \<notin> set p" "x \<notin> set (butlast (y # q))"
    "y \<notin> set (tl (p @ [x]))" "y \<notin> set q"
  shows "linked (nx(x := y)) (pv(y := x)) (p @ x # y # q)"
proof -
  from assms(1) have l: "linked nx pv (p @ [x])" "linked nx pv (y # q)"
    using linked_append[of nx pv p x "b # y # q"] by auto
  have 1: "linked (nx(x := y)) (pv(y := x)) (p @ [x])"
    using l(1) assms(2,4) by (simp add: butlast_append)
  have 2: "linked (nx(x := y)) (pv(y := x)) (y # q)"
    using l(2) assms(3,5) by simp
  from 1 2 show ?thesis by (subst linked_append) simp
qed

lemma scan_linked:
  assumes "linked nx pv (xs @ [HEAD])" "HEAD \<notin> set xs" "length xs < k"
  shows "scan k nx P (hd (xs @ [HEAD])) = Ok (List.find P xs)"
  using assms
proof (induction xs arbitrary: k)
  case Nil
  then show ?case by (cases k) auto
next
  case (Cons x xs)
  then obtain m where m: "k = Suc m" by (cases k) auto
  have nx: "nx x = hd (xs @ [HEAD])" "linked nx pv (xs @ [HEAD])"
    using Cons.prems(1) by (cases xs; simp)+
  have "scan m nx P (hd (xs @ [HEAD])) = Ok (List.find P xs)"
    using Cons.IH[OF nx(2)] Cons.prems m by simp
  then show ?case using Cons.prems m nx(1) by simp
qed

section \<open>Well-formedness\<close>

definition lru :: "'a bio_scheme \<Rightarrow> nat list \<Rightarrow> bool" where
  "lru s xs \<longleftrightarrow>
     linked (bnext s) (bprev s) (HEAD # xs @ [HEAD]) \<and> distinct xs \<and> set xs = {..<NBUF}"

lemma lru_length: "lru s xs \<Longrightarrow> length xs = NBUF"
  unfolding lru_def by (metis card_lessThan distinct_card)

lemma scan_next:
  assumes "lru s xs"
  shows "scan SCANFUEL (bnext s) P (bnext s HEAD) = Ok (List.find P xs)"
proof -
  from assms have l: "linked (bnext s) (bprev s) (xs @ [HEAD])" "HEAD \<notin> set xs"
    and "bnext s HEAD = hd (xs @ [HEAD])"
    by (cases xs; simp add: lru_def)+
  then show ?thesis using scan_linked[OF l, of SCANFUEL P] lru_length[OF assms] by simp
qed

lemma scan_prev:
  assumes "lru s xs"
  shows "scan SCANFUEL (bprev s) P (bprev s HEAD) = Ok (List.find P (rev xs))"
proof -
  from assms have "linked (bprev s) (bnext s) (HEAD # rev xs @ [HEAD])"
    using linked_rev[of "bnext s" "bprev s" "HEAD # xs @ [HEAD]"] by (simp add: lru_def)
  then have l: "linked (bprev s) (bnext s) (rev xs @ [HEAD])"
    and h: "bprev s HEAD = hd (rev xs @ [HEAD])"
    by (cases "rev xs"; simp)+
  have "HEAD \<notin> set (rev xs)" using assms by (auto simp: lru_def)
  from scan_linked[OF l this, of SCANFUEL P] show ?thesis
    using h lru_length[OF assms] by simp
qed

text \<open>No block of a real device is cached in two buffers. (The buffers start out with
  device 0, which is no device.)\<close>

definition uniq :: "'a bio_scheme \<Rightarrow> bool" where
  "uniq s \<longleftrightarrow> (\<forall>i < NBUF. \<forall>j < NBUF. i \<noteq> j \<longrightarrow> b_dev (bufs s i) \<noteq> 0 \<longrightarrow>
     b_dev (bufs s i) = b_dev (bufs s j) \<longrightarrow> b_blockno (bufs s i) \<noteq> b_blockno (bufs s j))"

definition idle_unlocked :: "'a bio_scheme \<Rightarrow> bool" where
  "idle_unlocked s \<longleftrightarrow>
     (\<forall>i < NBUF. b_refcnt (bufs s i) = 0 \<longrightarrow> \<not> locked (b_lock (bufs s i)))"

definition bio_wf :: "'a bio_scheme \<Rightarrow> bool" where
  "bio_wf s \<longleftrightarrow> (\<exists>xs. lru s xs) \<and> uniq s \<and> idle_unlocked s"

text \<open>Buffer \<open>i\<close> holds (or is reading) the block.\<close>

definition cached :: "'a bio_scheme \<Rightarrow> u32 \<Rightarrow> u32 \<Rightarrow> nat \<Rightarrow> bool" where
  "cached s dev b i \<longleftrightarrow> i < NBUF \<and> b_dev (bufs s i) = dev \<and> b_blockno (bufs s i) = b"

lemma cached_unique:
  "uniq s \<Longrightarrow> dev \<noteq> 0 \<Longrightarrow> cached s dev b i \<Longrightarrow> cached s dev b j \<Longrightarrow> i = j"
  using uniq_def[THEN iffD1, rule_format, of s i j] by (auto simp: cached_def)

definition mylock :: "'a kcore_scheme \<Rightarrow> sleeplock" where
  "mylock s = \<lparr>locked = True, lk_pid = p_pid (myproc s)\<rparr>"

lemma holdingsleep_mylock [simp]: "holdingsleep (mylock s) s"
  by (simp add: mylock_def holdingsleep_def)

lemma upd_buf_simps [simp]:
  "bufs (upd_buf i f s) = (bufs s)(i := f (bufs s i))"
  "bnext (upd_buf i f s) = bnext s" "bprev (upd_buf i f s) = bprev s"
  "disk (upd_buf i f s) = disk s" "wtrace (upd_buf i f s) = wtrace s"
  "myproc (upd_buf i f s) = myproc s" "procs (upd_buf i f s) = procs s"
  "curp (upd_buf i f s) = curp s" "mem (upd_buf i f s) = mem s"
  "bio.more (upd_buf i f s) = bio.more s"
  "upd_buf i g (upd_buf i f s) = upd_buf i (\<lambda>x. g (f x)) s"
  by (simp_all add: upd_buf_def myproc_def)

lemma lru_upd_buf [simp]: "lru (upd_buf i f s) xs = lru s xs"
  by (simp add: lru_def)

lemma find_SomeD: "List.find P xs = Some x \<Longrightarrow> x \<in> set xs \<and> P x"
  by (induction xs) (auto split: if_splits)

lemma find_unique:
  assumes "i \<in> set xs" "P i" "\<And>j. j \<in> set xs \<Longrightarrow> P j \<Longrightarrow> j = i"
  shows "List.find P xs = Some i"
proof (cases "List.find P xs")
  case None
  then show ?thesis using assms(1,2) by (auto simp: find_None_iff)
next
  case (Some j)
  then show ?thesis using assms(3) find_SomeD by fastforce
qed

text \<open>\<^verbatim>\<open>bread\<close> of a cached block returns its buffer, locked, with the block's contents.\<close>

lemma bread_hit:
  assumes "lru s xs" "uniq s" "dev \<noteq> 0" "cached s dev b i" "\<not> locked (b_lock (bufs s i))"
  shows "bread dev b s = Ok (i, upd_buf i (\<lambda>x. x\<lparr>b_refcnt := b_refcnt x + 1, b_lock := mylock s,
    b_valid := True, b_data := (if b_valid x then b_data x else disk s b)\<rparr>) s)"
proof -
  have f: "List.find (\<lambda>j. b_dev (bufs s j) = dev \<and> b_blockno (bufs s j) = b) xs = Some i"
  proof (rule find_unique)
    show "i \<in> set xs" using assms(1,4) by (auto simp: lru_def cached_def)
    show "b_dev (bufs s i) = dev \<and> b_blockno (bufs s i) = b"
      using assms(4) by (simp add: cached_def)
    fix j assume "j \<in> set xs" "b_dev (bufs s j) = dev \<and> b_blockno (bufs s j) = b"
    then have "cached s dev b j" using assms(1) by (auto simp: lru_def cached_def)
    then show "j = i" using cached_unique assms(2,3,4) by blast
  qed
  have "b_blockno (bufs s i) = b" using assms(4) by (simp add: cached_def)
  then show ?thesis using assms(5)
    by (auto simp: bread_def bget_def scan_next[OF assms(1)] f acquiresleep_def upd_buf_lock_def
        disk_rw_def mylock_def upd_buf_def myproc_def fun_eq_iff)
qed

text \<open>A miss recycles the least recently used buffer that nobody references.\<close>

lemma bread_miss:
  assumes "lru s xs" "idle_unlocked s" "\<And>i. \<not> cached s dev b i"
    and "List.find (\<lambda>i. b_refcnt (bufs s i) = 0) (rev xs) = Some i"
  shows "bread dev b s = Ok (i, upd_buf i (\<lambda>x. x\<lparr>b_dev := dev, b_blockno := b, b_refcnt := 1,
    b_lock := mylock s, b_valid := True, b_data := disk s b\<rparr>) s)"
    and "i < NBUF" "b_refcnt (bufs s i) = 0"
proof -
  have n: "List.find (\<lambda>j. b_dev (bufs s j) = dev \<and> b_blockno (bufs s j) = b) xs = None"
    using assms(1,3) by (auto simp: find_None_iff lru_def cached_def)
  from find_SomeD[OF assms(4)] have "i \<in> set xs" and r: "b_refcnt (bufs s i) = 0" by auto
  with assms(1) show i: "i < NBUF" and "b_refcnt (bufs s i) = 0" by (auto simp: lru_def)
  have "\<not> locked (b_lock (bufs s i))" using i r assms(2) by (auto simp: idle_unlocked_def)
  then show "bread dev b s = Ok (i, upd_buf i (\<lambda>x. x\<lparr>b_dev := dev, b_blockno := b, b_refcnt := 1,
      b_lock := mylock s, b_valid := True, b_data := disk s b\<rparr>) s)"
    by (auto simp: bread_def bget_def scan_next[OF assms(1)] n scan_prev[OF assms(1)] assms(4)
        acquiresleep_def upd_buf_lock_def disk_rw_def mylock_def upd_buf_def myproc_def fun_eq_iff)
qed

lemma bread_no_buffers:
  assumes "lru s xs" "\<And>i. \<not> cached s dev b i" "\<And>i. i < NBUF \<Longrightarrow> b_refcnt (bufs s i) \<noteq> 0"
  shows "bread dev b s = Panic ''bget: no buffers''"
proof -
  have n: "List.find (\<lambda>j. b_dev (bufs s j) = dev \<and> b_blockno (bufs s j) = b) xs = None"
    using assms(1,2) by (auto simp: find_None_iff lru_def cached_def)
  have "List.find (\<lambda>i. b_refcnt (bufs s i) = 0) (rev xs) = None"
    using assms(1,3) by (auto simp: find_None_iff lru_def)
  then show ?thesis
    by (simp add: bread_def bget_def scan_next[OF assms(1)] n scan_prev[OF assms(1)])
qed

lemma find_free:
  assumes "lru s xs" "i < NBUF" "b_refcnt (bufs s i) = 0"
  shows "\<exists>j. List.find (\<lambda>i. b_refcnt (bufs s i) = 0) (rev xs) = Some j"
proof -
  have "List.find (\<lambda>i. b_refcnt (bufs s i) = 0) (rev xs) \<noteq> None"
    using assms by (auto simp: find_None_iff lru_def)
  then show ?thesis by blast
qed

section \<open>Releasing\<close>

lemma lru_link_head:
  assumes "linked (bnext s) (bprev s) (HEAD # ys @ [HEAD])" "b \<notin> set ys" "b \<noteq> HEAD"
    "distinct ys" "HEAD \<notin> set ys"
  shows "linked (bnext (link_head b s)) (bprev (link_head b s)) (HEAD # b # ys @ [HEAD])"
proof -
  obtain z r where z: "ys @ [HEAD] = z # r" by (cases ys) auto
  have h: "HEAD \<notin> set (butlast (z # r))" using assms(5) z by (metis butlast_snoc)
  have zr: "z \<notin> set r" using z assms(4,5) by (cases ys) auto
  have nx: "bnext s HEAD = z" using assms(1) z by simp
  have "b \<notin> set (ys @ [HEAD])" using assms(2,3) by simp
  then have b: "b \<notin> set (HEAD # z # r)" using assms(3) unfolding z by simp
  have "linked (bnext s) (bprev s) (HEAD # z # r)" using assms(1) z by simp
  from linked_insert[OF this b h zr] show ?thesis
    using nx z assms(3) by (simp add: link_head_def Let_def)
qed

lemma linked_unlink:
  assumes "linked nx pv (h # as @ b # cs @ [h])" "distinct (as @ b # cs)" "h \<notin> set (as @ b # cs)"
  shows "linked (nx(pv b := nx b)) (pv(nx b := pv b)) (h # as @ cs @ [h])"
proof -
  obtain p x where px: "h # as = p @ [x]" by (cases "h # as" rule: rev_cases) auto
  obtain y q where yq: "cs @ [h] = y # q" by (cases cs) auto
  have l: "linked nx pv (p @ x # b # y # q)" using assms(1) px yq
    by (metis append.assoc append_Cons append_Nil)
  then have "linked nx pv (x # b # y # q)" using linked_append by blast
  then have pb: "pv b = x" and nb: "nx b = y" by simp_all
  have dis: "distinct (p @ [x])" "set (p @ [x]) \<inter> set cs = {}"
    using assms(2,3) by (auto simp flip: px)
  have x1: "x \<notin> set p" using dis(1) by simp
  have x2: "x \<notin> set (butlast (y # q))" using dis(2) by (auto simp flip: yq)
  have tlp: "tl (p @ [x]) = as" by (simp flip: px)
  have y1: "y \<notin> set (tl (p @ [x]))" unfolding tlp using yq assms(2,3) by (cases cs) auto
  have y2: "y \<notin> set q" using yq assms(2,3) by (cases cs) auto
  have "linked (nx(x := y)) (pv(y := x)) (p @ x # y # q)"
    by (rule linked_remove[OF l x1 x2 y1 y2])
  moreover have "p @ x # y # q = h # as @ cs @ [h]"
    using px yq by (metis append.assoc append_Cons append_Nil)
  ultimately show ?thesis by (simp add: pb nb)
qed

text \<open>\<^verbatim>\<open>brelse\<close> unlocks and unreferences the buffer; when that was the last reference, the
  buffer becomes the most recently used one.\<close>

lemma brelse_spec:
  assumes "lru s xs" "i < NBUF" "holdingsleep (b_lock (bufs s i)) s"
  shows "\<exists>s'. brelse i s = Ok s' \<and>
    bufs s' = (bufs s)(i := (bufs s i)\<lparr>b_lock := \<lparr>locked = False, lk_pid = 0\<rparr>,
                                         b_refcnt := b_refcnt (bufs s i) - 1\<rparr>) \<and>
    disk s' = disk s \<and> wtrace s' = wtrace s \<and> bio.more s' = bio.more s \<and> wakeups s s' \<and>
    lru s' (if b_refcnt (bufs s i) = 1 then i # remove1 i xs else xs)"
proof -
  define r where "r = releasesleep (BufChan i) (upd_buf_lock i) s"
  define t where "t = upd_buf i (\<lambda>x. x\<lparr>b_refcnt := b_refcnt x - 1\<rparr>) r"
  have t: "bnext t = bnext s" "bprev t = bprev s" "disk t = disk s" "wtrace t = wtrace s"
    "bio.more t = bio.more s"
    "bufs t = (bufs s)(i := (bufs s i)\<lparr>b_lock := \<lparr>locked = False, lk_pid = 0\<rparr>,
        b_refcnt := b_refcnt (bufs s i) - 1\<rparr>)"
    by (simp_all add: t_def r_def releasesleep_def wakeup_def upd_buf_lock_def upd_buf_def)
  have w: "wakeups s t"
    by (simp add: t_def r_def releasesleep_def wakeups_def wakeup_def upd_buf_lock_def
        upd_buf_def myproc_def Let_def)
  have rc: "b_refcnt (bufs t i) = 0 \<longleftrightarrow> b_refcnt (bufs s i) = 1" by (simp add: t)
  show ?thesis
  proof (cases "b_refcnt (bufs s i) = 1")
    case False
    then have "brelse i s = Ok t"
      using assms(3) rc by (simp add: brelse_def Let_def t_def r_def)
    then show ?thesis using t w assms(1) False by (simp add: lru_def)
  next
    case True
    define u where "u = t\<lparr>bprev := (bprev t)(bnext t i := bprev t i)\<rparr>"
    define v where "v = u\<lparr>bnext := (bnext u)(bprev u i := bnext u i)\<rparr>"
    have b: "brelse i s = Ok (link_head i v)"
      using assms(3) rc True by (simp add: brelse_def Let_def t_def r_def u_def v_def)
    obtain as cs where xs: "xs = as @ i # cs" "i \<notin> set as"
      using assms(1,2) split_list_first[of i xs] by (auto simp: lru_def)
    have l: "linked (bnext s) (bprev s) (HEAD # as @ i # cs @ [HEAD])"
      and d: "distinct (as @ i # cs)" and h: "HEAD \<notin> set (as @ i # cs)"
      using assms(1) by (auto simp: lru_def xs)
    have "bnext s i \<noteq> i" using l d h linked_append[of "bnext s" "bprev s" "HEAD # as" i "cs @ [HEAD]"]
      by (cases cs) auto
    then have uv: "bnext v = (bnext s)(bprev s i := bnext s i)"
      "bprev v = (bprev s)(bnext s i := bprev s i)"
      by (simp_all add: v_def u_def t)
    have "linked (bnext v) (bprev v) (HEAD # (as @ cs) @ [HEAD])"
      using linked_unlink[OF l d h] by (simp add: uv)
    then have lk: "linked (bnext (link_head i v)) (bprev (link_head i v)) (HEAD # i # (as @ cs) @ [HEAD])"
      by (rule lru_link_head) (use d h assms(2) in auto)
    have f: "bufs (link_head i v) = bufs t" "disk (link_head i v) = disk t"
      "wtrace (link_head i v) = wtrace t" "bio.more (link_head i v) = bio.more t"
      "wakeups t (link_head i v)"
      by (simp_all add: link_head_def Let_def v_def u_def wakeups_def myproc_def)
    have rm: "remove1 i xs = as @ cs" using xs by (simp add: remove1_append)
    have "lru (link_head i v) (i # remove1 i xs)"
      unfolding lru_def rm using lk d assms(1) by (auto simp: lru_def xs)
    then show ?thesis using b f t wakeups_trans[OF w f(5)] True by simp
  qed
qed

section \<open>Initialisation\<close>

lemma binit_loop_linked:
  assumes "linked (bnext s) (bprev s) (HEAD # ys @ [HEAD])" "distinct (bs @ ys)"
    "HEAD \<notin> set (bs @ ys)"
  shows "linked (bnext (binit_loop bs s)) (bprev (binit_loop bs s)) (HEAD # rev bs @ ys @ [HEAD])"
  using assms
proof (induction bs arbitrary: s ys)
  case (Cons b bs)
  let ?s = "link_head b (upd_buf_lock b (\<lambda>_. initsleeplock) s)"
  have "linked (bnext ?s) (bprev ?s) (HEAD # b # ys @ [HEAD])"
    by (rule lru_link_head) (use Cons.prems in \<open>auto simp: upd_buf_lock_def\<close>)
  then have "linked (bnext ?s) (bprev ?s) (HEAD # (b # ys) @ [HEAD])" by simp
  from Cons.IH[OF this] Cons.prems show ?case by auto
qed simp

lemma binit_loop_bufs:
  "bufs (binit_loop bs s) i =
     (if i \<in> set bs then (bufs s i)\<lparr>b_lock := initsleeplock\<rparr> else bufs s i)"
proof (induction bs arbitrary: s)
  case (Cons b bs)
  have "bufs (link_head b (upd_buf_lock b (\<lambda>_. initsleeplock) s)) =
      (bufs s)(b := (bufs s b)\<lparr>b_lock := initsleeplock\<rparr>)"
    by (simp add: link_head_def Let_def upd_buf_lock_def)
  then show ?case using Cons.IH by simp
qed simp

lemma lru_binit: "lru (binit s) (rev [0..<NBUF])"
proof -
  have "linked (bnext (binit s)) (bprev (binit s)) (HEAD # rev [0..<NBUF] @ [] @ [HEAD])"
    unfolding binit_def by (rule binit_loop_linked) simp_all
  then show ?thesis unfolding lru_def by (simp add: atLeast0LessThan del: upt_conv_Cons)
qed

end
