(* ===== verification/WLog.thy ===== *)
theory WLog
  imports Bio
begin

text \<open>
  The write-ahead log, \<^verbatim>\<open>kernel/log.c\<close>. The in-memory header is the count \<open>l_n\<close> and
  the block numbers \<open>l_block\<close>; on disk the header block holds the count as its first
  32-bit word and the block numbers after it, and the logged blocks follow it.
  \<^verbatim>\<open>struct logheader\<close> holds \<open>LOGSIZE\<close> numbers; \<open>read_head\<close> copies as many as the
  disk says.
\<close>

abbreviation (input) BSIZE :: nat where "BSIZE \<equiv> 1024"

record logst = bio +
  l_start :: u32
  l_size :: int
  l_outstanding :: int
  l_committing :: bool
  l_dev :: u32
  l_n :: int
  l_block :: "nat \<Rightarrow> u32"

definition set_data :: "nat \<Rightarrow> block \<Rightarrow> 'a bio_scheme \<Rightarrow> 'a bio_scheme" where
  "set_data i d = upd_buf i (\<lambda>x. x\<lparr>b_data := d\<rparr>)"

section \<open>Operations\<close>

definition install_one :: "bool \<Rightarrow> nat \<Rightarrow> 'a logst_scheme \<Rightarrow> 'a logst_scheme res" where
  "install_one recovering tail s =
    and_then (bread (l_dev s) (l_start s + of_nat tail + 1) s) (\<lambda>(lbuf, s).
    and_then (bread (l_dev s) (l_block s tail) s) (\<lambda>(dbuf, s).
    let s = set_data dbuf (b_data (bufs s lbuf)) s in
    and_then (bwrite dbuf s) (\<lambda>s.
    let s = (if recovering then s else bunpin dbuf s) in
    and_then (brelse lbuf s) (\<lambda>s. brelse dbuf s))))"

definition install_trans :: "bool \<Rightarrow> 'a logst_scheme \<Rightarrow> 'a logst_scheme res" where
  "install_trans recovering s = for_each (install_one recovering) [0..<nat (l_n s)] s"

definition read_head :: "'a logst_scheme \<Rightarrow> 'a logst_scheme res" where
  "read_head s =
    and_then (bread (l_dev s) (l_start s) s) (\<lambda>(b, s).
    let hb = b_data (bufs s b); n = sint (get32 hb 0);
        s = s\<lparr>l_n := n,
              l_block := (\<lambda>i. if i < nat n then get32 hb (Suc i) else l_block s i)\<rparr>
    in brelse b s)"

fun put_blocks :: "nat list \<Rightarrow> (nat \<Rightarrow> u32) \<Rightarrow> block \<Rightarrow> block" where
  "put_blocks [] bl hb = hb"
| "put_blocks (i # is) bl hb = put_blocks is bl (put32 hb (Suc i) (bl i))"

definition write_head :: "'a logst_scheme \<Rightarrow> 'a logst_scheme res" where
  "write_head s =
    and_then (bread (l_dev s) (l_start s) s) (\<lambda>(b, s).
    let hb = put32 (b_data (bufs s b)) 0 (word_of_int (l_n s));
        hb = put_blocks [0..<nat (l_n s)] (l_block s) hb;
        s = set_data b hb s
    in and_then (bwrite b s) (\<lambda>s. brelse b s))"

definition recover_from_log :: "'a logst_scheme \<Rightarrow> 'a logst_scheme res" where
  "recover_from_log s =
    and_then (read_head s) (\<lambda>s.
    and_then (install_trans True s) (\<lambda>s.
    write_head (s\<lparr>l_n := 0\<rparr>)))"

definition initlog :: "u32 \<Rightarrow> u32 \<Rightarrow> u32 \<Rightarrow> 'a logst_scheme \<Rightarrow> 'a logst_scheme res" where
  "initlog dev logstart nlog s =
    (if 4 + 4 * LOGSIZE \<ge> BSIZE then Panic ''initlog: too big logheader''
     else recover_from_log (s\<lparr>l_start := logstart, l_size := sint nlog, l_dev := dev\<rparr>))"

definition begin_op :: "'a logst_scheme \<Rightarrow> 'a logst_scheme res" where
  "begin_op s =
    (if l_committing s then Blocked LogChan
     else if l_n s + (l_outstanding s + 1) * int MAXOPBLOCKS > int LOGSIZE then Blocked LogChan
     else Ok (s\<lparr>l_outstanding := l_outstanding s + 1\<rparr>))"

definition write_log_one :: "nat \<Rightarrow> 'a logst_scheme \<Rightarrow> 'a logst_scheme res" where
  "write_log_one tail s =
    and_then (bread (l_dev s) (l_start s + of_nat tail + 1) s) (\<lambda>(to, s).
    and_then (bread (l_dev s) (l_block s tail) s) (\<lambda>(from, s).
    let s = set_data to (b_data (bufs s from)) s in
    and_then (bwrite to s) (\<lambda>s.
    and_then (brelse from s) (\<lambda>s. brelse to s))))"

definition write_log :: "'a logst_scheme \<Rightarrow> 'a logst_scheme res" where
  "write_log s = for_each write_log_one [0..<nat (l_n s)] s"

definition commit :: "'a logst_scheme \<Rightarrow> 'a logst_scheme res" where
  "commit s =
    (if l_n s > 0 then
       and_then (write_log s) (\<lambda>s.
       and_then (write_head s) (\<lambda>s.
       and_then (install_trans False s) (\<lambda>s.
       write_head (s\<lparr>l_n := 0\<rparr>))))
     else Ok s)"

definition end_op :: "'a logst_scheme \<Rightarrow> 'a logst_scheme res" where
  "end_op s =
    (let s = s\<lparr>l_outstanding := l_outstanding s - 1\<rparr> in
     if l_committing s then Panic ''log.committing''
     else if l_outstanding s = 0 then
       and_then (commit (s\<lparr>l_committing := True\<rparr>)) (\<lambda>s.
         Ok (wakeup LogChan (s\<lparr>l_committing := False\<rparr>)))
     else Ok (wakeup LogChan s))"

text \<open>The index of the first logged entry equal to \<open>b\<close>, or the count: the loop of
  \<^verbatim>\<open>log_write\<close>.\<close>

fun absorb_index :: "nat \<Rightarrow> nat \<Rightarrow> (nat \<Rightarrow> u32) \<Rightarrow> u32 \<Rightarrow> nat" where
  "absorb_index 0 i bl b = i"
| "absorb_index (Suc k) i bl b = (if bl i = b then i else absorb_index k (Suc i) bl b)"

definition log_write :: "nat \<Rightarrow> 'a logst_scheme \<Rightarrow> 'a logst_scheme res" where
  "log_write b s =
    (if l_n s \<ge> int LOGSIZE \<or> l_n s \<ge> l_size s - 1 then Panic ''too big a transaction''
     else if l_outstanding s < 1 then Panic ''log_write outside of trans''
     else
       let bn = b_blockno (bufs s b); i = absorb_index (nat (l_n s)) 0 (l_block s) bn;
           s = s\<lparr>l_block := (l_block s)(i := bn)\<rparr>
       in if int i = l_n s then Ok ((bpin b s)\<lparr>l_n := l_n s + 1\<rparr>) else Ok s)"

end
