(* ===== verification/Txn.thy ===== *)
theory Txn
  imports WLog
begin

text \<open>
  What the buffer cache and the log together promise to the file system. The invariant
  \<open>pinv P H s\<close> describes a state in which the running thread holds exactly the buffers of
  the blocks \<open>H\<close>: reference counts are pins plus holds, every logged or held block is
  cached, and every other cached block equals the disk. \<open>bview s b\<close> is the current
  contents of block \<open>b\<close>, in the cache or on disk. \<open>bread\<close>, writing the buffer,
  \<open>log_write\<close>, \<open>bwrite\<close> and \<open>brelse\<close> are specified by their effect on \<open>bview\<close>,
  the set of logged blocks and the held blocks.
\<close>

section \<open>Logged blocks and current contents\<close>

definition loglist :: "'a logst_scheme \<Rightarrow> u32 list" where
  "loglist s = map (l_block s) [0..<nat (l_n s)]"

definition logged :: "'a logst_scheme \<Rightarrow> u32 set" where
  "logged s = set (loglist s)"

definition bview :: "'a logst_scheme \<Rightarrow> u32 \<Rightarrow> block" where
  "bview s b =
    (case List.find (\<lambda>i. b_dev (bufs s i) = l_dev s \<and> b_blockno (bufs s i) = b \<and>
        b_valid (bufs s i)) [0..<NBUF] of
       Some i \<Rightarrow> b_data (bufs s i) | None \<Rightarrow> disk s b)"

text \<open>What the invariant says of one buffer, for the device \<open>d\<close>, logged blocks \<open>L\<close>,
  held blocks \<open>H\<close>, the lock value \<open>lk\<close> of the running process and the disk.\<close>

definition buf_ok :: "u32 \<Rightarrow> u32 set \<Rightarrow> u32 set \<Rightarrow> sleeplock \<Rightarrow> (u32 \<Rightarrow> block) \<Rightarrow> buf \<Rightarrow> bool" where
  "buf_ok d L H lk dsk x \<longleftrightarrow>
     b_refcnt x = (if b_dev x = d \<and> b_blockno x \<in> L then 1 else 0) +
                  (if b_dev x = d \<and> b_blockno x \<in> H then 1 else 0) \<and>
     (if b_dev x = d \<and> b_blockno x \<in> H then b_lock x = lk else \<not> locked (b_lock x)) \<and>
     (b_valid x \<longrightarrow> b_dev x = d \<longrightarrow> b_blockno x \<notin> L \<longrightarrow> b_blockno x \<notin> H \<longrightarrow>
        b_data x = dsk (b_blockno x))"

text \<open>\<open>pinv P H s\<close>: the blocks \<open>P\<close> are pinned and the blocks \<open>H\<close> are held.\<close>

definition pinv :: "u32 set \<Rightarrow> u32 set \<Rightarrow> 'a logst_scheme \<Rightarrow> bool" where
  "pinv P H s \<longleftrightarrow>
     (\<exists>xs. lru s xs) \<and> uniq s \<and> l_dev s \<noteq> 0 \<and> finite P \<and> finite H \<and>
     (\<forall>i < NBUF. buf_ok (l_dev s) P H (mylock s) (disk s) (bufs s i)) \<and>
     (\<forall>b \<in> P \<union> H. \<exists>i. cached s (l_dev s) b i \<and> b_valid (bufs s i))"

lemma bview_cached:
  assumes "uniq s" "l_dev s \<noteq> 0" "cached s (l_dev s) b i" "b_valid (bufs s i)"
  shows "bview s b = b_data (bufs s i)"
proof -
  have "List.find (\<lambda>i. b_dev (bufs s i) = l_dev s \<and> b_blockno (bufs s i) = b \<and>
      b_valid (bufs s i)) [0..<NBUF] = Some i"
  proof (rule find_unique)
    show "i \<in> set [0..<NBUF]" using assms(3) by (simp add: cached_def)
    show "b_dev (bufs s i) = l_dev s \<and> b_blockno (bufs s i) = b \<and> b_valid (bufs s i)"
      using assms(3,4) by (simp add: cached_def)
    fix j assume "j \<in> set [0..<NBUF]"
      and "b_dev (bufs s j) = l_dev s \<and> b_blockno (bufs s j) = b \<and> b_valid (bufs s j)"
    then have "cached s (l_dev s) b j" by (simp add: cached_def)
    then show "j = i" using cached_unique[OF assms(1,2)] assms(3) by blast
  qed
  then show ?thesis by (simp add: bview_def)
qed

lemma bview_uncached:
  assumes "\<And>i. cached s (l_dev s) b i \<Longrightarrow> \<not> b_valid (bufs s i)"
  shows "bview s b = disk s b"
proof -
  have "List.find (\<lambda>i. b_dev (bufs s i) = l_dev s \<and> b_blockno (bufs s i) = b \<and>
      b_valid (bufs s i)) [0..<NBUF] = None"
    using assms by (auto simp: find_None_iff cached_def)
  then show ?thesis by (simp add: bview_def)
qed

lemma pinvD:
  assumes "pinv P H s"
  shows "\<exists>xs. lru s xs" "uniq s" "l_dev s \<noteq> 0" "finite P" "finite H"
    "\<And>i. i < NBUF \<Longrightarrow> buf_ok (l_dev s) P H (mylock s) (disk s) (bufs s i)"
    "\<And>b. b \<in> P \<or> b \<in> H \<Longrightarrow> \<exists>i. cached s (l_dev s) b i \<and> b_valid (bufs s i)"
  using assms by (simp_all add: pinv_def)

text \<open>The invariant and the view depend on the cache, the disk, the device and the running
  process only.\<close>

lemma store_cong:
  assumes "bufs s' = bufs s" "bnext s' = bnext s" "bprev s' = bprev s" "disk s' = disk s"
    "l_dev s' = l_dev s" "myproc s' = myproc s"
  shows "pinv P H s' = pinv P H s" "bview s' = bview s" "cached s' = cached s"
proof -
  show c: "cached s' = cached s" by (rule ext)+ (simp only: cached_def assms)
  show "bview s' = bview s" by (rule ext) (simp only: bview_def assms)
  show "pinv P H s' = pinv P H s"
    by (simp add: pinv_def lru_def uniq_def mylock_def c assms)
qed

lemma pinv_upd [simp]:
  "pinv P H (s\<lparr>l_n := n\<rparr>) = pinv P H s" "pinv P H (s\<lparr>l_block := f\<rparr>) = pinv P H s"
  "pinv P H (s\<lparr>l_outstanding := n\<rparr>) = pinv P H s" "pinv P H (s\<lparr>l_committing := c\<rparr>) = pinv P H s"
  by (rule store_cong; simp add: myproc_def)+

lemma bview_upd [simp]:
  "bview (s\<lparr>l_n := n\<rparr>) = bview s" "bview (s\<lparr>l_block := f\<rparr>) = bview s"
  "bview (s\<lparr>l_outstanding := n\<rparr>) = bview s" "bview (s\<lparr>l_committing := c\<rparr>) = bview s"
  by (rule store_cong; simp add: myproc_def)+

lemma cached_upd [simp]:
  "cached (s\<lparr>l_n := n\<rparr>) = cached s" "cached (s\<lparr>l_block := f\<rparr>) = cached s"
  "cached (s\<lparr>l_outstanding := n\<rparr>) = cached s" "cached (s\<lparr>l_committing := c\<rparr>) = cached s"
  by (rule store_cong; simp add: myproc_def)+

lemma buf_ok_other:
  assumes "buf_ok d L H lk dsk x" "b_dev x \<noteq> d \<or> b_blockno x \<noteq> b"
    "\<And>c. c \<noteq> b \<Longrightarrow> c \<in> L' \<longleftrightarrow> c \<in> L" "\<And>c. c \<noteq> b \<Longrightarrow> c \<in> H' \<longleftrightarrow> c \<in> H"
    "\<And>c. c \<noteq> b \<Longrightarrow> dsk' c = dsk c"
  shows "buf_ok d L' H' lk dsk' x"
  using assms(1,2) unfolding buf_ok_def by (cases "b_dev x = d") (auto simp: assms(3-5))

lemma finite_logged [simp]: "finite (logged s)"
  by (simp add: logged_def)

text \<open>Buffers that are not free hold logged or held blocks, one each: so a buffer is free
  while fewer than \<open>NBUF\<close> blocks are in use.\<close>

lemma free_buffer:
  assumes inv: "pinv P H s" and card: "card (insert b (P \<union> H)) \<le> NBUF"
    and nc: "\<And>i. \<not> cached s (l_dev s) b i"
  shows "\<exists>i < NBUF. b_refcnt (bufs s i) = 0"
proof (rule ccontr)
  assume "\<not> ?thesis"
  then have r: "\<And>i. i < NBUF \<Longrightarrow> b_refcnt (bufs s i) \<noteq> 0" by blast
  have u: "b_dev (bufs s i) = l_dev s \<and> b_blockno (bufs s i) \<in> P \<union> H" if "i < NBUF" for i
    using pinvD(6)[OF inv that] r[OF that] by (auto simp: buf_ok_def split: if_splits)
  have inj: "inj_on (\<lambda>i. b_blockno (bufs s i)) {..<NBUF}"
  proof (rule inj_onI)
    fix i j assume ij: "i \<in> {..<NBUF}" "j \<in> {..<NBUF}" "b_blockno (bufs s i) = b_blockno (bufs s j)"
    then have "cached s (l_dev s) (b_blockno (bufs s i)) i" "cached s (l_dev s) (b_blockno (bufs s i)) j"
      using u by (auto simp: cached_def)
    then show "i = j" using cached_unique pinvD(2,3)[OF inv] by blast
  qed
  let ?U = "(\<lambda>i. b_blockno (bufs s i)) ` {..<NBUF}"
  have "?U \<subseteq> P \<union> H" using u by auto
  moreover have "b \<notin> ?U" using nc u by (auto simp: cached_def)
  ultimately have "insert b ?U \<subseteq> insert b (P \<union> H)" by blast
  then have "card (insert b ?U) \<le> card (insert b (P \<union> H))"
    by (intro card_mono) (use pinvD(4,5)[OF inv] in auto)
  moreover have "card (insert b ?U) = Suc NBUF"
    using \<open>b \<notin> ?U\<close> card_image[OF inj] by simp
  ultimately show False using card by simp
qed

section \<open>Frames\<close>

definition bframe :: "'a logst_scheme \<Rightarrow> 'a logst_scheme \<Rightarrow> bool" where
  "bframe s s' \<longleftrightarrow> wakeups s s' \<and> bio.more s' = bio.more s"

lemma bframe_refl [simp]: "bframe s s"
  by (simp add: bframe_def)

lemma bframe_trans: "bframe s s' \<Longrightarrow> bframe s' s'' \<Longrightarrow> bframe s s''"
  using wakeups_trans by (auto simp: bframe_def)

lemma bframe_log:
  assumes "bframe s s'"
  shows "l_start s' = l_start s" "l_size s' = l_size s" "l_outstanding s' = l_outstanding s"
    "l_committing s' = l_committing s" "l_dev s' = l_dev s" "l_n s' = l_n s"
    "l_block s' = l_block s" "logst.more s' = logst.more s" "loglist s' = loglist s"
    "logged s' = logged s" "myproc s' = myproc s" "mylock s' = mylock s" "mem s' = mem s"
proof -
  have more: "bio.more s' = bio.more s" and w: "wakeups s s'" using assms by (auto simp: bframe_def)
  show f: "l_start s' = l_start s" "l_size s' = l_size s" "l_outstanding s' = l_outstanding s"
    "l_committing s' = l_committing s" "l_dev s' = l_dev s" "l_n s' = l_n s"
    "l_block s' = l_block s" "logst.more s' = logst.more s"
    using more by (cases s; cases s'; simp)+
  show "loglist s' = loglist s" "logged s' = logged s"
    by (simp_all add: logged_def loglist_def f)
  show "myproc s' = myproc s" "mem s' = mem s" using w by (auto simp: wakeups_def)
  then show "mylock s' = mylock s" by (simp add: mylock_def)
qed

lemma bframe_upd_buf [simp]: "bframe s (upd_buf i f s)"
  by (simp add: bframe_def wakeups_def) (simp add: upd_buf_def)

lemmas upd_buf_log [simp] = bframe_log[OF bframe_upd_buf]

lemma uniq_upd_buf:
  assumes "b_dev (f (bufs s i)) = b_dev (bufs s i)" "b_blockno (f (bufs s i)) = b_blockno (bufs s i)"
  shows "uniq (upd_buf i f s) = uniq s"
proof -
  have "b_dev (bufs (upd_buf i f s) j) = b_dev (bufs s j)"
    "b_blockno (bufs (upd_buf i f s) j) = b_blockno (bufs s j)" for j
    using assms by simp_all
  then show ?thesis unfolding uniq_def by presburger
qed

lemma bview_upd_other:
  assumes "\<not> (b_dev (bufs s i) = l_dev s \<and> b_blockno (bufs s i) = c \<and> b_valid (bufs s i))"
    and "\<not> (b_dev (f (bufs s i)) = l_dev s \<and> b_blockno (f (bufs s i)) = c \<and> b_valid (f (bufs s i)))"
  shows "bview (upd_buf i f s) c = bview s c"
proof -
  let ?P = "\<lambda>s j. b_dev (bufs s j) = l_dev s \<and> b_blockno (bufs s j) = c \<and> b_valid (bufs s j)"
  have "?P (upd_buf i f s) = ?P s" using assms by (auto simp: fun_eq_iff)
  then have "List.find (?P (upd_buf i f s)) [0..<NBUF] = List.find (?P s) [0..<NBUF]" by metis
  moreover have "j \<noteq> i" if "List.find (?P s) [0..<NBUF] = Some j" for j
    using find_SomeD[OF that] assms(1) by metis
  ultimately show ?thesis by (auto simp: bview_def split: option.splits)
qed

section \<open>The laws of the transaction store\<close>

lemma tx_bread_hit:
  assumes inv: "pinv P H s" and b: "b \<notin> H" and c: "cached s (l_dev s) b i"
  defines "f \<equiv> \<lambda>x. x\<lparr>b_refcnt := b_refcnt x + 1, b_lock := mylock s, b_valid := True,
      b_data := (if b_valid x then b_data x else disk s b)\<rparr>"
  shows "bread (l_dev s) b s = Ok (i, upd_buf i f s)" (is ?A)
    and "pinv P (insert b H) (upd_buf i f s)" (is ?B)
    and "bview (upd_buf i f s) = bview s" (is ?C)
    and "b_data (f (bufs s i)) = bview s b" (is ?D)
proof -
  note u = pinvD(2)[OF inv] and d0 = pinvD(3)[OF inv]
  obtain xs where xs: "lru s xs" using pinvD(1)[OF inv] by blast
  have i: "i < NBUF" and di: "b_dev (bufs s i) = l_dev s" and bi: "b_blockno (bufs s i) = b"
    using c by (auto simp: cached_def)
  note ok = pinvD(6)[OF inv i]
  have "\<not> locked (b_lock (bufs s i))" using ok b bi by (simp add: buf_ok_def)
  from bread_hit[OF xs u d0 c this] show ?A by (simp add: f_def)
  show D: ?D
  proof (cases "b_valid (bufs s i)")
    case True
    then show ?thesis using bview_cached[OF u d0 c True] by (simp add: f_def)
  next
    case False
    then have "bview s b = disk s b"
      using cached_unique[OF u d0 c] by (intro bview_uncached) blast
    then show ?thesis using False by (simp add: f_def)
  qed
  have uf: "uniq (upd_buf i f s)" using u by (subst uniq_upd_buf) (simp_all add: f_def)
  have ci: "cached (upd_buf i f s) (l_dev s) e j = cached s (l_dev s) e j" for e j
    by (simp add: cached_def f_def)
  show ?C
  proof
    fix e show "bview (upd_buf i f s) e = bview s e"
    proof (cases "e = b")
      case True
      have "bview (upd_buf i f s) b = b_data (bufs (upd_buf i f s) i)"
        by (rule bview_cached) (use uf d0 c ci in \<open>simp_all add: f_def\<close>)
      then show ?thesis using D True by simp
    qed (rule bview_upd_other, use bi in \<open>simp_all add: f_def\<close>)
  qed
  have other: "buf_ok (l_dev s) (P) (insert b H) (mylock s) (disk s) (bufs s j)"
    if j: "j < NBUF" "j \<noteq> i" for j
  proof (rule buf_ok_other[OF pinvD(6)[OF inv j(1)]])
    show "b_dev (bufs s j) \<noteq> l_dev s \<or> b_blockno (bufs s j) \<noteq> b"
      using cached_unique[OF u d0 c] j by (auto simp: cached_def)
  qed auto
  have this_ok: "buf_ok (l_dev s) (P) (insert b H) (mylock s) (disk s) (f (bufs s i))"
    using ok b di bi by (auto simp: buf_ok_def f_def)
  have ex: "\<exists>j. cached s (l_dev s) e j \<and> (j = i \<or> b_valid (bufs s j))"
    if "e \<in> P \<union> insert b H" for e
    using pinvD(7)[OF inv, of e] that c by blast
  show ?B
    unfolding pinv_def
  proof (intro conjI allI ballI impI)
    fix e assume "e \<in> P \<union> insert b H"
    then obtain j where "cached s (l_dev s) e j" "j = i \<or> b_valid (bufs s j)" using ex by auto
    then have "cached (upd_buf i f s) (l_dev s) e j \<and> b_valid (bufs (upd_buf i f s) j)"
      by (simp add: ci) (auto simp: f_def)
    then show "\<exists>j. cached (upd_buf i f s) (l_dev (upd_buf i f s)) e j \<and>
        b_valid (bufs (upd_buf i f s) j)" by auto
  next
    fix j assume "j < NBUF"
    then show "buf_ok (l_dev (upd_buf i f s)) (P) (insert b H)
        (mylock (upd_buf i f s)) (disk (upd_buf i f s)) (bufs (upd_buf i f s) j)"
      using this_ok other by simp
  qed (use xs uf pinvD(3-5)[OF inv] in auto)
qed

lemma tx_bread_miss:
  assumes inv: "pinv P H s" and b: "b \<notin> H" and nc: "\<And>i. \<not> cached s (l_dev s) b i"
    and card: "card (insert b (P \<union> H)) \<le> NBUF"
  defines "f \<equiv> \<lambda>x. x\<lparr>b_dev := l_dev s, b_blockno := b, b_refcnt := 1, b_lock := mylock s,
      b_valid := True, b_data := disk s b\<rparr>"
  shows "\<exists>i < NBUF. bread (l_dev s) b s = Ok (i, upd_buf i f s) \<and> b_refcnt (bufs s i) = 0 \<and>
    pinv P (insert b H) (upd_buf i f s) \<and> bview (upd_buf i f s) = bview s \<and> disk s b = bview s b"
proof -
  note u = pinvD(2)[OF inv] and d0 = pinvD(3)[OF inv]
  obtain xs where xs: "lru s xs" using pinvD(1)[OF inv] by blast
  have iu: "idle_unlocked s"
    unfolding idle_unlocked_def
  proof (intro allI impI)
    fix i assume i: "i < NBUF" and r: "b_refcnt (bufs s i) = 0"
    from pinvD(6)[OF inv i] r show "\<not> locked (b_lock (bufs s i))"
      by (auto simp: buf_ok_def split: if_splits)
  qed
  obtain i0 where "i0 < NBUF" "b_refcnt (bufs s i0) = 0" using free_buffer[OF inv card nc] by blast
  then obtain i where fi: "List.find (\<lambda>i. b_refcnt (bufs s i) = 0) (rev xs) = Some i"
    using find_free[OF xs] by blast
  note br = bread_miss[OF xs iu nc fi]
  have i: "i < NBUF" and r0: "b_refcnt (bufs s i) = 0" using br(2,3) by auto
  let ?s = "upd_buf i f s"
  note ok = pinvD(6)[OF inv i]
  have key: "b_dev (bufs s i) \<noteq> l_dev s \<or> b_blockno (bufs s i) \<notin> P \<union> H"
    using ok r0 by (auto simp: buf_ok_def split: if_splits)
  have bL: "b \<notin> P" using pinvD(7)[OF inv, of b] nc by blast
  have bv: "bview s b = disk s b" using nc by (intro bview_uncached) blast
  have cj: "cached ?s (l_dev s) e j \<longleftrightarrow> (if j = i then e = b else cached s (l_dev s) e j)" for e j
    using i by (auto simp: cached_def f_def)
  have uf: "uniq ?s"
    unfolding uniq_def
  proof (intro allI impI)
    fix j k assume jk: "j < NBUF" "k < NBUF" "j \<noteq> k" "b_dev (bufs ?s j) \<noteq> 0"
      "b_dev (bufs ?s j) = b_dev (bufs ?s k)"
    show "b_blockno (bufs ?s j) \<noteq> b_blockno (bufs ?s k)"
      using jk nc[of j] nc[of k] uniq_def[THEN iffD1, OF u, rule_format, OF jk(1-3)]
      by (auto simp: f_def cached_def split: if_splits)
  qed
  have view: "bview ?s e = bview s e" for e
  proof -
    consider "e = b" | "e \<noteq> b" "b_dev (bufs s i) = l_dev s" "b_blockno (bufs s i) = e" "b_valid (bufs s i)"
      | "e \<noteq> b" "\<not> (b_dev (bufs s i) = l_dev s \<and> b_blockno (bufs s i) = e \<and> b_valid (bufs s i))"
      by blast
    then show ?thesis
    proof cases
      case 1
      have "bview ?s b = b_data (bufs ?s i)"
        by (rule bview_cached) (use uf d0 cj i in \<open>simp_all add: f_def\<close>)
      then show ?thesis using 1 bv by (simp add: f_def)
    next
      case 2
      have ce: "cached s (l_dev s) e i" using 2 i by (simp add: cached_def)
      have "bview s e = disk s e"
        using bview_cached[OF u d0 ce 2(4)] ok key 2 by (auto simp: buf_ok_def)
      moreover have "bview ?s e = disk ?s e"
        using cached_unique[OF u d0 ce] 2(1) cj by (intro bview_uncached) (metis upd_buf_log(5))
      ultimately show ?thesis by simp
    next
      case 3
      then show ?thesis by (intro bview_upd_other) (simp_all add: f_def)
    qed
  qed
  have this_ok: "buf_ok (l_dev s) (P) (insert b H) (mylock s) (disk s) (f (bufs s i))"
    using bL b by (auto simp: buf_ok_def f_def)
  have other: "buf_ok (l_dev s) (P) (insert b H) (mylock s) (disk s) (bufs s j)"
    if j: "j < NBUF" for j
    by (rule buf_ok_other[OF pinvD(6)[OF inv j], of b]) (use nc[of j] j in \<open>auto simp: cached_def\<close>)
  have "pinv P (insert b H) ?s"
    unfolding pinv_def
  proof (intro conjI allI ballI impI)
    fix e assume e: "e \<in> P \<union> insert b H"
    show "\<exists>j. cached ?s (l_dev ?s) e j \<and> b_valid (bufs ?s j)"
    proof (cases "e = b")
      case True
      then show ?thesis using cj[of b i] by (intro exI[of _ i]) (simp add: f_def)
    next
      case False
      then obtain j where j: "cached s (l_dev s) e j" "b_valid (bufs s j)"
        using pinvD(7)[OF inv, of e] e by auto
      moreover have "j \<noteq> i" using j key e False by (auto simp: cached_def)
      ultimately show ?thesis using cj by (intro exI[of _ j]) simp
    qed
  next
    fix j assume "j < NBUF"
    then show "buf_ok (l_dev ?s) (P) (insert b H) (mylock ?s) (disk ?s) (bufs ?s j)"
      using this_ok other by simp
  qed (use xs uf pinvD(3-5)[OF inv] in auto)
  then show ?thesis using i r0 br(1) view bv by (intro exI[of _ i]) (simp add: f_def fun_eq_iff)
qed

text \<open>\<open>bread\<close>: the block becomes held, its buffer has the current contents, nothing else
  changes; buffers of other blocks in use stay where they are.\<close>

definition keeps :: "u32 set \<Rightarrow> 'a logst_scheme \<Rightarrow> 'a logst_scheme \<Rightarrow> bool" where
  "keeps B s s' \<longleftrightarrow> (\<forall>c j. c \<in> B \<longrightarrow> cached s (l_dev s) c j \<longrightarrow> cached s' (l_dev s) c j)"

lemma tx_bread:
  assumes inv: "pinv P H s" and b: "b \<notin> H" and card: "card (insert b (P \<union> H)) \<le> NBUF"
  shows "\<exists>i s'. bread (l_dev s) b s = Ok (i, s') \<and> pinv P (insert b H) s' \<and> bview s' = bview s \<and>
    cached s' (l_dev s) b i \<and> b_data (bufs s' i) = bview s b \<and> keeps (P \<union> H) s s' \<and>
    disk s' = disk s \<and> wtrace s' = wtrace s \<and> bframe s s'"
proof (cases "\<exists>i. cached s (l_dev s) b i")
  case True
  then obtain i where c: "cached s (l_dev s) b i" by blast
  note h = tx_bread_hit[OF inv b c]
  show ?thesis
    by (intro exI conjI, rule h(1), rule h(2), rule h(3))
      (use h(4) c in \<open>simp_all add: cached_def keeps_def\<close>)
next
  case False
  then have nc: "\<And>i. \<not> cached s (l_dev s) b i" by blast
  from tx_bread_miss[OF inv b nc card] obtain i f where
    f: "f = (\<lambda>x. x\<lparr>b_dev := l_dev s, b_blockno := b, b_refcnt := 1, b_lock := mylock s,
      b_valid := True, b_data := disk s b\<rparr>)" and i: "i < NBUF" and r: "b_refcnt (bufs s i) = 0"
    and h: "bread (l_dev s) b s = Ok (i, upd_buf i f s)" "pinv P (insert b H) (upd_buf i f s)"
      "bview (upd_buf i f s) = bview s" "disk s b = bview s b"
    by blast
  have k: "keeps (P \<union> H) s (upd_buf i f s)"
  proof -
    have "j \<noteq> i" if "c \<in> P \<union> H" "cached s (l_dev s) c j" for c j
      using pinvD(6)[OF inv i] r that by (auto simp: buf_ok_def cached_def split: if_splits)
    then show ?thesis by (auto simp: keeps_def cached_def)
  qed
  show ?thesis
    by (intro exI conjI, rule h(1), rule h(2), rule h(3))
      (use h(4) i f k in \<open>simp_all add: cached_def\<close>)
qed

text \<open>A buffer of a held block is locked by the running process and valid.\<close>

lemma held_buffer:
  assumes inv: "pinv P H s" and "b \<in> H" "cached s (l_dev s) b i"
  shows "i < NBUF" "b_dev (bufs s i) = l_dev s" "b_blockno (bufs s i) = b"
    "b_lock (bufs s i) = mylock s" "b_valid (bufs s i)" "bview s b = b_data (bufs s i)"
proof -
  show i: "i < NBUF" and "b_dev (bufs s i) = l_dev s" "b_blockno (bufs s i) = b"
    using assms(3) by (auto simp: cached_def)
  then show "b_lock (bufs s i) = mylock s" using pinvD(6)[OF inv i] assms(2)
    by (simp add: buf_ok_def)
  obtain j where j: "cached s (l_dev s) b j" "b_valid (bufs s j)"
    using pinvD(7)[OF inv, of b] assms(2) by blast
  then show v: "b_valid (bufs s i)"
    using cached_unique[OF pinvD(2,3)[OF inv] assms(3) j(1)] by simp
  show "bview s b = b_data (bufs s i)"
    by (rule bview_cached[OF pinvD(2,3)[OF inv] assms(3) v])
qed

text \<open>Changing one held buffer's fields other than its key: the shared part of the laws
  below. \<open>L'\<close> and \<open>H'\<close> are the logged and held blocks afterwards.\<close>

lemma tx_inv_step:
  assumes inv: "pinv P H s" and b: "b \<in> H" and c: "cached s (l_dev s) b i"
    and xs: "\<exists>xs. lru s' xs" and bufs: "bufs s' = (bufs s)(i := x)"
    and x: "b_dev x = l_dev s" "b_blockno x = b" "b_valid x"
    and dev: "l_dev s' = l_dev s"
    and mine: "myproc s' = myproc s"
    and L: "\<And>e. e \<noteq> b \<Longrightarrow> e \<in> P' \<longleftrightarrow> e \<in> P" "finite P'"
    and H: "\<And>e. e \<noteq> b \<Longrightarrow> e \<in> H' \<longleftrightarrow> e \<in> H" "finite H'"
    and D: "\<And>e. e \<noteq> b \<Longrightarrow> disk s' e = disk s e"
    and ok: "buf_ok (l_dev s) (P') H' (mylock s) (disk s') x"
  shows "pinv P' H' s'" and "bview s' = (bview s)(b := b_data x)"
    and "\<And>e j. cached s' (l_dev s) e j = cached s (l_dev s) e j"
proof -
  note hb = held_buffer[OF inv b c] and u = pinvD(2)[OF inv] and d0 = pinvD(3)[OF inv]
  show cj: "cached s' (l_dev s) e j = cached s (l_dev s) e j" for e j
    using x hb by (auto simp: cached_def bufs)
  have us: "uniq s'"
  proof -
    have "b_dev (bufs s' j) = b_dev (bufs s j)" "b_blockno (bufs s' j) = b_blockno (bufs s j)" for j
      using x hb by (auto simp: bufs)
    then show ?thesis using u unfolding uniq_def by presburger
  qed
  have ml: "mylock s' = mylock s" using mine by (simp add: mylock_def)
  have val: "b_valid (bufs s' j)" if "b_valid (bufs s j)" for j
    using that x(3) by (simp add: bufs)
  show "bview s' = (bview s)(b := b_data x)"
  proof
    fix e show "bview s' e = ((bview s)(b := b_data x)) e"
    proof (cases "e = b")
      case True
      have "bview s' b = b_data (bufs s' i)"
        by (rule bview_cached) (use us dev d0 cj c x in \<open>auto simp: bufs\<close>)
      then show ?thesis using True by (simp add: bufs)
    next
      case False
      show ?thesis
      proof (cases "\<exists>j. cached s (l_dev s) e j \<and> b_valid (bufs s j)")
        case True
        then obtain j where j: "cached s (l_dev s) e j" "b_valid (bufs s j)" by blast
        have ji: "j \<noteq> i" using j hb False by (auto simp: cached_def)
        have "bview s' e = b_data (bufs s' j)"
          by (rule bview_cached) (use us dev d0 cj j val in auto)
        then show ?thesis using bview_cached[OF u d0 j] False ji by (simp add: bufs)
      next
        case nv: False
        have "bview s e = disk s e" using nv by (intro bview_uncached) blast
        moreover have "bview s' e = disk s' e"
        proof (rule bview_uncached)
          fix j assume j: "cached s' (l_dev s') e j"
          then have "cached s (l_dev s) e j" using cj dev by simp
          then have "\<not> b_valid (bufs s j)" "j \<noteq> i" using nv hb False by (auto simp: cached_def)
          then show "\<not> b_valid (bufs s' j)" by (simp add: bufs)
        qed
        ultimately show ?thesis using D False by simp
      qed
    qed
  qed
  have other: "buf_ok (l_dev s) (P') H' (mylock s) (disk s') (bufs s j)"
    if j: "j < NBUF" "j \<noteq> i" for j
  proof (rule buf_ok_other[OF pinvD(6)[OF inv j(1)], of b])
    show "b_dev (bufs s j) \<noteq> l_dev s \<or> b_blockno (bufs s j) \<noteq> b"
      using cached_unique[OF u d0 c] j by (auto simp: cached_def)
  qed (use L H D in auto)
  show "pinv P' H' s'"
    unfolding pinv_def
  proof (intro conjI allI ballI impI)
    fix e assume "e \<in> P' \<union> H'"
    then have "e = b \<or> e \<in> P \<or> e \<in> H" using L H by blast
    then obtain j where "cached s (l_dev s) e j" "b_valid (bufs s j)"
      using pinvD(7)[OF inv, of e] b by blast
    then show "\<exists>j. cached s' (l_dev s') e j \<and> b_valid (bufs s' j)" using cj dev val by auto
  next
    fix j assume "j < NBUF"
    then show "buf_ok (l_dev s') (P') H' (mylock s') (disk s') (bufs s' j)"
      using ok other by (simp add: dev ml bufs)
  qed (use xs us d0 dev L(2) H(2) in auto)
qed

definition same_cached :: "'a logst_scheme \<Rightarrow> 'a logst_scheme \<Rightarrow> bool" where
  "same_cached s s' \<longleftrightarrow> (\<forall>e j. cached s' (l_dev s) e j = cached s (l_dev s) e j)"

lemma tx_set_data:
  assumes inv: "pinv P H s" and b: "b \<in> H" and c: "cached s (l_dev s) b i"
  shows "pinv P H (set_data i d s)" "bview (set_data i d s) = (bview s)(b := d)"
    "same_cached s (set_data i d s)" "bframe s (set_data i d s)"
    "disk (set_data i d s) = disk s" "wtrace (set_data i d s) = wtrace s"
    "bufs (set_data i d s) = (bufs s)(i := (bufs s i)\<lparr>b_data := d\<rparr>)"
proof -
  note hb = held_buffer[OF inv b c]
  obtain xs where xs: "lru s xs" using pinvD(1)[OF inv] by blast
  let ?s = "set_data i d s"
  have ok: "buf_ok (l_dev s) P H (mylock s) (disk ?s) ((bufs s i)\<lparr>b_data := d\<rparr>)"
    using pinvD(6)[OF inv hb(1)] hb b by (simp add: buf_ok_def set_data_def)
  note st = tx_inv_step[OF inv b c, of ?s "(bufs s i)\<lparr>b_data := d\<rparr>" P H]
  have "\<exists>xs. lru ?s xs" using xs by (auto simp: set_data_def)
  note st = st[OF this _ _ _ _ _ _ _ _ _ _ _ ok]
  show "pinv P H ?s" by (rule st(1)) (use hb pinvD(4,5)[OF inv] in \<open>simp_all add: set_data_def\<close>)
  show "bview ?s = (bview s)(b := d)"
    using st(2) hb pinvD(4,5)[OF inv] by (simp add: set_data_def)
  show "same_cached s ?s"
    unfolding same_cached_def
    by (intro allI, rule st(3)) (use hb pinvD(4,5)[OF inv] in \<open>simp_all add: set_data_def\<close>)
qed (simp_all add: set_data_def)

lemma tx_bwrite:
  assumes inv: "pinv P H s" and b: "b \<in> H" and c: "cached s (l_dev s) b i"
  shows "\<exists>s'. bwrite i s = Ok s' \<and> pinv P H s' \<and> bview s' = bview s \<and> same_cached s s' \<and>
    bframe s s' \<and> disk s' = (disk s)(b := bview s b) \<and> wtrace s' = wtrace s @ [(b, bview s b)] \<and>
    bufs s' = bufs s"
proof -
  note hb = held_buffer[OF inv b c]
  obtain xs where xs: "lru s xs" using pinvD(1)[OF inv] by blast
  let ?s = "disk_rw i True s"
  have dsk: "disk ?s = (disk s)(b := bview s b)" "wtrace ?s = wtrace s @ [(b, bview s b)]"
    "bufs ?s = bufs s" and fr: "bframe s ?s"
    using hb by (simp_all add: disk_rw_def Let_def bframe_def wakeups_def myproc_def)
  have ok: "buf_ok (l_dev s) P H (mylock s) (disk ?s) (bufs s i)"
    using pinvD(6)[OF inv hb(1)] hb b by (simp add: buf_ok_def)
  have "\<exists>xs. lru ?s xs" using xs by (auto simp: disk_rw_def Let_def lru_def)
  note st = tx_inv_step[OF inv b c this, of "bufs s i" P H, OF _ hb(2,3,5) bframe_log(5)[OF fr]
      bframe_log(11)[OF fr] _ pinvD(4)[OF inv] _ pinvD(5)[OF inv] _ ok]
  have p: "pinv P H ?s" by (rule st(1)) (simp_all add: dsk)
  have v: "bview ?s = bview s" using st(2) hb(6) by (simp add: dsk fun_upd_idem)
  have sc: "same_cached s ?s" unfolding same_cached_def by (intro allI, rule st(3)) (simp_all add: dsk)
  have "bwrite i s = Ok ?s" using hb(4) by (simp add: bwrite_def)
  then show ?thesis using p v sc dsk fr by (intro exI[of _ ?s]) simp
qed

lemma tx_brelse:
  assumes inv: "pinv P H s" and b: "b \<in> H" and c: "cached s (l_dev s) b i"
    and clean: "b \<in> P \<or> bview s b = disk s b"
  shows "\<exists>s'. brelse i s = Ok s' \<and> pinv P (H - {b}) s' \<and> bview s' = bview s \<and> same_cached s s' \<and>
    bframe s s' \<and> disk s' = disk s \<and> wtrace s' = wtrace s"
proof -
  note hb = held_buffer[OF inv b c]
  obtain xs where xs: "lru s xs" using pinvD(1)[OF inv] by blast
  have "holdingsleep (b_lock (bufs s i)) s" using hb by simp
  from brelse_spec[OF xs hb(1) this] obtain s' where
    s': "brelse i s = Ok s'"
      "bufs s' = (bufs s)(i := (bufs s i)\<lparr>b_lock := \<lparr>locked = False, lk_pid = 0\<rparr>,
         b_refcnt := b_refcnt (bufs s i) - 1\<rparr>)" (is "_ = (bufs s)(i := ?x)")
      "disk s' = disk s" "wtrace s' = wtrace s" "\<exists>xs. lru s' xs" and fr: "bframe s s'"
    by (auto simp: bframe_def)
  have ok: "buf_ok (l_dev s) P (H - {b}) (mylock s) (disk s') ?x"
    using pinvD(6)[OF inv hb(1)] hb b clean by (auto simp: buf_ok_def s'(3))
  note st = tx_inv_step[OF inv b c s'(5,2), of P "H - {b}", OF _ _ _ bframe_log(5)[OF fr]
      bframe_log(11)[OF fr] _ pinvD(4)[OF inv] _ _ _ ok]
  have p: "pinv P (H - {b}) s'" by (rule st(1)) (use hb pinvD(5)[OF inv] s'(3) in simp_all)
  have v: "bview s' = bview s" using st(2) hb pinvD(5)[OF inv] s'(3) by (simp add: fun_upd_idem)
  have sc: "same_cached s s'" unfolding same_cached_def
    by (intro allI, rule st(3)) (use hb pinvD(5)[OF inv] s'(3) in simp_all)
  show ?thesis using p v sc s' fr by blast
qed

lemma tx_bunpin:
  assumes inv: "pinv P H s" and b: "b \<in> H" "b \<in> P" and c: "cached s (l_dev s) b i"
  shows "pinv (P - {b}) H (bunpin i s)" "bview (bunpin i s) = bview s"
    "same_cached s (bunpin i s)" "bframe s (bunpin i s)"
    "disk (bunpin i s) = disk s" "wtrace (bunpin i s) = wtrace s"
proof -
  note hb = held_buffer[OF inv b(1) c]
  obtain xs where xs: "lru s xs" using pinvD(1)[OF inv] by blast
  let ?s = "bunpin i s" and ?x = "(bufs s i)\<lparr>b_refcnt := b_refcnt (bufs s i) - 1\<rparr>"
  have f: "bufs ?s = (bufs s)(i := ?x)" "disk ?s = disk s" "l_dev ?s = l_dev s" "myproc ?s = myproc s"
    "\<exists>xs. lru ?s xs"
    using xs by (auto simp: bunpin_def)
  have ok: "buf_ok (l_dev s) (P - {b}) H (mylock s) (disk ?s) ?x"
    using pinvD(6)[OF inv hb(1)] hb b by (simp add: buf_ok_def bunpin_def)
  note st = tx_inv_step[OF inv b(1) c f(5,1) _ _ _ f(3,4) _ _ _ pinvD(5)[OF inv] _ ok]
  show "pinv (P - {b}) H ?s" by (rule st(1)) (use hb pinvD(4)[OF inv] f in simp_all)
  show "bview ?s = bview s" using st(2) hb pinvD(4)[OF inv] f by (simp add: fun_upd_idem)
  show "same_cached s ?s" unfolding same_cached_def
    by (intro allI, rule st(3)) (use hb pinvD(4)[OF inv] f in simp_all)
qed (simp_all add: bunpin_def)

text \<open>A block that is neither pinned nor held has the disk's contents.\<close>

lemma bview_clean:
  assumes inv: "pinv P H s" and b: "b \<notin> P" "b \<notin> H"
  shows "bview s b = disk s b"
proof (cases "\<exists>i. cached s (l_dev s) b i \<and> b_valid (bufs s i)")
  case True
  then obtain i where i: "cached s (l_dev s) b i" "b_valid (bufs s i)" by blast
  have "buf_ok (l_dev s) P H (mylock s) (disk s) (bufs s i)"
    using i by (intro pinvD(6)[OF inv]) (simp add: cached_def)
  then show ?thesis using bview_cached[OF pinvD(2,3)[OF inv] i] i b
    by (simp add: buf_ok_def cached_def)
qed (use bview_uncached in blast)

section \<open>Adding to the transaction\<close>

text \<open>\<open>lframe\<close>: nothing changes but buffers, disk and the list of logged blocks (and sleeping
  processes that were woken).\<close>

definition lframe :: "'a logst_scheme \<Rightarrow> 'a logst_scheme \<Rightarrow> bool" where
  "lframe s s' \<longleftrightarrow> wakeups s s' \<and> l_start s' = l_start s \<and> l_size s' = l_size s \<and>
     l_outstanding s' = l_outstanding s \<and> l_committing s' = l_committing s \<and> l_dev s' = l_dev s \<and>
     logst.more s' = logst.more s"

lemma lframe_refl [simp]: "lframe s s"
  by (simp add: lframe_def)

lemma lframe_trans: "lframe s s' \<Longrightarrow> lframe s' s'' \<Longrightarrow> lframe s s''"
  using wakeups_trans by (auto simp: lframe_def)

lemma bframe_lframe: "bframe s s' \<Longrightarrow> lframe s s'"
  using bframe_log[of s s'] by (simp add: lframe_def bframe_def)

lemma absorb_index_bounds: "i \<le> absorb_index k i bl b \<and> absorb_index k i bl b \<le> i + k"
proof (induction k arbitrary: i)
  case (Suc k)
  show ?case using Suc[of "Suc i"] by simp
qed simp

lemma absorb_index_found: "absorb_index k i bl b < i + k \<Longrightarrow> bl (absorb_index k i bl b) = b"
  by (induction k arbitrary: i) auto

lemma absorb_index_missing:
  "absorb_index k i bl b = i + k \<longleftrightarrow> b \<notin> bl ` {i..<i + k}"
proof (induction k arbitrary: i)
  case (Suc k)
  have "{i..<i + Suc k} = insert i {Suc i..<Suc i + k}" by auto
  then show ?case using Suc[of "Suc i"] by auto
qed simp

text \<open>The two outcomes of \<open>log_write\<close> while the log has room: a block already in the
  transaction is absorbed, another one is appended and its buffer pinned.\<close>

lemma log_write_cases:
  assumes room: "0 \<le> l_n s" "l_n s < int LOGSIZE" "l_n s < l_size s - 1" "1 \<le> l_outstanding s"
    and b: "b = b_blockno (bufs s i)"
  shows "log_write i s =
    Ok (if b \<in> logged s then s
        else (bpin i (s\<lparr>l_block := (l_block s)(nat (l_n s) := b)\<rparr>))\<lparr>l_n := l_n s + 1\<rparr>)"
proof -
  let ?n = "nat (l_n s)" and ?k = "absorb_index (nat (l_n s)) 0 (l_block s) b"
  have lg: "b \<in> logged s \<longleftrightarrow> b \<in> l_block s ` {0..<?n}" by (auto simp: logged_def loglist_def)
  show ?thesis
  proof (cases "b \<in> logged s")
    case True
    then have "?k < ?n"
      using absorb_index_missing[of ?n 0 "l_block s" b] absorb_index_bounds[of 0 ?n "l_block s" b] lg
      by auto
    then have "(l_block s)(?k := b) = l_block s" "int ?k \<noteq> l_n s"
      using absorb_index_found[of ?n 0 "l_block s" b] by (auto simp: fun_upd_idem)
    then show ?thesis using True room b by (simp add: log_write_def Let_def)
  next
    case False
    then have "?k = ?n" using absorb_index_missing[of ?n 0 "l_block s" b] lg by simp
    then show ?thesis using False room b by (simp add: log_write_def Let_def)
  qed
qed

lemma tx_log_write:
  assumes inv: "pinv (logged s) H s" and b: "b \<in> H" and c: "cached s (l_dev s) b i"
    and room: "0 \<le> l_n s" "l_n s < int LOGSIZE" "l_n s < l_size s - 1" "1 \<le> l_outstanding s"
  shows "\<exists>s'. log_write i s = Ok s' \<and> pinv (insert b (logged s)) H s' \<and>
    loglist s' = (if b \<in> logged s then loglist s else loglist s @ [b]) \<and>
    l_n s' = (if b \<in> logged s then l_n s else l_n s + 1) \<and>
    bview s' = bview s \<and> same_cached s s' \<and> disk s' = disk s \<and> wtrace s' = wtrace s \<and> lframe s s'"
proof -
  note hb = held_buffer[OF inv b c]
  note lw = log_write_cases[OF room hb(3)[symmetric]]
  show ?thesis
  proof (cases "b \<in> logged s")
    case True
    then show ?thesis using lw inv by (simp add: insert_absorb same_cached_def)
  next
    case False
    obtain xs where xs: "lru s xs" using pinvD(1)[OF inv] by blast
    define s' where "s' = (bpin i (s\<lparr>l_block := (l_block s)(nat (l_n s) := b)\<rparr>))\<lparr>l_n := l_n s + 1\<rparr>"
    let ?x = "(bufs s i)\<lparr>b_refcnt := b_refcnt (bufs s i) + 1\<rparr>"
    have f: "bufs s' = (bufs s)(i := ?x)" "disk s' = disk s" "l_dev s' = l_dev s"
      "myproc s' = myproc s" "\<exists>xs. lru s' xs"
      using xs by (auto simp: s'_def bpin_def upd_buf_def lru_def myproc_def)
    have ll: "loglist s' = loglist s @ [b]" "l_n s' = l_n s + 1"
      using room(1) by (simp_all add: loglist_def s'_def bpin_def upd_buf_def nat_add_distrib)
    have fr: "lframe s s'" "wtrace s' = wtrace s"
      by (simp_all add: lframe_def s'_def bpin_def upd_buf_def wakeups_def myproc_def)
    have ok: "buf_ok (l_dev s) (insert b (logged s)) H (mylock s) (disk s') ?x"
      using pinvD(6)[OF inv hb(1)] hb b False by (simp add: buf_ok_def)
    note st = tx_inv_step[OF inv b c f(5,1) _ _ _ f(3,4) _ _ _ pinvD(5)[OF inv] _ ok]
    have "pinv (insert b (logged s)) H s'" by (rule st(1)) (use hb f in simp_all)
    moreover have "bview s' = bview s" using st(2) hb f by (simp add: fun_upd_idem)
    moreover have "same_cached s s'" unfolding same_cached_def
      by (intro allI, rule st(3)) (use hb f in simp_all)
    ultimately show ?thesis using lw False ll fr f by (intro exI[of _ s']) (simp add: s'_def)
  qed
qed

end
