(* ===== verification/Commit.thy ===== *)
theory Commit
  imports Txn
begin

text \<open>
  Commit and recovery of \<^verbatim>\<open>kernel/log.c\<close>. Every write to the disk is an entry of
  \<open>wtrace\<close>, in order; a crash keeps a prefix of them. The theory computes the writes of
  \<open>commit\<close> and of \<open>recover_from_log\<close> and shows that recovery after a crash anywhere in
  them leaves either none or all of the transaction's blocks.
\<close>

section \<open>Sequences of disk writes\<close>

definition apply_writes :: "(u32 \<times> block) list \<Rightarrow> (u32 \<Rightarrow> block) \<Rightarrow> u32 \<Rightarrow> block" where
  "apply_writes ws d = fold (\<lambda>(b, x) d. d(b := x)) ws d"

lemma apply_writes_simps [simp]:
  "apply_writes [] d = d"
  "apply_writes ((b, x) # ws) d = apply_writes ws (d(b := x))"
  "apply_writes (us @ ws) d = apply_writes ws (apply_writes us d)"
  by (simp_all add: apply_writes_def)

lemma apply_writes_other: "b \<notin> fst ` set ws \<Longrightarrow> apply_writes ws d b = d b"
  by (induction ws arbitrary: d) auto

lemma apply_writes_map_distinct:
  assumes "distinct (map f xs)" "x \<in> set xs"
  shows "apply_writes (map (\<lambda>x. (f x, g x)) xs) d (f x) = g x"
  using assms
proof (induction xs arbitrary: d)
  case (Cons y ys)
  show ?case
  proof (cases "x = y")
    case True
    then have "f x \<notin> fst ` set (map (\<lambda>x. (f x, g x)) ys)" using Cons.prems(1) by force
    then show ?thesis using True apply_writes_other by simp
  next
    case False
    then show ?thesis using Cons by simp
  qed
qed simp

text \<open>Writes whose values do not depend on the position only fix, for each block, its last
  value.\<close>

lemma apply_writes_same:
  assumes "\<And>b x. (b, x) \<in> set ws \<Longrightarrow> x = g b"
  shows "apply_writes ws d b = (if b \<in> fst ` set ws then g b else d b)"
  using assms
proof (induction ws arbitrary: d)
  case (Cons w ws)
  obtain c x where w: "w = (c, x)" by force
  have x: "x = g c" using Cons.prems w by simp
  have "apply_writes ws (d(c := x)) b = (if b \<in> fst ` set ws then g b else (d(c := x)) b)"
    by (rule Cons.IH) (use Cons.prems in simp)
  then show ?case using w x by simp
qed simp

section \<open>Copying one block\<close>

lemma tx_read2:
  assumes inv: "pinv P {} s" and ab: "a \<noteq> b" and card: "card (insert a (insert b P)) \<le> NBUF"
  shows "\<exists>i s1 j s2. bread (l_dev s) a s = Ok (i, s1) \<and> bread (l_dev s1) b s1 = Ok (j, s2) \<and>
    pinv P {a, b} s2 \<and> bview s2 = bview s \<and> cached s2 (l_dev s2) a i \<and> cached s2 (l_dev s2) b j \<and>
    b_data (bufs s2 i) = bview s a \<and> b_data (bufs s2 j) = bview s b \<and>
    disk s2 = disk s \<and> wtrace s2 = wtrace s \<and> bframe s s1 \<and> bframe s s2"
proof -
  have "card (insert a (P \<union> {})) \<le> card (insert a (insert b P))"
    by (intro card_mono) (use pinvD(4)[OF inv] in auto)
  then have "card (insert a (P \<union> {})) \<le> NBUF" using card by simp
  from tx_bread[OF inv _ this] obtain i s1 where
    1: "bread (l_dev s) a s = Ok (i, s1)" "pinv P {a} s1" "bview s1 = bview s"
      "cached s1 (l_dev s) a i" "disk s1 = disk s" "wtrace s1 = wtrace s" and fr1: "bframe s s1"
    by auto
  note d1 = bframe_log(5)[OF fr1]
  have "card (insert b (P \<union> {a})) \<le> NBUF" using card by (simp add: insert_commute)
  from tx_bread[OF 1(2) _ this] ab obtain j s2 where
    2: "bread (l_dev s1) b s1 = Ok (j, s2)" "pinv P (insert b {a}) s2" "bview s2 = bview s1"
      "cached s2 (l_dev s1) b j" "b_data (bufs s2 j) = bview s1 b" "keeps (P \<union> {a}) s1 s2"
      "disk s2 = disk s1" "wtrace s2 = wtrace s1" and fr2: "bframe s1 s2"
    by auto
  note d2 = bframe_log(5)[OF fr2]
  have ca: "cached s2 (l_dev s2) a i" using 1(4) 2(6) d1 d2 by (simp add: keeps_def)
  have "b_data (bufs s2 i) = bview s2 a" using held_buffer(6)[OF 2(2) _ ca] by simp
  then show ?thesis
    using 1 2 ca d2 fr1 bframe_trans[OF fr1 fr2]
    by (intro exI[of _ i] exI[of _ s1] exI[of _ j] exI[of _ s2]) (simp add: insert_commute)
qed

lemma same_cached_iff:
  "same_cached s s' \<Longrightarrow> bframe s s' \<Longrightarrow> cached s' (l_dev s') e j = cached s (l_dev s) e j"
  by (simp add: same_cached_def bframe_log(5))

text \<open>\<open>write_log\<close> and \<open>install_trans\<close> share this part: block \<open>b\<close> gets the contents of
  \<open>a\<close>, in the cache and on disk.\<close>

lemma tx_copy:
  assumes inv: "pinv P {a, b} s" and ca: "cached s (l_dev s) b j"
  shows "\<exists>s'. bwrite j (set_data j d s) = Ok s' \<and> pinv P {a, b} s' \<and> bview s' = (bview s)(b := d) \<and>
    disk s' = (disk s)(b := d) \<and> wtrace s' = wtrace s @ [(b, d)] \<and> bframe s s' \<and> same_cached s s'"
proof -
  let ?s = "set_data j d s"
  note w = tx_set_data[OF inv _ ca, of d, simplified]
  have c: "cached ?s (l_dev ?s) b j" using same_cached_iff[OF w(3,4)] ca by simp
  from tx_bwrite[OF w(1) _ c] obtain s' where
    s': "bwrite j ?s = Ok s'" "pinv P {a, b} s'" "bview s' = bview ?s" "same_cached ?s s'"
      "bframe ?s s'" "disk s' = (disk ?s)(b := bview ?s b)" "wtrace s' = wtrace ?s @ [(b, bview ?s b)]"
    by auto
  have "same_cached s s'"
    using w(3) s'(4) bframe_log(5)[OF w(4)] by (simp add: same_cached_def)
  then show ?thesis using s' w bframe_trans[OF w(4) s'(5)] by simp
qed

lemma tx_release2:
  assumes inv: "pinv P {a, b} s" and ab: "a \<noteq> b"
    and c: "cached s (l_dev s) a i" "cached s (l_dev s) b j"
    and clean: "a \<in> P \<or> bview s a = disk s a" "b \<in> P \<or> bview s b = disk s b"
  shows "\<exists>s'. and_then (brelse i s) (brelse j) = Ok s' \<and> pinv P {} s' \<and> bview s' = bview s \<and>
    disk s' = disk s \<and> wtrace s' = wtrace s \<and> bframe s s'"
proof -
  from tx_brelse[OF inv _ c(1) clean(1)] ab obtain s1 where
    1: "brelse i s = Ok s1" "pinv P ({a, b} - {a}) s1" "bview s1 = bview s" "same_cached s s1"
      "disk s1 = disk s" "wtrace s1 = wtrace s" and fr1: "bframe s s1"
    by auto
  have "{a, b} - {a} = {b}" using ab by auto
  note p1 = 1(2)[unfolded this]
  have cb: "cached s1 (l_dev s1) b j" using same_cached_iff[OF 1(4) fr1] c(2) by simp
  from tx_brelse[OF p1 _ cb] clean(2) 1 obtain s2 where
    2: "brelse j s1 = Ok s2" "pinv P ({b} - {b}) s2" "bview s2 = bview s1"
      "disk s2 = disk s1" "wtrace s2 = wtrace s1" and fr2: "bframe s1 s2"
    by auto
  show ?thesis using 1 2 bframe_trans[OF fr1 fr2] by (intro exI[of _ s2]) simp
qed

section \<open>The loops of commit\<close>

text \<open>The disk block of log slot \<open>t\<close>.\<close>

definition slot :: "u32 \<Rightarrow> nat \<Rightarrow> u32" where
  "slot start t = start + of_nat t + 1"

lemma write_log_one_spec:
  assumes inv: "pinv P {} s" and nP: "slot (l_start s) t \<notin> P" and P: "l_block s t \<in> P"
    and card: "card P < NBUF"
  shows "\<exists>s'. write_log_one t s = Ok s' \<and> pinv P {} s' \<and>
    bview s' = (bview s)(slot (l_start s) t := bview s (l_block s t)) \<and>
    disk s' = (disk s)(slot (l_start s) t := bview s (l_block s t)) \<and>
    wtrace s' = wtrace s @ [(slot (l_start s) t, bview s (l_block s t))] \<and> bframe s s'"
proof -
  let ?a = "slot (l_start s) t" and ?b = "l_block s t"
  have ab: "?a \<noteq> ?b" using nP P by auto
  have "card (insert ?a (insert ?b P)) \<le> NBUF"
    using card nP P pinvD(4)[OF inv] by (simp add: insert_absorb)
  from tx_read2[OF inv ab this] obtain i s1 j s2 where
    1: "bread (l_dev s) ?a s = Ok (i, s1)" "bread (l_dev s1) ?b s1 = Ok (j, s2)"
      "pinv P {?a, ?b} s2" "bview s2 = bview s" "cached s2 (l_dev s2) ?a i" "cached s2 (l_dev s2) ?b j"
      "b_data (bufs s2 j) = bview s ?b" "disk s2 = disk s" "wtrace s2 = wtrace s"
    and fr1: "bframe s s1" and fr2: "bframe s s2"
    by blast
  have p: "pinv P {?b, ?a} s2" using 1(3) by (simp add: insert_commute)
  from tx_copy[OF p 1(5), of "bview s ?b"] obtain s3 where
    3: "bwrite i (set_data i (bview s ?b) s2) = Ok s3" "pinv P {?b, ?a} s3"
      "bview s3 = (bview s2)(?a := bview s ?b)" "disk s3 = (disk s2)(?a := bview s ?b)"
      "wtrace s3 = wtrace s2 @ [(?a, bview s ?b)]" "bframe s2 s3" "same_cached s2 s3"
    by blast
  have c3: "cached s3 (l_dev s3) ?b j" "cached s3 (l_dev s3) ?a i"
    using same_cached_iff[OF 3(7,6)] 1(5,6) by simp_all
  have "\<exists>s'. and_then (brelse j s3) (brelse i) = Ok s' \<and> pinv P {} s' \<and> bview s' = bview s3 \<and>
    disk s' = disk s3 \<and> wtrace s' = wtrace s3 \<and> bframe s3 s'"
    by (rule tx_release2[OF 3(2) ab[symmetric] c3]) (use P 3 in simp_all)
  then obtain s' where 4: "and_then (brelse j s3) (brelse i) = Ok s'" "pinv P {} s'"
    "bview s' = bview s3" "disk s' = disk s3" "wtrace s' = wtrace s3" "bframe s3 s'"
    by blast
  have "write_log_one t s = Ok s'"
    using 1 3 4 bframe_log[OF fr1] by (simp add: write_log_one_def slot_def Let_def)
  then show ?thesis
    using 1 3 4 bframe_trans[OF bframe_trans[OF fr2 3(6)] 4(6)] by simp
qed

lemma install_one_spec:
  assumes inv: "pinv P {} s" and nP: "slot (l_start s) t \<notin> P" and ab: "slot (l_start s) t \<noteq> l_block s t"
    and P: "if recovering then P = {} else l_block s t \<in> P" and card: "card P < NBUF"
  defines "d \<equiv> disk s (slot (l_start s) t)"
  shows "\<exists>s'. install_one recovering t s = Ok s' \<and> pinv (P - {l_block s t}) {} s' \<and>
    bview s' = (bview s)(l_block s t := d) \<and> disk s' = (disk s)(l_block s t := d) \<and>
    wtrace s' = wtrace s @ [(l_block s t, d)] \<and> bframe s s'"
proof -
  let ?a = "slot (l_start s) t" and ?b = "l_block s t"
  have "card (insert ?a (insert ?b P)) \<le> NBUF"
  proof (cases recovering)
    case True
    then show ?thesis using P card_insert_le_m1[of 2 "{?b}" ?a] by simp
  qed (use P card nP pinvD(4)[OF inv] in \<open>simp add: insert_absorb\<close>)
  from tx_read2[OF inv ab this] obtain i s1 j s2 where
    1: "bread (l_dev s) ?a s = Ok (i, s1)" "bread (l_dev s1) ?b s1 = Ok (j, s2)"
      "pinv P {?a, ?b} s2" "bview s2 = bview s" "cached s2 (l_dev s2) ?a i" "cached s2 (l_dev s2) ?b j"
      "b_data (bufs s2 i) = bview s ?a" "disk s2 = disk s" "wtrace s2 = wtrace s"
    and fr1: "bframe s s1" and fr2: "bframe s s2"
    by blast
  have d: "bview s ?a = d" using bview_clean[OF inv nP] by (simp add: d_def)
  from tx_copy[OF 1(3,6), of d] obtain s3 where
    3: "bwrite j (set_data j d s2) = Ok s3" "pinv P {?a, ?b} s3"
      "bview s3 = (bview s2)(?b := d)" "disk s3 = (disk s2)(?b := d)"
      "wtrace s3 = wtrace s2 @ [(?b, d)]" "bframe s2 s3" "same_cached s2 s3"
    by blast
  have c3: "cached s3 (l_dev s3) ?a i" "cached s3 (l_dev s3) ?b j"
    using same_cached_iff[OF 3(7,6)] 1(5,6) by simp_all
  define s4 where "s4 = (if recovering then s3 else bunpin j s3)"
  have s4: "pinv (P - {?b}) {?a, ?b} s4" "bview s4 = bview s3" "cached s4 (l_dev s4) ?a i"
    "cached s4 (l_dev s4) ?b j" "disk s4 = disk s3" "wtrace s4 = wtrace s3" "bframe s3 s4"
  proof -
    show "pinv (P - {?b}) {?a, ?b} s4" "bview s4 = bview s3" "cached s4 (l_dev s4) ?a i"
      "cached s4 (l_dev s4) ?b j" "disk s4 = disk s3" "wtrace s4 = wtrace s3" "bframe s3 s4"
      using tx_bunpin[OF 3(2) _ _ c3(2)] P 3(2) c3
      by (auto simp: s4_def same_cached_iff)
  qed
  have "\<exists>s'. and_then (brelse i s4) (brelse j) = Ok s' \<and> pinv (P - {?b}) {} s' \<and> bview s' = bview s4 \<and>
    disk s' = disk s4 \<and> wtrace s' = wtrace s4 \<and> bframe s4 s'"
    by (rule tx_release2[OF s4(1) ab s4(3,4)]) (use s4 3 1 ab d in \<open>simp_all add: d_def\<close>)
  then obtain s' where 5: "and_then (brelse i s4) (brelse j) = Ok s'" "pinv (P - {?b}) {} s'"
    "bview s' = bview s4" "disk s' = disk s4" "wtrace s' = wtrace s4" "bframe s4 s'"
    by blast
  have "install_one recovering t s = Ok s'"
    using 1 3 5 d bframe_log[OF fr1] by (simp add: install_one_def slot_def Let_def s4_def)
  then show ?thesis
    using 1 3 5 s4 bframe_trans[OF bframe_trans[OF bframe_trans[OF fr2 3(6)] s4(7)] 5(6)] by simp
qed

text \<open>The blocks of the log on disk: the header and the slots.\<close>

definition logarea :: "u32 \<Rightarrow> u32 set" where
  "logarea start = (\<lambda>k. start + of_nat k) ` {..LOGSIZE}"

lemma slot_area: "t < LOGSIZE \<Longrightarrow> slot start t \<in> logarea start"
  unfolding logarea_def slot_def by (rule image_eqI[of _ _ "Suc t"]) simp_all

lemma head_area [simp]: "start \<in> logarea start"
  unfolding logarea_def by (rule image_eqI[of _ _ 0]) simp_all

lemma unat_small: "k \<le> LOGSIZE \<Longrightarrow> unat (of_nat k :: u32) = k"
  by (subst unsigned_of_nat) (simp add: take_bit_nat_eq_self_iff)

lemma small_word_eq:
  "(of_nat a :: u32) = of_nat b \<Longrightarrow> a \<le> LOGSIZE \<Longrightarrow> b \<le> LOGSIZE \<Longrightarrow> a = b"
  by (metis unat_small)

lemma logarea_iff: "b \<in> logarea start \<longleftrightarrow> unat (b - start) \<le> LOGSIZE"
proof
  assume "b \<in> logarea start"
  then obtain k where "b - start = of_nat k" "k \<le> LOGSIZE" by (auto simp: logarea_def)
  then show "unat (b - start) \<le> LOGSIZE" using unat_small by metis
next
  assume "unat (b - start) \<le> LOGSIZE"
  then show "b \<in> logarea start"
    unfolding logarea_def by (intro image_eqI[of _ _ "unat (b - start)"]) simp_all
qed

lemma slot_inj:
  assumes "slot start t = slot start u" "t < LOGSIZE" "u < LOGSIZE"
  shows "t = u"
  using assms by (intro small_word_eq) (simp_all add: slot_def)

lemma slot_not_head: "t < LOGSIZE \<Longrightarrow> slot start t \<noteq> start"
  using small_word_eq[of "Suc t" 0] by (auto simp: slot_def add.assoc add.commute)

text \<open>A transaction ready to commit: the log list is in memory, its blocks are distinct and
  lie outside the log, and one buffer is left to copy them.\<close>

definition log_ready :: "'a logst_scheme \<Rightarrow> bool" where
  "log_ready s \<longleftrightarrow> 0 \<le> l_n s \<and> l_n s < int NBUF \<and> distinct (loglist s) \<and>
     logged s \<inter> logarea (l_start s) = {}"

lemma log_readyD:
  assumes "log_ready s"
  shows "0 \<le> l_n s" "nat (l_n s) < NBUF" "card (logged s) < NBUF"
    "\<And>t. t < nat (l_n s) \<Longrightarrow> l_block s t \<in> logged s"
    "\<And>t. t < nat (l_n s) \<Longrightarrow> slot (l_start s) t \<notin> logged s" "l_start s \<notin> logged s"
    "inj_on (l_block s) {..<nat (l_n s)}"
proof -
  show n: "0 \<le> l_n s" "nat (l_n s) < NBUF" using assms by (auto simp: log_ready_def)
  have "card (logged s) \<le> length (loglist s)" unfolding logged_def by (rule card_length)
  then show "card (logged s) < NBUF" using n by (simp add: loglist_def)
  show "l_block s t \<in> logged s" if "t < nat (l_n s)" for t
    using that by (auto simp: logged_def loglist_def)
  show "slot (l_start s) t \<notin> logged s" if "t < nat (l_n s)" for t
    using that n(2) assms slot_area[of t "l_start s"] by (auto simp: log_ready_def)
  show "l_start s \<notin> logged s" using assms by (auto simp: log_ready_def)
  show "inj_on (l_block s) {..<nat (l_n s)}"
    using assms by (simp add: log_ready_def loglist_def distinct_map lessThan_atLeast0)
qed

lemma write_log_spec:
  assumes inv: "pinv (logged s) {} s" and ok: "log_ready s"
  defines "ws \<equiv> map (\<lambda>t. (slot (l_start s) t, bview s (l_block s t))) [0..<nat (l_n s)]"
  shows "\<exists>s'. write_log s = Ok s' \<and> pinv (logged s) {} s' \<and> bview s' = apply_writes ws (bview s) \<and>
    disk s' = apply_writes ws (disk s) \<and> wtrace s' = wtrace s @ ws \<and> bframe s s'"
proof -
  note r = log_readyD[OF ok]
  let ?w = "\<lambda>ds. map (\<lambda>t. (slot (l_start s) t, bview s (l_block s t))) ds"
  let ?I = "\<lambda>ds s'. pinv (logged s) {} s' \<and> bview s' = apply_writes (?w ds) (bview s) \<and>
    disk s' = apply_writes (?w ds) (disk s) \<and> wtrace s' = wtrace s @ ?w ds \<and> bframe s s'"
  show ?thesis
    unfolding write_log_def ws_def
  proof (rule for_each_rule[where I = ?I])
    fix ds t rs s1 assume ds: "[0..<nat (l_n s)] = ds @ t # rs" and I: "?I ds s1"
    have sub: "set (ds @ t # rs) = {0..<nat (l_n s)}" using ds by (metis set_upt)
    then have t: "t < nat (l_n s)" and dl: "\<And>u. u \<in> set ds \<Longrightarrow> u < nat (l_n s)" by auto
    have p1: "pinv (logged s) {} s1" and b1: "bview s1 = apply_writes (?w ds) (bview s)"
      and fr1: "bframe s s1" using I by simp_all
    note fr = bframe_log[OF fr1]
    have "l_block s t \<noteq> slot (l_start s) u" if "u \<in> set ds" for u
      using r(4)[OF t] r(5)[OF dl[OF that]] by auto
    then have bv: "bview s1 (l_block s t) = bview s (l_block s t)"
      unfolding b1 by (intro apply_writes_other) (simp add: image_iff)
    have pre: "slot (l_start s1) t \<notin> logged s" "l_block s1 t \<in> logged s"
      using r(4,5)[OF t] by (simp_all add: fr)
    from write_log_one_spec[OF p1 pre r(3)] obtain s2 where "write_log_one t s1 = Ok s2" "pinv (logged s) {} s2"
      "bview s2 = (bview s1)(slot (l_start s) t := bview s (l_block s t))"
      "disk s2 = (disk s1)(slot (l_start s) t := bview s (l_block s t))"
      "wtrace s2 = wtrace s1 @ [(slot (l_start s) t, bview s (l_block s t))]" "bframe s1 s2"
      unfolding fr bv by blast
    then show "\<exists>s2. write_log_one t s1 = Ok s2 \<and> ?I (ds @ [t]) s2"
      using I bframe_trans[OF fr1] by (intro exI[of _ s2]) simp
  qed (use inv in simp)
qed

lemma install_trans_spec:
  assumes inv: "pinv P {} s" and n: "0 \<le> l_n s" "nat (l_n s) \<le> LOGSIZE" and card: "card P < NBUF"
    and P: "P = (if recovering then {} else logged s)"
    and out: "logged s \<inter> logarea (l_start s) = {}" and dist: "recovering \<or> distinct (loglist s)"
  defines "ws \<equiv> map (\<lambda>t. (l_block s t, disk s (slot (l_start s) t))) [0..<nat (l_n s)]"
  shows "\<exists>s'. install_trans recovering s = Ok s' \<and> pinv {} {} s' \<and> bview s' = apply_writes ws (bview s) \<and>
    disk s' = apply_writes ws (disk s) \<and> wtrace s' = wtrace s @ ws \<and> bframe s s'"
proof -
  let ?w = "\<lambda>ds. map (\<lambda>t. (l_block s t, disk s (slot (l_start s) t))) ds"
  let ?I = "\<lambda>ds s'. pinv (P - l_block s ` set ds) {} s' \<and> bview s' = apply_writes (?w ds) (bview s) \<and>
    disk s' = apply_writes (?w ds) (disk s) \<and> wtrace s' = wtrace s @ ?w ds \<and> bframe s s'"
  have lg: "l_block s ` {..<nat (l_n s)} = logged s"
    by (simp add: logged_def loglist_def atLeast0LessThan)
  have loop: "\<exists>s'. for_each (install_one recovering) [0..<nat (l_n s)] s = Ok s' \<and> ?I [0..<nat (l_n s)] s'"
  proof (rule for_each_rule[where I = ?I])
    fix ds t rs s1 assume ds: "[0..<nat (l_n s)] = ds @ t # rs" and I: "?I ds s1"
    have sub: "set (ds @ t # rs) = {0..<nat (l_n s)}" using ds by (metis set_upt)
    have "distinct (ds @ t # rs)" using ds by (metis distinct_upt)
    then have t: "t < nat (l_n s)" "t \<notin> set ds" and dl: "\<And>u. u \<in> set ds \<Longrightarrow> u < nat (l_n s)"
      using sub by auto
    let ?P = "P - l_block s ` set ds"
    have p1: "pinv ?P {} s1" and d1: "disk s1 = apply_writes (?w ds) (disk s)"
      and fr1: "bframe s s1" using I by simp_all
    note fr = bframe_log[OF fr1]
    have sl: "slot (l_start s) t \<notin> logged s" using out slot_area[of t "l_start s"] t(1) n(2) by auto
    have tl: "l_block s u \<in> logged s" if "u < nat (l_n s)" for u using that lg by auto
    have "slot (l_start s) t \<noteq> l_block s u" if "u \<in> set ds" for u
      using sl tl[OF dl[OF that]] by auto
    then have dv: "disk s1 (slot (l_start s) t) = disk s (slot (l_start s) t)"
      unfolding d1 by (intro apply_writes_other) (simp add: image_iff)
    have rec: "if recovering then ?P = {} else l_block s1 t \<in> ?P"
    proof (cases recovering)
      case False
      then have "inj_on (l_block s) {..<nat (l_n s)}"
        using dist by (simp add: loglist_def distinct_map lessThan_atLeast0)
      then have "l_block s t \<notin> l_block s ` set ds" using t dl by (auto dest: inj_onD)
      then show ?thesis using False P tl[OF t(1)] by (simp add: fr)
    qed (use P in simp)
    have cd: "card ?P < NBUF" using card_mono[of P ?P] pinvD(4)[OF inv] card by simp
    have "P \<subseteq> logged s" using P by simp
    then have np: "slot (l_start s1) t \<notin> ?P" "slot (l_start s1) t \<noteq> l_block s1 t"
      using sl tl[OF t(1)] by (auto simp: fr)
    from install_one_spec[OF p1 np rec cd] obtain s2 where "install_one recovering t s1 = Ok s2" "pinv (?P - {l_block s t}) {} s2"
      "bview s2 = (bview s1)(l_block s t := disk s (slot (l_start s) t))"
      "disk s2 = (disk s1)(l_block s t := disk s (slot (l_start s) t))"
      "wtrace s2 = wtrace s1 @ [(l_block s t, disk s (slot (l_start s) t))]" "bframe s1 s2"
      unfolding fr dv by blast
    moreover have "?P - {l_block s t} = P - l_block s ` set (ds @ [t])" by auto
    ultimately show "\<exists>s2. install_one recovering t s1 = Ok s2 \<and> ?I (ds @ [t]) s2"
      using I bframe_trans[OF fr1] by (intro exI[of _ s2]) simp
  qed (use inv in simp)
  have "P - l_block s ` set [0..<nat (l_n s)] = {}"
    using P lg by (simp add: lessThan_atLeast0)
  with loop show ?thesis unfolding install_trans_def ws_def by (simp only: Diff_empty)
qed

section \<open>The header block\<close>

definition head_data :: "block \<Rightarrow> int \<Rightarrow> (nat \<Rightarrow> u32) \<Rightarrow> block" where
  "head_data hb n bl = put_blocks [0..<nat n] bl (put32 hb 0 (word_of_int n))"

lemma get32_put_blocks:
  "distinct is \<Longrightarrow> get32 (put_blocks is bl hb) j =
     (if j > 0 \<and> j - 1 \<in> set is then bl (j - 1) else get32 hb j)"
  by (induction "is" bl hb rule: put_blocks.induct) (auto simp: get32_put32)

lemma get32_head_data:
  "get32 (head_data hb n bl) 0 = word_of_int n"
  "i < nat n \<Longrightarrow> get32 (head_data hb n bl) (Suc i) = bl i"
  by (simp_all add: head_data_def get32_put_blocks get32_put32)

lemma sint_small: "0 \<le> n \<Longrightarrow> n \<le> int LOGSIZE \<Longrightarrow> sint (word_of_int n :: u32) = n"
  by (subst signed_of_int) (simp add: signed_take_bit_int_eq_self)

lemma write_head_spec:
  assumes inv: "pinv P {} s" and h: "l_start s \<notin> P" and card: "card P < NBUF"
  defines "d \<equiv> head_data (disk s (l_start s)) (l_n s) (l_block s)"
  shows "\<exists>s'. write_head s = Ok s' \<and> pinv P {} s' \<and> bview s' = (bview s)(l_start s := d) \<and>
    disk s' = (disk s)(l_start s := d) \<and> wtrace s' = wtrace s @ [(l_start s, d)] \<and> bframe s s'"
proof -
  let ?h = "l_start s"
  have "card (insert ?h (P \<union> {})) \<le> NBUF" using h card pinvD(4)[OF inv] by simp
  from tx_bread[OF inv _ this] obtain i s1 where
    1: "bread (l_dev s) ?h s = Ok (i, s1)" "pinv P {?h} s1" "bview s1 = bview s"
      "cached s1 (l_dev s) ?h i" "b_data (bufs s1 i) = bview s ?h" "disk s1 = disk s"
      "wtrace s1 = wtrace s" and fr1: "bframe s s1"
    by auto
  have c: "cached s1 (l_dev s1) ?h i" using 1(4) bframe_log(5)[OF fr1] by simp
  have p1: "pinv P {?h, ?h} s1" using 1(2) by simp
  have v: "bview s ?h = disk s ?h" using bview_clean[OF inv h] by simp
  from tx_copy[OF p1 c, of d] obtain s2 where
    2: "bwrite i (set_data i d s1) = Ok s2" "pinv P {?h, ?h} s2" "bview s2 = (bview s1)(?h := d)"
      "disk s2 = (disk s1)(?h := d)" "wtrace s2 = wtrace s1 @ [(?h, d)]" "bframe s1 s2"
      "same_cached s1 s2"
    by blast
  have c2: "cached s2 (l_dev s2) ?h i" using same_cached_iff[OF 2(7,6)] c by simp
  from tx_brelse[OF 2(2) _ c2] 2(3,4) obtain s3 where
    3: "brelse i s2 = Ok s3" "pinv P ({?h, ?h} - {?h}) s3" "bview s3 = bview s2" "bframe s2 s3"
      "disk s3 = disk s2" "wtrace s3 = wtrace s2"
    by auto
  have "write_head s = Ok s3"
    using 1 2 3 v bframe_log[OF fr1] by (simp add: write_head_def Let_def d_def head_data_def)
  then show ?thesis
    using 1 2 3 bframe_trans[OF bframe_trans[OF fr1 2(6)] 3(4)] by (intro exI[of _ s3]) simp
qed

lemma read_head_spec:
  assumes inv: "pinv {} {} s"
  defines "hb \<equiv> disk s (l_start s)"
  defines "n \<equiv> sint (get32 hb 0)"
  shows "\<exists>s'. read_head s = Ok s' \<and> pinv {} {} s' \<and> bview s' = bview s \<and> disk s' = disk s \<and>
    wtrace s' = wtrace s \<and> lframe s s' \<and> l_n s' = n \<and>
    (\<forall>i < nat n. l_block s' i = get32 hb (Suc i))"
proof -
  let ?h = "l_start s"
  from tx_bread[OF inv, of ?h] obtain i s1 where
    1: "bread (l_dev s) ?h s = Ok (i, s1)" "pinv {} {?h} s1" "bview s1 = bview s"
      "cached s1 (l_dev s) ?h i" "b_data (bufs s1 i) = bview s ?h" "disk s1 = disk s"
      "wtrace s1 = wtrace s" and fr1: "bframe s s1"
    by auto
  have v: "bview s ?h = disk s ?h" using bview_clean[OF inv] by simp
  define s2 where "s2 = s1\<lparr>l_n := n, l_block :=
      (\<lambda>i. if i < nat n then get32 hb (Suc i) else l_block s1 i)\<rparr>"
  have upd: "pinv {} {?h} s2" "bview s2 = bview s1" "cached s2 (l_dev s2) ?h i"
    "disk s2 = disk s1" "wtrace s2 = wtrace s1" "lframe s1 s2"
    using 1 bframe_log(5)[OF fr1]
    by (simp_all add: s2_def lframe_def wakeups_def myproc_def)
  from tx_brelse[OF upd(1) _ upd(3)] obtain s3 where
    3: "brelse i s2 = Ok s3" "pinv {} ({?h} - {?h}) s3" "bview s3 = bview s2" "bframe s2 s3"
      "disk s3 = disk s2" "wtrace s3 = wtrace s2"
    using v 1 upd by auto
  have "read_head s = Ok s3"
    using 1 3 v by (simp add: read_head_def Let_def s2_def n_def hb_def cong: if_cong)
  moreover have "lframe s s3"
    using lframe_trans[OF lframe_trans[OF bframe_lframe[OF fr1] upd(6)] bframe_lframe[OF 3(4)]] .
  moreover have "l_n s3 = n" "\<forall>i < nat n. l_block s3 i = get32 hb (Suc i)"
    using bframe_log[OF 3(4)] by (simp_all add: s2_def)
  ultimately show ?thesis using 1 3 upd by simp
qed

section \<open>Recovery on disk images\<close>

text \<open>The writes recovery makes when it finds the disk \<open>D\<close>, and the disk contents the log
  stands for.\<close>

definition replay :: "u32 \<Rightarrow> (u32 \<Rightarrow> block) \<Rightarrow> (u32 \<times> block) list" where
  "replay h D = map (\<lambda>t. (get32 (D h) (Suc t), D (slot h t))) [0..<nat (sint (get32 (D h) 0))]"

definition rec_writes :: "u32 \<Rightarrow> (u32 \<Rightarrow> block) \<Rightarrow> (u32 \<times> block) list" where
  "rec_writes h D = replay h D @ [(h, put32 (D h) 0 0)]"

definition recovered :: "u32 \<Rightarrow> (u32 \<Rightarrow> block) \<Rightarrow> u32 \<Rightarrow> block" where
  "recovered h D = apply_writes (replay h D) D"

definition valid_log :: "u32 \<Rightarrow> (u32 \<Rightarrow> block) \<Rightarrow> bool" where
  "valid_log h D \<longleftrightarrow> 0 \<le> sint (get32 (D h) 0) \<and> sint (get32 (D h) 0) \<le> int LOGSIZE \<and>
     fst ` set (replay h D) \<inter> logarea h = {}"

lemma replay_clear: "get32 (D h) 0 = 0 \<Longrightarrow> replay h D = []"
  by (simp add: replay_def)

lemma clear_log:
  "get32 (D h) 0 = 0 \<Longrightarrow> recovered h D = D" "get32 (D h) 0 = 0 \<Longrightarrow> valid_log h D"
  by (simp_all add: recovered_def valid_log_def replay_clear)

lemma full_log:
  assumes h: "D h = head_data hb n bl" and n: "0 \<le> n" "n \<le> int LOGSIZE"
    and D: "\<And>t. t < nat n \<Longrightarrow> D (slot h t) = V (bl t)"
    and out: "bl ` {..<nat n} \<inter> logarea h = {}"
  shows "recovered h D b = (if b \<in> bl ` {..<nat n} then V b else D b)" "valid_log h D"
proof -
  have cnt: "sint (get32 (D h) 0) = n"
    unfolding h get32_head_data by (rule sint_small[OF n])
  have r: "replay h D = map (\<lambda>t. (bl t, V (bl t))) [0..<nat n]"
    unfolding replay_def cnt by (rule map_cong) (simp_all add: h get32_head_data D)
  have f: "fst ` set (replay h D) = bl ` {..<nat n}"
    by (simp add: r image_image lessThan_atLeast0)
  have "x = V c" if "(c, x) \<in> set (replay h D)" for c x using that by (auto simp: r)
  from apply_writes_same[of "replay h D" V D b, OF this] f
  show "recovered h D b = (if b \<in> bl ` {..<nat n} then V b else D b)"
    unfolding recovered_def by simp
  show "valid_log h D" unfolding valid_log_def cnt f using out n by simp
qed

lemma recover_spec:
  assumes inv: "pinv {} {} r" and ok: "valid_log (l_start r) (disk r)"
  defines "ws \<equiv> rec_writes (l_start r) (disk r)"
  shows "\<exists>r'. recover_from_log r = Ok r' \<and> pinv {} {} r' \<and> disk r' = apply_writes ws (disk r) \<and>
    wtrace r' = wtrace r @ ws \<and> l_n r' = 0 \<and> lframe r r'"
proof -
  let ?h = "l_start r" and ?D = "disk r"
  let ?n = "sint (get32 (?D ?h) 0)"
  from read_head_spec[OF inv] obtain r1 where
    1: "read_head r = Ok r1" "pinv {} {} r1" "disk r1 = ?D" "wtrace r1 = wtrace r" "lframe r r1"
      "l_n r1 = ?n" "\<And>i. i < nat ?n \<Longrightarrow> l_block r1 i = get32 (?D ?h) (Suc i)"
    by blast
  have h1: "l_start r1 = ?h" using 1(5) by (simp add: lframe_def)
  have ws: "map (\<lambda>t. (l_block r1 t, disk r1 (slot (l_start r1) t))) [0..<nat (l_n r1)] = replay ?h ?D"
    using 1 h1 by (simp add: replay_def)
  have lg: "logged r1 = fst ` set (replay ?h ?D)"
    unfolding ws[symmetric] by (simp add: logged_def loglist_def image_image)
  have pre: "0 \<le> l_n r1" "nat (l_n r1) \<le> LOGSIZE" "logged r1 \<inter> logarea (l_start r1) = {}"
    using ok 1(6) h1 lg by (simp_all add: valid_log_def nat_le_iff)
  from install_trans_spec[OF 1(2) pre(1,2) _ _ pre(3), of True] obtain r2 where
    2: "install_trans True r1 = Ok r2" "pinv {} {} r2" "disk r2 = apply_writes (replay ?h ?D) ?D"
      "wtrace r2 = wtrace r1 @ replay ?h ?D" "bframe r1 r2"
    unfolding ws unfolding 1(3) by auto
  let ?r = "r2\<lparr>l_n := 0\<rparr>"
  have h2: "l_start r2 = ?h" using bframe_log(1)[OF 2(5)] h1 by simp
  have hd: "disk r2 ?h = ?D ?h"
    unfolding 2(3) by (rule apply_writes_other) (use ok in \<open>auto simp: valid_log_def\<close>)
  have "pinv {} {} ?r" using 2(2) by simp
  from write_head_spec[OF this] obtain r3 where
    3: "write_head ?r = Ok r3" "pinv {} {} r3" "disk r3 = (disk r2)(?h := put32 (?D ?h) 0 0)"
      "wtrace r3 = wtrace r2 @ [(?h, put32 (?D ?h) 0 0)]" "bframe ?r r3"
    by (auto simp: h2 hd head_data_def)
  have "lframe r2 ?r" by (simp add: lframe_def wakeups_def myproc_def)
  then have "lframe r r3"
    using lframe_trans[OF 1(5)] bframe_lframe[OF 2(5)] bframe_lframe[OF 3(5)] lframe_trans by blast
  moreover have "l_n r3 = 0" using bframe_log(6)[OF 3(5)] by simp
  ultimately show ?thesis
    using 1 2 3 by (simp add: recover_from_log_def ws_def rec_writes_def)
qed

text \<open>A crash in the middle of recovery: the next recovery still finds the same contents.\<close>

lemma apply_writes_absorb:
  assumes "fst ` set us \<subseteq> fst ` set ws"
  shows "apply_writes ws (apply_writes us D) = apply_writes ws D"
proof -
  have dep: "apply_writes ws D b = apply_writes ws D' b"
    if "b \<in> fst ` set ws \<or> D b = D' b" for b D D' ws
    using that
  proof (induction ws arbitrary: D D')
    case (Cons w ws)
    obtain c x where w: "w = (c, x)" by (cases w)
    have "b \<in> fst ` set ws \<or> (D(c := x)) b = (D'(c := x)) b" using Cons.prems w by simp blast
    from Cons.IH[of "D(c := x)" "D'(c := x)", OF this] show ?case by (simp add: w fun_upd_def)
  qed simp
  show ?thesis
  proof
    fix b
    have "b \<in> fst ` set ws \<or> apply_writes us D b = D b"
      using assms apply_writes_other[of b us D] by auto
    then show "apply_writes ws (apply_writes us D) b = apply_writes ws D b" by (rule dep)
  qed
qed

definition crashed_recovery :: "u32 \<Rightarrow> (u32 \<Rightarrow> block) \<Rightarrow> (u32 \<Rightarrow> block) \<Rightarrow> bool" where
  "crashed_recovery h D D' \<longleftrightarrow> (\<exists>k. D' = apply_writes (take k (rec_writes h D)) D)"

lemma crashed_recovery_step:
  assumes ok: "valid_log h D" and "crashed_recovery h D D'"
  shows "valid_log h D'" "\<And>b. b \<notin> logarea h \<Longrightarrow> recovered h D' b = recovered h D b"
proof -
  obtain k where D': "D' = apply_writes (take k (rec_writes h D)) D"
    using assms(2) by (auto simp: crashed_recovery_def)
  let ?ws = "replay h D"
  have n: "nat (sint (get32 (D h) 0)) \<le> LOGSIZE" using ok by (simp add: valid_log_def nat_le_iff)
  have area: "c \<notin> fst ` set ?ws" if "c \<in> logarea h" for c
    using ok that by (auto simp: valid_log_def)
  have "valid_log h D' \<and> (\<forall>b. b \<notin> logarea h \<longrightarrow> recovered h D' b = recovered h D b)"
  proof (cases "k \<le> length ?ws")
    case True
    have D'': "D' = apply_writes (take k ?ws) D" using True D' by (simp add: rec_writes_def)
    have same: "D' c = D c" if "c \<in> logarea h" for c
      unfolding D'' by (rule apply_writes_other) (use area[OF that] in \<open>auto dest: in_set_takeD\<close>)
    have "D' (slot h t) = D (slot h t)" if "t < nat (sint (get32 (D h) 0))" for t
      using that n by (intro same slot_area) simp
    then have r: "replay h D' = ?ws" using same[OF head_area] by (simp add: replay_def)
    have "fst ` set (take k ?ws) \<subseteq> fst ` set ?ws" by (auto dest: in_set_takeD)
    then have "recovered h D' = recovered h D"
      unfolding recovered_def r unfolding D'' by (rule apply_writes_absorb)
    moreover have "valid_log h D'"
      using ok r same[OF head_area] by (simp add: valid_log_def)
    ultimately show ?thesis by simp
  next
    case False
    then have D'': "D' = (recovered h D)(h := put32 (D h) 0 0)"
      using D' by (simp add: rec_writes_def recovered_def)
    have "get32 (D' h) 0 = 0" by (simp add: D'' get32_put32)
    then show ?thesis using clear_log[of D' h] by (auto simp: D'')
  qed
  then show "valid_log h D'" "\<And>b. b \<notin> logarea h \<Longrightarrow> recovered h D' b = recovered h D b" by auto
qed

lemma crashed_recoveries:
  assumes "(crashed_recovery h)\<^sup>*\<^sup>* D D'" "valid_log h D"
  shows "valid_log h D' \<and> (\<forall>b. b \<notin> logarea h \<longrightarrow> recovered h D' b = recovered h D b)"
  using assms
proof induction
  case (step D1 D2)
  then have "valid_log h D1" by simp
  from crashed_recovery_step[OF this step.hyps(2)] step show ?case by simp
qed simp

section \<open>Commit\<close>

text \<open>The writes of \<open>commit\<close>: the blocks into the log slots, the header (the commit point),
  the blocks to their places, and the cleared header.\<close>

definition commit_writes :: "'a logst_scheme \<Rightarrow> (u32 \<times> block) list" where
  "commit_writes s =
    (let h = l_start s; hd = head_data (disk s h) (l_n s) (l_block s) in
     map (\<lambda>t. (slot h t, bview s (l_block s t))) [0..<nat (l_n s)] @ [(h, hd)] @
     map (\<lambda>t. (l_block s t, bview s (l_block s t))) [0..<nat (l_n s)] @ [(h, put32 hd 0 0)])"

lemma commit_spec:
  assumes inv: "pinv (logged s) {} s" and ok: "log_ready s" and n: "0 < l_n s"
  shows "\<exists>s'. commit s = Ok s' \<and> pinv {} {} s' \<and> disk s' = apply_writes (commit_writes s) (disk s) \<and>
    wtrace s' = wtrace s @ commit_writes s \<and> l_n s' = 0 \<and> lframe s s'"
proof -
  note r = log_readyD[OF ok]
  let ?h = "l_start s" and ?hd = "head_data (disk s (l_start s)) (l_n s) (l_block s)"
  let ?w1 = "map (\<lambda>t. (slot ?h t, bview s (l_block s t))) [0..<nat (l_n s)]"
  let ?w2 = "map (\<lambda>t. (l_block s t, bview s (l_block s t))) [0..<nat (l_n s)]"
  from write_log_spec[OF inv ok] obtain s1 where
    1: "write_log s = Ok s1" "pinv (logged s) {} s1" "disk s1 = apply_writes ?w1 (disk s)"
      "wtrace s1 = wtrace s @ ?w1" and fr1: "bframe s s1" by blast
  note f1 = bframe_log[OF fr1]
  have sl: "slot ?h t \<noteq> ?h" if "t < nat (l_n s)" for t
    using that r(2) by (intro slot_not_head) simp
  have h1: "disk s1 ?h = disk s ?h" unfolding 1(3)
    by (rule apply_writes_other) (use sl[symmetric] in auto)
  have "l_start s1 \<notin> logged s" using r(6) by (simp add: f1)
  from write_head_spec[OF 1(2) this r(3), unfolded f1 h1] obtain s2 where
    2: "write_head s1 = Ok s2" "pinv (logged s) {} s2" "disk s2 = (disk s1)(?h := ?hd)"
      "wtrace s2 = wtrace s1 @ [(?h, ?hd)]" and fr12: "bframe s1 s2" by blast
  note fr2 = bframe_trans[OF fr1 fr12]
  note f2 = bframe_log[OF fr2]
  have dist: "distinct (map (slot ?h) [0..<nat (l_n s)])"
    using slot_inj r(2) by (auto simp: distinct_map inj_on_def)
  have d2: "disk s2 (slot ?h t) = bview s (l_block s t)" if "t < nat (l_n s)" for t
    using apply_writes_map_distinct[OF dist, of t] that sl[OF that] by (simp add: 2(3) 1(3))
  have w2: "map (\<lambda>t. (l_block s2 t, disk s2 (slot (l_start s2) t))) [0..<nat (l_n s2)] = ?w2"
    by (rule map_cong) (simp_all add: f2 d2)
  have pre: "pinv (logged s2) {} s2" "0 \<le> l_n s2" "nat (l_n s2) \<le> LOGSIZE" "card (logged s2) < NBUF"
    "logged s2 \<inter> logarea (l_start s2) = {}" "distinct (loglist s2)"
    using 2(2) r(1-3) ok by (simp_all add: f2 log_ready_def)
  from install_trans_spec[OF pre(1-4) _ pre(5), of False] pre(6) obtain s3 where
    3: "install_trans False s2 = Ok s3" "pinv {} {} s3" "disk s3 = apply_writes ?w2 (disk s2)"
      "wtrace s3 = wtrace s2 @ ?w2" and fr23: "bframe s2 s3"
    unfolding w2 by auto
  note fr3 = bframe_trans[OF fr2 fr23]
  note f3 = bframe_log[OF fr3]
  have h3: "disk s3 ?h = ?hd"
    unfolding 3(3) using r(4,6) by (subst apply_writes_other) (auto simp: 2(3))
  let ?s = "s3\<lparr>l_n := 0\<rparr>"
  have "pinv {} {} ?s" using 3(2) by simp
  from write_head_spec[OF this] obtain s4 where
    4: "write_head ?s = Ok s4" "pinv {} {} s4" "disk s4 = (disk s3)(?h := put32 ?hd 0 0)"
      "wtrace s4 = wtrace s3 @ [(?h, put32 ?hd 0 0)]" and fr4: "bframe ?s s4"
    by (auto simp: f3 h3 head_data_def[of _ 0])
  have "lframe s3 ?s" by (simp add: lframe_def wakeups_def myproc_def)
  then have "lframe s s4"
    using bframe_lframe[OF fr3] bframe_lframe[OF fr4] lframe_trans by blast
  moreover have "l_n s4 = 0" using bframe_log(6)[OF fr4] by simp
  ultimately show ?thesis
    using 1 2 3 4 n by (simp add: commit_def commit_writes_def Let_def)
qed

text \<open>What recovery makes of a disk on which only some of these writes arrived.\<close>

lemma commit_prefix:
  assumes inv: "pinv (logged s) {} s" and ok: "log_ready s" and clear: "get32 (disk s (l_start s)) 0 = 0"
  defines "D \<equiv> \<lambda>k. apply_writes (take k (commit_writes s)) (disk s)"
  shows "valid_log (l_start s) (D k)"
    and "b \<notin> logarea (l_start s) \<Longrightarrow>
      recovered (l_start s) (D k) b = (if k \<le> nat (l_n s) then disk s b else bview s b)"
proof -
  note r = log_readyD[OF ok]
  let ?h = "l_start s" and ?n = "nat (l_n s)"
  let ?hd = "head_data (disk s ?h) (l_n s) (l_block s)"
  let ?w1 = "map (\<lambda>t. (slot ?h t, bview s (l_block s t))) [0..<?n]"
  let ?w2 = "map (\<lambda>t. (l_block s t, bview s (l_block s t))) [0..<?n]"
  have sl: "slot ?h t \<noteq> ?h" if "t < ?n" for t
    using that r(2) by (intro slot_not_head) simp
  have sa: "slot ?h t \<in> logarea ?h" if "t < ?n" for t
    using that r(2) by (intro slot_area) simp
  have w1: "apply_writes (take j ?w1) (disk s) c = disk s c" if "c \<notin> logarea ?h \<or> c = ?h" for c j
    by (rule apply_writes_other) (use that sl[symmetric] sa in \<open>auto dest!: in_set_takeD\<close>)
  have lg: "l_block s ` {..<?n} = logged s"
    by (simp add: logged_def loglist_def lessThan_atLeast0)
  have clean: "bview s c = disk s c" if "c \<notin> logged s" for c using bview_clean[OF inv that] by simp
  consider "k \<le> ?n" | "?n < k" "k \<le> Suc (?n + ?n)" | "k > Suc (?n + ?n)" by linarith
  then have "valid_log ?h (D k) \<and> (b \<notin> logarea ?h \<longrightarrow>
      recovered ?h (D k) b = (if k \<le> ?n then disk s b else bview s b))"
  proof cases
    case 1
    then have D: "D k = apply_writes (take k ?w1) (disk s)"
      by (simp add: D_def commit_writes_def Let_def)
    have "get32 (D k ?h) 0 = 0" unfolding D using w1[of ?h k] clear by simp
    then show ?thesis using clear_log[of "D k" ?h] w1[of b k] 1 D by simp
  next
    case 2
    let ?D1 = "(apply_writes ?w1 (disk s))(?h := ?hd)"
    obtain j where j: "k = Suc (?n + j)" "j \<le> ?n"
      using 2 less_imp_Suc_add[of ?n k] by auto
    then have D: "D k = apply_writes (take j ?w2) ?D1"
      by (simp add: D_def commit_writes_def Let_def)
    have other: "D k c = ?D1 c" if "c \<notin> logged s" for c
      unfolding D by (rule apply_writes_other) (use that r(4) in \<open>auto dest!: in_set_takeD\<close>)
    have dist: "distinct (map (slot ?h) [0..<?n])"
      using slot_inj r(2) by (auto simp: distinct_map inj_on_def)
    have slots: "D k (slot ?h t) = bview s (l_block s t)" if "t < ?n" for t
      using other[OF r(5)[OF that]] apply_writes_map_distinct[OF dist, of t] sl[OF that] that by simp
    have hd: "D k ?h = ?hd" using other[OF r(6)] by simp
    have out: "l_block s ` {..<?n} \<inter> logarea ?h = {}" using ok lg by (simp add: log_ready_def)
    have n30: "l_n s \<le> int LOGSIZE" using ok by (simp add: log_ready_def)
    note fl = full_log[where V = "bview s", OF hd r(1) n30 slots out]
    have "recovered ?h (D k) b = bview s b" if "b \<notin> logarea ?h"
      using fl(1)[of b] lg clean[of b] other[of b] w1[of b "length ?w1"] that
      by (cases "b \<in> logged s") (auto split: if_splits)
    then show ?thesis using fl(2) 2 by simp
  next
    case 3
    then have D: "D k = (apply_writes ?w2 ((apply_writes ?w1 (disk s))(?h := ?hd)))(?h := put32 ?hd 0 0)"
      by (simp add: D_def commit_writes_def Let_def)
    have "get32 (D k ?h) 0 = 0" by (simp add: D get32_put32)
    moreover have "D k b = bview s b" if "b \<notin> logarea ?h"
    proof -
      have f: "fst ` set ?w2 = logged s" using lg by (simp add: image_image lessThan_atLeast0)
      have "apply_writes ?w2 E b = (if b \<in> fst ` set ?w2 then bview s b else E b)" for E
        by (rule apply_writes_same) auto
      note this[unfolded f]
      then show ?thesis using that w1[of b "length ?w1"] clean[of b] by (auto simp: D)
    qed
    ultimately show ?thesis using clear_log[of "D k" ?h] 3 by simp
  qed
  then show "valid_log ?h (D k)" "b \<notin> logarea ?h \<Longrightarrow>
      recovered ?h (D k) b = (if k \<le> ?n then disk s b else bview s b)" by auto
qed

section \<open>Power failures\<close>

text \<open>What a restart finds: the disk as it was, and the zeroed static memory of the buffer
  cache.\<close>

definition power_on :: "(u32 \<Rightarrow> block) \<Rightarrow> 'a bio_scheme \<Rightarrow> bool" where
  "power_on D r \<longleftrightarrow> disk r = D \<and>
     (\<forall>i < NBUF. b_dev (bufs r i) = 0 \<and> b_refcnt (bufs r i) = 0 \<and> \<not> b_valid (bufs r i))"

lemma binit_loop_frame [simp]:
  "disk (binit_loop bs s) = disk s" "wtrace (binit_loop bs s) = wtrace s"
  "bio.more (binit_loop bs s) = bio.more s"
  by (induction bs arbitrary: s) (simp_all add: link_head_def upd_buf_lock_def Let_def)

lemma boot_pinv:
  assumes "power_on D r" "dev \<noteq> 0"
  shows "pinv {} {} ((binit r)\<lparr>l_start := h, l_size := n, l_dev := dev\<rparr>)" (is "pinv {} {} ?r")
    and "disk (binit r) = D"
proof -
  show "disk (binit r) = D" using assms(1) by (simp add: binit_def power_on_def)
  have b: "bufs ?r i = (bufs r i)\<lparr>b_lock := initsleeplock\<rparr>" if "i < NBUF" for i
    using that by (simp add: binit_def binit_loop_bufs)
  have z: "b_dev (bufs r i) = 0" "b_refcnt (bufs r i) = 0" "\<not> b_valid (bufs r i)" if "i < NBUF" for i
    using assms(1) that by (simp_all add: power_on_def)
  have "lru ?r (rev [0..<NBUF])"
    using lru_binit[of r] unfolding lru_def by (simp del: upt_conv_Cons)
  moreover have "uniq ?r" unfolding uniq_def using b z by simp
  moreover have "buf_ok dev {} {} (mylock ?r) (disk ?r) (bufs ?r i)" if "i < NBUF" for i
    using b[OF that] z[OF that] assms(2) by (simp add: buf_ok_def initsleeplock_def)
  ultimately show "pinv {} {} ?r" using assms(2) unfolding pinv_def by auto
qed

lemma initlog_spec:
  assumes "power_on D r" "dev \<noteq> 0" "valid_log h D"
  shows "\<exists>r'. initlog dev h nlog (binit r) = Ok r' \<and> pinv {} {} r' \<and> l_n r' = 0 \<and>
    get32 (disk r' h) 0 = 0 \<and> (\<forall>b. b \<notin> logarea h \<longrightarrow> disk r' b = recovered h D b)"
proof -
  let ?r = "(binit r)\<lparr>l_start := h, l_size := sint nlog, l_dev := dev\<rparr>"
  have bp: "pinv {} {} ?r" "disk (binit r) = D" using boot_pinv[OF assms(1,2)] by blast+
  have v: "valid_log (l_start ?r) (disk ?r)" using assms(3) bp(2) by simp
  from recover_spec[OF bp(1) v] obtain r' where
    r': "recover_from_log ?r = Ok r'" "pinv {} {} r'" "l_n r' = 0"
      "disk r' = apply_writes (rec_writes h D) D"
    using bp(2) by auto
  have "initlog dev h nlog (binit r) = Ok r'" using r'(1) by (simp add: initlog_def)
  moreover have "disk r' = (recovered h D)(h := put32 (D h) 0 0)"
    by (simp add: r'(4) rec_writes_def recovered_def)
  ultimately show ?thesis using r' by (auto simp: get32_put32)
qed



section \<open>A concrete transaction\<close>

text \<open>A transaction with one block, 50, whose cached contents differ from the disk.\<close>

definition zero_buf :: buf where
  "zero_buf = \<lparr>b_valid = False, b_disk = False, b_dev = 0, b_blockno = 0, b_lock = initsleeplock,
     b_refcnt = 0, b_data = (\<lambda>_. 0)\<rparr>"

definition boot_state :: logst where
  "boot_state = \<lparr>mem = (\<lambda>_. 0), locals = (\<lambda>_. 0), kern_end = 0x80030000,
     kern_etext = 0x80008000, trampoline_pa = 0x80007000, kernel_pagetable = 0, freelist = 0, 
     procs = (\<lambda>_. zero_proc), curp = 0, nextpid = 2, initproc = None, bufs = (\<lambda>_. zero_buf), bnext = (\<lambda>i. if i = HEAD then 0 else i + 1),
     bprev = (\<lambda>i. if i = 0 then HEAD else i - 1), disk = (\<lambda>_ _. 0), wtrace = [], l_start = 2, l_size = 30, l_outstanding = 1,
     l_committing = False, l_dev = 1, l_n = 0, l_block = (\<lambda>_. 0)\<rparr>"

definition one_block_tx :: logst where
  "one_block_tx = boot_state\<lparr>l_n := 1, l_block := (\<lambda>_. 50),
     bufs := (\<lambda>_. zero_buf)(3 := zero_buf\<lparr>b_valid := True, b_dev := 1, b_blockno := 50,
       b_refcnt := 1, b_data := (\<lambda>_. 7)\<rparr>)\<rparr>"

lemma one_block_tx_ready:
  "pinv (logged one_block_tx) {} one_block_tx" "log_ready one_block_tx"
  "get32 (disk one_block_tx (l_start one_block_tx)) 0 = 0" "bview one_block_tx 50 = (\<lambda>_. 7)"
proof -
  let ?s = one_block_tx
  have dev: "l_dev ?s = 1" "l_start ?s = 2" "l_n ?s = 1" "disk ?s = (\<lambda>_ _. 0)"
    "l_block ?s = (\<lambda>_. 50)"
    and bufs: "bufs ?s = (\<lambda>_. zero_buf)(3 := zero_buf\<lparr>b_valid := True, b_dev := 1, b_blockno := 50,
       b_refcnt := 1, b_data := (\<lambda>_. 7)\<rparr>)"
    by (simp_all add: one_block_tx_def boot_state_def)
  have lg: "loglist ?s = [50]" "logged ?s = {50}" by (simp_all add: loglist_def logged_def dev)
  show "log_ready ?s" by (simp add: log_ready_def lg dev logarea_iff)
  have ring: "lru ?s [0..<NBUF]"
    unfolding lru_def
  proof (intro conjI)
    show "linked (bnext ?s) (bprev ?s) (HEAD # [0..<NBUF] @ [HEAD])"
      by (simp add: one_block_tx_def boot_state_def upt_rec)
  qed (simp_all only: distinct_upt set_upt lessThan_atLeast0)
  have u: "uniq ?s" by (simp add: uniq_def bufs zero_buf_def)
  have c: "cached ?s 1 50 3" "b_valid (bufs ?s 3)" by (simp_all add: cached_def bufs)
  have "buf_ok 1 {50} {} (mylock ?s) (disk ?s) (bufs ?s i)" for i
    by (simp add: buf_ok_def bufs zero_buf_def initsleeplock_def)
  then show p: "pinv (logged ?s) {} ?s"
    unfolding pinv_def lg dev using ring u c by auto
  show "bview one_block_tx 50 = (\<lambda>_. 7)"
    using bview_cached[OF u, of 50 3] c dev by (simp add: bufs)
  show "get32 (disk ?s (l_start ?s)) 0 = 0" by (simp add: dev)
qed



end
