(* ===== verification/CString.thy ===== *)
theory CString
  imports Prelude
begin

text \<open>
  The byte and string functions of \<^verbatim>\<open>kernel/string.c\<close>. \<open>memset\<close>, \<open>memcmp\<close> and
  \<open>memmove\<close> work on one address space, a function from 64-bit addresses to bytes, since
  their arguments may overlap. The string functions take each pointer as the array it
  points to, indexed from 0; incrementing the pointer drops the first element. A
  \<^verbatim>\<open>char\<close> is unsigned on this machine.
\<close>

type_synonym memory = "u64 \<Rightarrow> byte"
type_synonym carray = "nat \<Rightarrow> byte"

section \<open>Memory\<close>

fun memset_loop :: "u64 \<Rightarrow> byte \<Rightarrow> nat list \<Rightarrow> memory \<Rightarrow> memory" where
  "memset_loop dst c [] m = m"
| "memset_loop dst c (i # is) m = memset_loop dst c is (m(dst + of_nat i := c))"

definition memset :: "u64 \<Rightarrow> byte \<Rightarrow> u32 \<Rightarrow> memory \<Rightarrow> memory" where
  "memset dst c n m = memset_loop dst c [0..<unat n] m"

fun memcmp_loop :: "nat \<Rightarrow> u64 \<Rightarrow> u64 \<Rightarrow> memory \<Rightarrow> int" where
  "memcmp_loop 0 s1 s2 m = 0"
| "memcmp_loop (Suc n) s1 s2 m =
     (if m s1 \<noteq> m s2 then uint (m s1) - uint (m s2) else memcmp_loop n (s1 + 1) (s2 + 1) m)"

definition memcmp :: "u64 \<Rightarrow> u64 \<Rightarrow> u32 \<Rightarrow> memory \<Rightarrow> int" where
  "memcmp v1 v2 n m = memcmp_loop (unat n) v1 v2 m"

fun copy_up :: "nat \<Rightarrow> u64 \<Rightarrow> u64 \<Rightarrow> memory \<Rightarrow> memory" where
  "copy_up 0 d s m = m"
| "copy_up (Suc n) d s m = copy_up n (d + 1) (s + 1) (m(d := m s))"

fun copy_down :: "nat \<Rightarrow> u64 \<Rightarrow> u64 \<Rightarrow> memory \<Rightarrow> memory" where
  "copy_down 0 d s m = m"
| "copy_down (Suc n) d s m = copy_down n (d - 1) (s - 1) (m(d - 1 := m (s - 1)))"

definition memmove :: "u64 \<Rightarrow> u64 \<Rightarrow> u32 \<Rightarrow> memory \<Rightarrow> memory" where
  "memmove dst src n m =
    (if n = 0 then m
     else if src < dst \<and> src + ucast n > dst
       then copy_down (unat n) (dst + ucast n) (src + ucast n) m
       else copy_up (unat n) dst src m)"

definition memcpy :: "u64 \<Rightarrow> u64 \<Rightarrow> u32 \<Rightarrow> memory \<Rightarrow> memory" where
  "memcpy dst src n m = memmove dst src n m"

section \<open>Strings\<close>

fun strncmp :: "carray \<Rightarrow> carray \<Rightarrow> nat \<Rightarrow> int" where
  "strncmp p q 0 = 0"
| "strncmp p q (Suc n) =
     (if p 0 \<noteq> 0 \<and> p 0 = q 0 then strncmp (p \<circ> Suc) (q \<circ> Suc) n
      else uint (p 0) - uint (q 0))"

fun strncpy_pad :: "nat \<Rightarrow> nat \<Rightarrow> carray \<Rightarrow> carray" where
  "strncpy_pad i 0 s = s"
| "strncpy_pad i (Suc n) s = strncpy_pad (Suc i) n (s(i := 0))"

fun strncpy_loop :: "nat \<Rightarrow> nat \<Rightarrow> carray \<Rightarrow> carray \<Rightarrow> carray" where
  "strncpy_loop i 0 s t = s"
| "strncpy_loop i (Suc n) s t =
     (let s = s(i := t i) in
      if t i \<noteq> 0 then strncpy_loop (Suc i) n s t else strncpy_pad (Suc i) n s)"

definition strncpy :: "carray \<Rightarrow> carray \<Rightarrow> int \<Rightarrow> carray" where
  "strncpy s t n = strncpy_loop 0 (nat n) s t"

text \<open>The last argument of the loop is the value of \<^verbatim>\<open>n - 1\<close>, which \<^verbatim>\<open>--n > 0\<close> tests.\<close>

fun safestrcpy_loop :: "nat \<Rightarrow> nat \<Rightarrow> carray \<Rightarrow> carray \<Rightarrow> carray" where
  "safestrcpy_loop i 0 s t = s(i := 0)"
| "safestrcpy_loop i (Suc n) s t =
     (let s = s(i := t i) in
      if t i \<noteq> 0 then safestrcpy_loop (Suc i) n s t else s(Suc i := 0))"

definition safestrcpy :: "carray \<Rightarrow> carray \<Rightarrow> int \<Rightarrow> carray" where
  "safestrcpy s t n = (if n \<le> 0 then s else safestrcpy_loop 0 (nat (n - 1)) s t)"

partial_function (option) strlen_from :: "carray \<Rightarrow> nat \<Rightarrow> nat option" where
  "strlen_from s n = (if s n = 0 then Some n else strlen_from s (Suc n))"

definition strlen :: "carray \<Rightarrow> nat option" where
  "strlen s = strlen_from s 0"

section \<open>Memory functions set and copy exactly their range\<close>

text \<open>An address is in the \<open>n\<close> bytes from \<open>d\<close> when its distance from \<open>d\<close> is below \<open>n\<close>.\<close>

definition in_range :: "u64 \<Rightarrow> nat \<Rightarrow> u64 \<Rightarrow> bool" where
  "in_range d n a \<longleftrightarrow> unat (a - d) < n"

lemma memset_loop_eq:
  "memset_loop dst c is m a = (if \<exists>i\<in>set is. a = dst + of_nat i then c else m a)"
  by (induction "is" arbitrary: m) auto

lemma unat_of_nat_lt: "n \<le> 2 ^ LENGTH('a) \<Longrightarrow> i < n \<Longrightarrow> unat (of_nat i :: 'a::len word) = i"
  by (subst unsigned_of_nat) (simp add: take_bit_nat_eq_self_iff)

lemma in_range_iff:
  assumes "n \<le> 2 ^ 64"
  shows "in_range d n a \<longleftrightarrow> (\<exists>i < n. a = d + of_nat i)"
proof
  assume "in_range d n a"
  then have "a = d + of_nat (unat (a - d))" "unat (a - d) < n" by (simp_all add: in_range_def)
  then show "\<exists>i < n. a = d + of_nat i" by blast
next
  assume "\<exists>i < n. a = d + of_nat i"
  then obtain i where "i < n" "a - d = of_nat i" by auto
  then show "in_range d n a" using assms unat_of_nat_lt[of n i, where 'a = 64] by (simp add: in_range_def)
qed

lemma unat_add_of_nat:
  assumes "unat a + k < 2 ^ 64"
  shows "unat ((a :: u64) + of_nat k) = unat a + k"
proof -
  have k: "unat (of_nat k :: u64) = k"
    by (rule unat_of_nat_lt[where n = "2 ^ 64"]) (use assms in simp_all)
  then show ?thesis using assms unat_add_lem[of a "of_nat k"] by simp
qed

lemma unat_u32_le: "unat (n :: u32) \<le> 2 ^ 64"
  using unsigned_less[of n, where 'a = nat] by (simp add: less_imp_le order_trans)

lemma memset_spec: "memset d c n m a = (if in_range d (unat n) a then c else m a)"
  unfolding memset_def memset_loop_eq in_range_iff[OF unat_u32_le] by auto

lemma in_range_Suc:
  assumes "n < 2 ^ 64"
  shows "in_range d (Suc n) a \<longleftrightarrow> a = d \<or> in_range (d + 1) n a" "\<not> in_range (d + 1) n d"
proof -
  have n: "Suc n \<le> 2 ^ 64" "n \<le> 2 ^ 64" using assms by simp_all
  have "d + of_nat (Suc i) = d + 1 + of_nat i" for i by simp
  then show "in_range d (Suc n) a \<longleftrightarrow> a = d \<or> in_range (d + 1) n a"
    unfolding in_range_iff[OF n(1)] in_range_iff[OF n(2)] Ex_less_Suc2 by (simp add: add.assoc)
  show "\<not> in_range (d + 1) n d"
  proof
    assume "in_range (d + 1) n d"
    then obtain i where i: "i < n" "d = d + 1 + of_nat i" unfolding in_range_iff[OF n(2)] by blast
    then have "of_nat (Suc i) = (0 :: u64)" by (simp add: add.assoc)
    then have "unat (of_nat (Suc i) :: u64) = 0" by (metis unat_0)
    moreover have "unat (of_nat (Suc i) :: u64) = Suc i"
      by (rule unat_of_nat_lt[where n = "2 ^ 64"]) (use i assms in simp_all)
    ultimately show False by simp
  qed
qed

text \<open>Copying upwards is right when no source byte is overwritten before it is read, and
  so is copying downwards.\<close>

lemma copy_up_spec:
  assumes "n \<le> 2 ^ 32" "\<And>k. 0 < k \<Longrightarrow> k < n \<Longrightarrow> d \<noteq> s + of_nat k"
  shows "copy_up n d s m a = (if in_range d n a then m (s + (a - d)) else m a)"
  using assms
proof (induction n arbitrary: d s m)
  case 0
  then show ?case by (simp add: in_range_def)
next
  case (Suc n)
  have n: "n < 2 ^ 64" using Suc.prems(1) by simp
  have "d + 1 \<noteq> s + 1 + of_nat k" if "0 < k" "k < n" for k
    using Suc.prems(2)[of k] that by simp
  note IH = Suc.IH[of "d + 1" "s + 1" "m(d := m s)", OF _ this]
  have keep: "s + (a - d) \<noteq> d" if r: "in_range (d + 1) n a"
  proof -
    from r obtain i where "i < n" "a = d + 1 + of_nat i"
      unfolding in_range_iff[OF less_imp_le[OF n]] by blast
    then have "a - d = of_nat (Suc i)" by simp
    then show ?thesis using Suc.prems(2)[of "Suc i"] \<open>i < n\<close> by auto
  qed
  have shift: "s + 1 + (a - (d + 1)) = s + (a - d)" by simp
  show ?case
    using IH Suc.prems(1) in_range_Suc(1)[OF n, of d a] in_range_Suc(2)[OF n, of d] keep shift
    by (simp add: fun_upd_def)
qed

lemma copy_down_spec:
  assumes "n \<le> 2 ^ 32" "\<And>k. 0 < k \<Longrightarrow> k < n \<Longrightarrow> s \<noteq> d + of_nat k"
  shows "copy_down n d s m a =
    (if in_range (d - of_nat n) n a then m (s - of_nat n + (a - (d - of_nat n))) else m a)"
  using assms
proof (induction n arbitrary: d s m)
  case 0
  then show ?case by (simp add: in_range_def)
next
  case (Suc n)
  have n: "n < 2 ^ 64" using Suc.prems(1) by simp
  have n1: "Suc n \<le> 2 ^ 64" using n by simp
  let ?b = "d - of_nat (Suc n)"
  have "s - 1 \<noteq> d - 1 + of_nat k" if "0 < k" "k < n" for k
    using Suc.prems(2)[of k] that by (simp add: algebra_simps)
  note IH = Suc.IH[of "s - 1" "d - 1" "m(d - 1 := m (s - 1))", OF _ this]
  have b: "d - 1 - of_nat n = ?b" "s - 1 - of_nat n = s - of_nat (Suc n)" by simp_all
  have top: "d - 1 = ?b + of_nat n" by simp
  have r: "in_range ?b (Suc n) a \<longleftrightarrow> a = d - 1 \<or> in_range ?b n a"
    unfolding top in_range_iff[OF n1] in_range_iff[OF less_imp_le[OF n]] Ex_less_Suc by simp
  have nr: "\<not> in_range ?b n (d - 1)"
  proof
    assume "in_range ?b n (d - 1)"
    then have "unat (of_nat n :: u64) < n" unfolding top in_range_def by simp
    moreover have "unat (of_nat n :: u64) = n"
      by (rule unat_of_nat_lt[where n = "2 ^ 64"]) (use n in simp_all)
    ultimately show False by simp
  qed
  have keep: "s - of_nat (Suc n) + (a - ?b) \<noteq> d - 1" if ra: "in_range ?b n a"
  proof
    assume eq: "s - of_nat (Suc n) + (a - ?b) = d - 1"
    from ra obtain i where i: "i < n" "a = ?b + of_nat i"
      unfolding in_range_iff[OF less_imp_le[OF n]] by blast
    then have "s = d + of_nat (n - i)" using eq by (simp add: algebra_simps of_nat_diff)
    then show False using Suc.prems(2)[of "n - i"] i(1) by (simp del: of_nat_diff)
  qed
  have at: "s - of_nat (Suc n) + (d - 1 - ?b) = s - 1" by simp
  show ?case
  proof (cases "a = d - 1")
    case True
    then show ?thesis using IH Suc.prems(1) r nr at unfolding b by (simp add: fun_upd_def)
  next
    case False
    then show ?thesis using IH Suc.prems(1) r keep unfolding b by (simp add: fun_upd_def)
  qed
qed

lemma memmove_eq:
  assumes dst: "unat dst + unat n \<le> 2 ^ 64" and src: "unat src + unat n < 2 ^ 64"
  shows "memmove dst src n m a = (if in_range dst (unat n) a then m (src + (a - dst)) else m a)"
proof (cases "n = 0")
  case True
  then show ?thesis by (simp add: memmove_def in_range_def)
next
  case n: False
  let ?N = "unat n"
  have N: "?N \<le> 2 ^ 32" using unsigned_less[of n, where 'a = nat] by simp
  have u: "(ucast n :: u64) = of_nat ?N" by simp
  have uN: "unat (src + of_nat ?N) = unat src + ?N"
    using src by (intro unat_add_of_nat) simp
  show ?thesis
  proof (cases "src < dst \<and> src + ucast n > dst")
    case True
    have "src + of_nat ?N \<noteq> dst + of_nat ?N + of_nat k" if "0 < k" "k < ?N" for k
    proof
      assume "src + of_nat ?N = dst + of_nat ?N + of_nat k"
      then have "src = dst + of_nat k" by simp
      moreover have "unat (dst + of_nat k) = unat dst + k"
        using dst that by (intro unat_add_of_nat) simp
      ultimately show False using True by (simp add: word_less_nat_alt)
    qed
    from copy_down_spec[OF N this, of m a] True n show ?thesis
      unfolding memmove_def u by simp
  next
    case False
    have "dst \<noteq> src + of_nat k" if "0 < k" "k < ?N" for k
    proof
      assume d: "dst = src + of_nat k"
      moreover have "unat (src + of_nat k) = unat src + k"
        using src that by (intro unat_add_of_nat) simp
      ultimately have "src < dst" "dst < src + ucast n"
        using that uN unfolding u by (simp_all add: word_less_nat_alt)
      then show False using False by simp
    qed
    from copy_up_spec[OF N this, of m a] n show ?thesis
      unfolding memmove_def if_not_P[OF False] by simp
  qed
qed

text \<open>C9: \<^verbatim>\<open>memmove\<close> copies its \<open>n\<close> bytes as if all were read before any is written, also
  when the two ranges overlap in either direction, and changes nothing else.\<close>

theorem memmove_spec:
  assumes dst: "unat dst + unat n \<le> 2 ^ 64" and src: "unat src + unat n < 2 ^ 64"
  shows "memmove dst src n m a = (if in_range dst (unat n) a then m (src + (a - dst)) else m a)"
  using assms by (rule memmove_eq)

text \<open>Witness: four bytes moved up by two, overlapping.\<close>

lemma memmove_spec_witness:
  "memmove 10 8 4 (\<lambda>a. ucast a) 13 = 11 \<and> memmove 10 8 4 (\<lambda>a. ucast a) 14 = 14"
  using memmove_spec[of 10 4 8 "\<lambda>a. ucast a" 13] memmove_spec[of 10 4 8 "\<lambda>a. ucast a" 14]
  by (simp add: in_range_def)

section \<open>Strings of bounded length\<close>

text \<open>The string stored in the first \<open>n\<close> bytes: up to the first zero byte, or all of them.\<close>

definition cstr :: "nat \<Rightarrow> carray \<Rightarrow> byte list" where
  "cstr n p = takeWhile (\<lambda>c. c \<noteq> 0) (map p [0..<n])"

lemma cstr_0 [simp]: "cstr 0 p = []"
  by (simp add: cstr_def)

lemma cstr_Suc: "cstr (Suc n) p = (if p 0 = 0 then [] else p 0 # cstr n (p \<circ> Suc))"
proof -
  have "map p [0..<Suc n] = p 0 # map (p \<circ> Suc) [0..<n]"
    by (simp add: map_upt_Suc o_def del: upt_Suc)
  then show ?thesis by (simp add: cstr_def)
qed

lemma length_cstr: "length (cstr n p) \<le> n"
  using length_takeWhile_le[of "\<lambda>c. c \<noteq> 0" "map p [0..<n]"] by (simp add: cstr_def)

lemma cstr_cong:
  assumes "\<And>i. i < n \<Longrightarrow> p i = q i"
  shows "cstr n p = cstr n q"
proof -
  have "map p [0..<n] = map q [0..<n]" using assms by (intro map_cong) auto
  then show ?thesis unfolding cstr_def by (rule arg_cong)
qed

lemma strncmp_eq_0_iff: "strncmp p q n = 0 \<longleftrightarrow> cstr n p = cstr n q"
proof (induction n arbitrary: p q)
  case (Suc n)
  have "uint (p 0) - uint (q 0) = 0 \<longleftrightarrow> p 0 = q 0" by (simp add: word_uint_eq_iff)
  then show ?case using Suc.IH[of "p \<circ> Suc" "q \<circ> Suc"] by (auto simp: cstr_Suc o_def)
qed simp

lemma strncpy_pad_eq: "strncpy_pad i n s j = (if i \<le> j \<and> j < i + n then 0 else s j)"
  by (induction i n s rule: strncpy_pad.induct) (auto simp: fun_upd_def)

lemma strncpy_loop_eq:
  "strncpy_loop i n s t j =
     (if i \<le> j \<and> j < i + n then (if \<forall>k. i \<le> k \<and> k < j \<longrightarrow> t k \<noteq> 0 then t j else 0) else s j)"
proof (induction i n s t rule: strncpy_loop.induct)
  case (2 i n s t)
  show ?case
  proof (cases "t i = 0")
    case True
    consider "j < i" | "j = i" | "i < j" by linarith
    then show ?thesis using True by cases (auto simp: strncpy_pad_eq)
  next
    case False
    have e: "(\<forall>k. i \<le> k \<and> k < j \<longrightarrow> t k \<noteq> 0) \<longleftrightarrow> (\<forall>k. Suc i \<le> k \<and> k < j \<longrightarrow> t k \<noteq> 0)"
      (is "?l \<longleftrightarrow> ?r")
    proof
      assume r: ?r
      have "t k \<noteq> 0" if "i \<le> k \<and> k < j" for k using r that False by (cases "k = i") auto
      then show ?l by blast
    qed simp
    consider "j < i" | "j = i" | "i < j" by linarith
    then show ?thesis
    proof cases
      case 3
      then show ?thesis unfolding e using False 2 by (simp add: fun_upd_def)
    qed (use False 2 in \<open>simp_all add: fun_upd_def\<close>)
  qed
qed auto

text \<open>\<^verbatim>\<open>strncpy\<close> copies up to and including the first zero byte and pads with zeros.\<close>

lemma strncpy_eq:
  "strncpy s t (int n) j = (if j < n then (if \<forall>k < j. t k \<noteq> 0 then t j else 0) else s j)"
  by (simp add: strncpy_def strncpy_loop_eq)

lemma cstr_strncpy: "cstr n (strncpy s t (int n)) = cstr n t"
proof -
  have gen: "takeWhile (\<lambda>c. c \<noteq> 0) (map (\<lambda>j. if \<forall>k < j. t k \<noteq> 0 then t j else 0) xs) =
      takeWhile (\<lambda>c. c \<noteq> 0) (map t xs)" if "xs = [i..<n]" "\<forall>k < i. t k \<noteq> 0" for xs i
    using that
  proof (induction xs arbitrary: i)
    case (Cons x xs)
    have "[i..<n] = x # xs" using Cons.prems(1) by simp
    then have x: "x = i" "xs = [Suc i..<n]" by (auto simp: upt_eq_Cons_conv)
    show ?case
    proof (cases "t i = 0")
      case False
      then have "\<forall>k < Suc i. t k \<noteq> 0" using Cons.prems(2) by (simp add: less_Suc_eq)
      then show ?thesis using Cons.IH[OF x(2)] Cons.prems(2) x(1) by simp
    qed (use x in simp)
  qed simp
  have "map (strncpy s t (int n)) [0..<n] = map (\<lambda>j. if \<forall>k < j. t k \<noteq> 0 then t j else 0) [0..<n]"
    by (rule map_cong) (simp_all add: strncpy_eq)
  then show ?thesis unfolding cstr_def using gen[of "[0..<n]" 0] by (simp only:) simp
qed

text \<open>\<^verbatim>\<open>safestrcpy\<close> stays in its \<open>n\<close> bytes and leaves a terminated string in them: the source
  string, cut to \<open>n - 1\<close> characters.\<close>

lemma safestrcpy_loop_out: "j < i \<or> i + n < j \<Longrightarrow> safestrcpy_loop i n s t j = s j"
  by (induction i n s t rule: safestrcpy_loop.induct) (auto simp: Let_def fun_upd_def)

lemma safestrcpy_loop_string:
  "takeWhile (\<lambda>c. c \<noteq> 0) (map (safestrcpy_loop i n s t) [i..<Suc (i + n)]) =
     takeWhile (\<lambda>c. c \<noteq> 0) (map t [i..<i + n])"
proof (induction i n s t rule: safestrcpy_loop.induct)
  case (2 i n s t)
  have u: "[i..<Suc (i + Suc n)] = i # [Suc i..<Suc (Suc i + n)]" "[i..<i + Suc n] = i # [Suc i..<Suc i + n]"
    by (simp_all add: upt_conv_Cons del: upt_Suc)
  show ?case
  proof (cases "t i = 0")
    case False
    then have "safestrcpy_loop i (Suc n) s t = safestrcpy_loop (Suc i) n (s(i := t i)) t" by simp
    then show ?thesis
      unfolding u using False 2 safestrcpy_loop_out[of i "Suc i" n] by (simp add: fun_upd_def)
  next
    case True
    then show ?thesis unfolding u by simp
  qed
qed simp

lemma cstr_safestrcpy:
  assumes "0 < n"
  shows "cstr n (safestrcpy s t (int n)) = cstr (n - 1) t"
    and "\<And>j. n \<le> j \<Longrightarrow> safestrcpy s t (int n) j = s j"
    and "\<exists>k < n. safestrcpy s t (int n) k = 0"
proof -
  have "nat (int n - 1) = n - 1" using assms by linarith
  then have eq: "safestrcpy s t (int n) = safestrcpy_loop 0 (n - 1) s t"
    using assms by (simp add: safestrcpy_def)
  show c: "cstr n (safestrcpy s t (int n)) = cstr (n - 1) t"
    using safestrcpy_loop_string[of 0 "n - 1" s t] assms unfolding eq cstr_def by simp
  show "safestrcpy s t (int n) j = s j" if "n \<le> j" for j
    unfolding eq using that assms by (intro safestrcpy_loop_out) linarith
  show "\<exists>k < n. safestrcpy s t (int n) k = 0"
  proof (rule ccontr)
    assume "\<not> ?thesis"
    then have "cstr n (safestrcpy s t (int n)) = map (safestrcpy s t (int n)) [0..<n]"
      unfolding cstr_def by (auto simp: takeWhile_eq_all_conv)
    then have "length (cstr n (safestrcpy s t (int n))) = n" by simp
    then show False using c length_cstr[of "n - 1" t] assms by simp
  qed
qed

lemma strlen_from_Some:
  assumes "s k = 0" "n \<le> k" "\<And>i. n \<le> i \<Longrightarrow> i < k \<Longrightarrow> s i \<noteq> 0"
  shows "strlen_from s n = Some k"
  using assms
proof (induction "k - n" arbitrary: n)
  case 0
  then show ?case by (subst strlen_from.simps) simp
next
  case (Suc d)
  then have "s n \<noteq> 0" "strlen_from s (Suc n) = Some k" by simp_all
  then show ?case by (subst strlen_from.simps) simp
qed

lemma strlen_cstr:
  assumes "s k = 0" "k < n"
  shows "strlen s = Some (length (cstr n s))"
proof -
  let ?l = "length (cstr n s)"
  have nth: "s i \<noteq> 0" if "i < ?l" for i
  proof -
    have "cstr n s ! i = s i"
      using that length_cstr[of n s] unfolding cstr_def by (simp add: takeWhile_nth)
    moreover have "cstr n s ! i \<in> set (cstr n s)" using that by simp
    ultimately show ?thesis unfolding cstr_def by (metis (mono_tags) set_takeWhileD)
  qed
  have "?l \<le> k" using nth assms(1) by (meson not_le)
  then have "?l < n" using assms(2) by simp
  then have "s ?l = 0"
    using nth_length_takeWhile[of "\<lambda>c. c \<noteq> 0" "map s [0..<n]"] by (simp add: cstr_def)
  then show ?thesis unfolding strlen_def using nth by (intro strlen_from_Some) auto
qed

end
