(* ===== verification/Mem.thy ===== *)
theory Mem
  imports CString
begin

text \<open>
  Words and pages in byte memory: 64-bit reads and writes, the page macros of
  \<^verbatim>\<open>kernel/riscv.h\<close>, and when an access leaves another one unchanged.
\<close>

abbreviation (input) PGSIZE :: u64 where "PGSIZE \<equiv> 4096"

definition mem_get :: "u64 \<Rightarrow> nat \<Rightarrow> memory \<Rightarrow> byte list" where
  "mem_get a n m = map (\<lambda>i. m (a + of_nat i)) [0..<n]"

definition mem_put :: "u64 \<Rightarrow> byte list \<Rightarrow> memory \<Rightarrow> memory" where
  "mem_put a bs m = (\<lambda>x. if unat (x - a) < length bs then bs ! unat (x - a) else m x)"

definition read64 :: "memory \<Rightarrow> u64 \<Rightarrow> u64" where
  "read64 m a = le_word (mem_get a 8 m)"

definition write64 :: "u64 \<Rightarrow> u64 \<Rightarrow> memory \<Rightarrow> memory" where
  "write64 a v m = mem_put a (le_bytes 8 v) m"

definition PGROUNDUP :: "u64 \<Rightarrow> u64" where
  "PGROUNDUP sz = (sz + PGSIZE - 1) AND NOT (PGSIZE - 1)"

definition PGROUNDDOWN :: "u64 \<Rightarrow> u64" where
  "PGROUNDDOWN a = a AND NOT (PGSIZE - 1)"

section \<open>Reads after writes\<close>

lemma mem_get_put_same:
  assumes "length bs = n" "n \<le> 2 ^ 64"
  shows "mem_get a n (mem_put a bs m) = bs"
proof (rule nth_equalityI)
  fix i assume "i < length (mem_get a n (mem_put a bs m))"
  then have i: "i < n" by (simp add: mem_get_def)
  then have "unat (of_nat i :: u64) = i" using assms(2) by (intro unat_of_nat_lt[of n]) simp_all
  then show "mem_get a n (mem_put a bs m) ! i = bs ! i" using i assms(1) by (simp add: mem_get_def mem_put_def)
qed (simp add: mem_get_def assms)

lemma mem_get_cong: "(\<And>i. i < n \<Longrightarrow> m (a + of_nat i) = m' (a + of_nat i)) \<Longrightarrow> mem_get a n m = mem_get a n m'"
  by (simp add: mem_get_def)

lemma mem_put_other: "\<not> in_range a (length bs) x \<Longrightarrow> mem_put a bs m x = m x"
  by (simp add: mem_put_def in_range_def)

lemma read64_write64_same [simp]: "read64 (write64 a v m) a = v"
  by (simp add: read64_def write64_def mem_get_put_same)

lemma write64_other: "\<not> in_range a 8 x \<Longrightarrow> write64 a v m x = m x"
  by (simp add: write64_def mem_put_other)

lemma read64_cong: "(\<And>x. in_range a 8 x \<Longrightarrow> m x = m' x) \<Longrightarrow> read64 m a = read64 m' a"
  unfolding read64_def by (rule arg_cong, rule mem_get_cong) (auto simp: in_range_iff)

section \<open>Pages\<close>

text \<open>A page is named by its address, a multiple of the page size.\<close>

definition aligned :: "u64 \<Rightarrow> bool" where
  "aligned a \<longleftrightarrow> a mod PGSIZE = 0"

definition page :: "u64 \<Rightarrow> u64 set" where
  "page a = {x. PGROUNDDOWN x = a}"

lemma and_not_mask: "a AND NOT (mask n) = a - (a AND (mask n :: u64))"
proof -
  have "(a AND NOT (mask n)) + (a AND mask n) = (a AND NOT (mask n)) OR (a AND mask n)"
    by (rule disjunctive_add_eq_or) (simp add: bit_eq_iff bit_simps)
  also have "\<dots> = a" by (rule bit_eqI) (auto simp: bit_simps)
  finally show ?thesis by (simp add: algebra_simps)
qed

lemma PGROUNDDOWN_eq: "PGROUNDDOWN a = a - a mod PGSIZE"
proof -
  have "(PGSIZE :: u64) - 1 = mask 12" by (simp add: mask_eq_exp_minus_1)
  then have "PGROUNDDOWN a = a - (a AND mask 12)"
    unfolding PGROUNDDOWN_def by (simp only: and_not_mask)
  also have "a AND mask 12 = a mod PGSIZE" by (simp add: take_bit_eq_mod flip: take_bit_eq_mask)
  finally show ?thesis .
qed

lemma unat_PGROUNDDOWN: "unat (PGROUNDDOWN a) = 4096 * (unat a div 4096)"
proof -
  have m: "unat (a mod PGSIZE) = unat a mod 4096" by (simp add: unat_mod)
  have "unat (a mod PGSIZE) \<le> unat a" unfolding m by (rule mod_less_eq_dividend)
  then have "unat (PGROUNDDOWN a) = unat a - unat a mod 4096"
    unfolding PGROUNDDOWN_eq by (subst unat_sub) (simp_all add: word_le_nat_alt m)
  then show ?thesis by (simp add: minus_mod_eq_mult_div)
qed

lemma aligned_unat: "aligned a \<longleftrightarrow> unat a mod 4096 = 0"
proof -
  have "unat (a mod PGSIZE) = unat a mod 4096" by (simp add: unat_mod)
  then show ?thesis by (simp add: aligned_def flip: unat_eq_zero)
qed

lemma aligned_PGROUNDDOWN [simp]: "aligned (PGROUNDDOWN a)"
  by (simp add: aligned_unat unat_PGROUNDDOWN)

lemma PGROUNDDOWN_aligned [simp]: "aligned a \<Longrightarrow> PGROUNDDOWN a = a"
  by (simp add: aligned_def PGROUNDDOWN_eq)

lemma aligned_top: "aligned a \<Longrightarrow> unat a + 4096 \<le> 2 ^ 64"
  using unsigned_less[of a, where 'a = nat] by (auto simp: aligned_unat)

lemma page_iff: "aligned a \<Longrightarrow> x \<in> page a \<longleftrightarrow> unat a \<le> unat x \<and> unat x < unat a + 4096"
proof -
  assume "aligned a"
  then obtain k where k: "unat a = 4096 * k" by (auto simp: aligned_unat)
  have "x \<in> page a \<longleftrightarrow> 4096 * (unat x div 4096) = unat a"
    by (simp add: page_def word_unat_eq_iff flip: unat_PGROUNDDOWN)
  also have "\<dots> \<longleftrightarrow> unat x div 4096 = k" by (simp add: k)
  also have "\<dots> \<longleftrightarrow> 4096 * k \<le> unat x \<and> unat x < 4096 * k + 4096" by auto
  finally show ?thesis by (simp add: k)
qed

lemma page_range: "aligned a \<Longrightarrow> x \<in> page a \<longleftrightarrow> in_range a 4096 x"
proof -
  assume a: "aligned a"
  show ?thesis
  proof
    assume "x \<in> page a"
    then have "unat a \<le> unat x" "unat x < unat a + 4096" using a by (simp_all add: page_iff)
    then show "in_range a 4096 x" by (simp add: in_range_def unat_sub word_le_nat_alt)
  next
    assume "in_range a 4096 x"
    then obtain i where i: "i < 4096" "x = a + of_nat i" by (auto simp: in_range_iff)
    then have "unat x = unat a + i" using aligned_top[OF a] by (simp add: unat_add_of_nat)
    then show "x \<in> page a" using i a by (simp add: page_iff)
  qed
qed

lemma page_disjoint: "a \<noteq> b \<Longrightarrow> x \<in> page a \<Longrightarrow> x \<notin> page b"
  by (simp add: page_def)

lemma page_self [simp]: "aligned a \<Longrightarrow> a \<in> page a"
  by (simp add: page_def)

text \<open>The 64-bit words of a page.\<close>

lemma word_in_page:
  assumes "aligned a" "i < 512" "in_range (a + of_nat (8 * i)) 8 x"
  shows "x \<in> page a"
proof -
  have "8 * i + 8 \<le> 4096" using assms(2) by simp
  from assms(3) obtain j where j: "j < 8" "x = a + of_nat (8 * i) + of_nat j"
    by (auto simp: in_range_iff)
  then have "x = a + of_nat (8 * i + j)" by (simp add: add.assoc)
  moreover have "8 * i + j < 4096" using j \<open>8 * i + 8 \<le> 4096\<close> by simp
  ultimately have "in_range a 4096 x" by (subst in_range_iff) (auto simp del: of_nat_add)
  then show ?thesis using page_range[OF assms(1)] by simp
qed

lemma word_in_page0: "aligned a \<Longrightarrow> in_range a 8 x \<Longrightarrow> x \<in> page a"
  using word_in_page[of a 0 x] by simp

lemma write64_words:
  assumes "aligned a" "i < 512" "j < 512"
  shows "read64 (write64 (a + of_nat (8 * i)) v m) (a + of_nat (8 * j)) =
    (if i = j then v else read64 m (a + of_nat (8 * j)))"
proof (cases "i = j")
  case False
  have u: "unat (a + of_nat (8 * k)) = unat a + 8 * k" if "k < 512" for k
    using that aligned_top[OF assms(1)] by (intro unat_add_of_nat) simp
  have "\<not> in_range (a + of_nat (8 * i)) 8 x" if "in_range (a + of_nat (8 * j)) 8 x" for x
  proof
    assume "in_range (a + of_nat (8 * i)) 8 x"
    then obtain p where p: "p < 8" "x = a + of_nat (8 * i + p)" by (auto simp: in_range_iff add.assoc)
    from that obtain q where q: "q < 8" "x = a + of_nat (8 * j + q)"
      by (auto simp: in_range_iff add.assoc)
    have "unat a + (8 * i + p) = unat a + (8 * j + q)"
    proof -
      have "unat (a + of_nat (8 * i + p)) = unat a + (8 * i + p)"
        using assms p aligned_top[OF assms(1)] by (intro unat_add_of_nat) simp
      moreover have "unat (a + of_nat (8 * j + q)) = unat a + (8 * j + q)"
        using assms q aligned_top[OF assms(1)] by (intro unat_add_of_nat) simp
      ultimately show ?thesis using p(2) q(2) by metis
    qed
    then show False using p(1) q(1) False by presburger
  qed
  then have "read64 (write64 (a + of_nat (8 * i)) v m) (a + of_nat (8 * j)) = read64 m (a + of_nat (8 * j))"
    by (intro read64_cong write64_other) blast
  then show ?thesis using False by simp
qed simp

lemma read64_page:
  assumes "aligned a" "i < 512" "\<And>x. x \<in> page a \<Longrightarrow> m x = m' x"
  shows "read64 m (a + of_nat (8 * i)) = read64 m' (a + of_nat (8 * i))"
  using assms word_in_page by (intro read64_cong) blast

lemma memset_page:
  assumes "aligned a"
  shows "memset a c 4096 m x = (if x \<in> page a then c else m x)"
  using page_range[OF assms] by (simp add: memset_spec)

lemma write64_page:
  assumes "aligned a" "i < 512" "x \<notin> page a"
  shows "write64 (a + of_nat (8 * i)) v m x = m x"
  using assms word_in_page by (intro write64_other) blast

end
