(* ===== verification/Kalloc.thy ===== *)
theory Kalloc
  imports Mem KState
begin

text \<open>
  The page allocator, \<^verbatim>\<open>kernel/kalloc.c\<close>. The free list runs through the free pages
  themselves: the first word of a free page is the address of the next one
  (\<^verbatim>\<open>struct run\<close>), 0 at the end. The refinement to a list of pages is \<open>free_list\<close>.
\<close>

abbreviation (input) KERNBASE :: u64 where "KERNBASE \<equiv> 0x80000000"
abbreviation (input) PHYSTOP :: u64 where "PHYSTOP \<equiv> 0x88000000"

section \<open>Operations\<close>

definition kfree :: "u64 \<Rightarrow> 'a kcore_scheme \<Rightarrow> 'a kcore_scheme res" where
  "kfree pa s =
    (if pa mod PGSIZE \<noteq> 0 \<or> pa < kern_end s \<or> pa \<ge> PHYSTOP then Panic ''kfree''
     else
       let m = memset pa 1 4096 (mem s);
           m = write64 pa (freelist s) m
       in Ok (s\<lparr>mem := m, freelist := pa\<rparr>))"

definition kalloc :: "'a kcore_scheme \<Rightarrow> u64 \<times> 'a kcore_scheme" where
  "kalloc s =
    (let r = freelist s in
     if r \<noteq> 0 then (r, s\<lparr>mem := memset r 5 4096 (mem s), freelist := read64 (mem s) r\<rparr>)
     else (r, s))"

text \<open>\<open>kfree\<close> panics on pages from \<open>PHYSTOP\<close> on, so the loop ends.\<close>

function freerange_loop :: "u64 \<Rightarrow> u64 \<Rightarrow> 'a kcore_scheme \<Rightarrow> 'a kcore_scheme res" where
  "freerange_loop p pa_end s =
    (if p + PGSIZE \<le> pa_end
     then and_then (kfree p s) (\<lambda>s. freerange_loop (p + PGSIZE) pa_end s) else Ok s)"
  by auto
termination
proof (relation "measure (\<lambda>(p, e, s). unat (0x90000000 :: u64) - unat p)")
  fix p pa_end :: u64 and s x :: "'a kcore_scheme"
  assume "kfree p s = Ok x"
  then have "p < PHYSTOP" by (auto simp: kfree_def split: if_splits)
  then have "unat p < 0x88000000" by (simp add: word_less_nat_alt)
  moreover from this have "unat (p + PGSIZE) = unat p + 4096"
    using unat_add_of_nat[of p 4096] by simp
  ultimately show "((p + PGSIZE, pa_end, x), p, pa_end, s)
      \<in> measure (\<lambda>(p, e, s). unat (0x90000000 :: u64) - unat p)" by simp
qed simp

definition freerange :: "u64 \<Rightarrow> u64 \<Rightarrow> 'a kcore_scheme \<Rightarrow> 'a kcore_scheme res" where
  "freerange pa_start pa_end s = freerange_loop (PGROUNDUP pa_start) pa_end s"

definition kinit :: "'a kcore_scheme \<Rightarrow> 'a kcore_scheme res" where
  "kinit s = freerange (kern_end s) PHYSTOP s"

declare freerange_loop.simps [simp del]

section \<open>The free list\<close>

fun flist :: "memory \<Rightarrow> u64 \<Rightarrow> u64 list \<Rightarrow> bool" where
  "flist m p [] \<longleftrightarrow> p = 0"
| "flist m p (x # xs) \<longleftrightarrow> p = x \<and> x \<noteq> 0 \<and> flist m (read64 m x) xs"

text \<open>A page the allocator manages.\<close>

definition pg_ok :: "'a kcore_scheme \<Rightarrow> u64 \<Rightarrow> bool" where
  "pg_ok s a \<longleftrightarrow> aligned a \<and> kern_end s \<le> a \<and> a < PHYSTOP \<and> a \<noteq> 0"

definition free_list :: "'a kcore_scheme \<Rightarrow> u64 list \<Rightarrow> bool" where
  "free_list s xs \<longleftrightarrow> flist (mem s) (freelist s) xs \<and> distinct xs \<and> (\<forall>x \<in> set xs. pg_ok s x)"

lemma flist_cong:
  assumes "flist m p xs" "\<And>x a. x \<in> set xs \<Longrightarrow> a \<in> page x \<Longrightarrow> m' a = m a"
    "\<And>x. x \<in> set xs \<Longrightarrow> aligned x"
  shows "flist m' p xs"
  using assms
proof (induction xs arbitrary: p)
  case (Cons x xs)
  have "read64 m' x = read64 m x"
    by (rule read64_cong) (use Cons.prems(2)[of x] Cons.prems(3)[of x] word_in_page0 in auto)
  moreover have "flist m' (read64 m x) xs"
    by (rule Cons.IH) (use Cons.prems in auto)
  ultimately show ?case using Cons.prems(1) by simp
qed simp

lemma flist_unique: "flist m p xs \<Longrightarrow> flist m p ys \<Longrightarrow> xs = ys"
proof (induction xs arbitrary: p ys)
  case Nil
  then show ?case by (cases ys) auto
next
  case (Cons x xs)
  then show ?case by (cases ys) auto
qed

text \<open>\<open>core_frame P s s'\<close>: the states agree but for the free list and the memory of the
  pages \<open>P\<close>.\<close>

definition core_frame :: "u64 set \<Rightarrow> 'a kcore_scheme \<Rightarrow> 'a kcore_scheme \<Rightarrow> bool" where
  "core_frame P s s' \<longleftrightarrow> s' = s\<lparr>mem := mem s', freelist := freelist s'\<rparr> \<and>
     (\<forall>a. a \<notin> \<Union> (page ` P) \<longrightarrow> mem s' a = mem s a)"

lemma core_frame_refl [simp]: "core_frame P s s"
  by (simp add: core_frame_def)

lemma core_frame_mono: "core_frame P s s' \<Longrightarrow> P \<subseteq> Q \<Longrightarrow> core_frame Q s s'"
  unfolding core_frame_def by blast

lemma core_frame_trans:
  assumes "core_frame P s s'" "core_frame Q s' s''"
  shows "core_frame (P \<union> Q) s s''"
proof -
  have "s'' = s\<lparr>mem := mem s'', freelist := freelist s''\<rparr>"
    using assms unfolding core_frame_def by (cases s; cases s'; cases s'') simp
  then show ?thesis using assms by (auto simp: core_frame_def)
qed

lemma core_frame_fields:
  assumes "core_frame P s s'"
  shows "kern_end s' = kern_end s" "kern_etext s' = kern_etext s" "trampoline_pa s' = trampoline_pa s"
    "locals s' = locals s" "kernel_pagetable s' = kernel_pagetable s" "procs s' = procs s"
    "curp s' = curp s" "nextpid s' = nextpid s" "initproc s' = initproc s"
    "kcore.more s' = kcore.more s"
  using assms unfolding core_frame_def by (cases s; cases s'; simp)+

lemma core_frame_mem: "core_frame P s s' \<Longrightarrow> (\<And>p. p \<in> P \<Longrightarrow> a \<notin> page p) \<Longrightarrow> mem s' a = mem s a"
  by (auto simp: core_frame_def)

section \<open>The allocator as an interface\<close>

text \<open>What the rest of the kernel relies on: \<open>avail s xs\<close> says that the pages \<open>xs\<close> are free,
  \<open>managed s x\<close> that \<open>x\<close> may be freed, and \<open>touches P s s'\<close> that only the pages \<open>P\<close> and the
  allocator's own data differ.\<close>

locale page_allocator =
  fixes alloc :: "'s \<Rightarrow> u64 \<times> 's"
    and free :: "u64 \<Rightarrow> 's \<Rightarrow> 's res"
    and avail :: "'s \<Rightarrow> u64 list \<Rightarrow> bool"
    and managed :: "'s \<Rightarrow> u64 \<Rightarrow> bool"
    and touches :: "u64 set \<Rightarrow> 's \<Rightarrow> 's \<Rightarrow> bool"
  assumes alloc_none: "avail s [] \<Longrightarrow> alloc s = (0, s)"
    and alloc_some: "avail s (x # xs) \<Longrightarrow>
      x \<noteq> 0 \<and> managed s x \<and> x \<notin> set xs \<and> (\<exists>s'. alloc s = (x, s') \<and> avail s' xs \<and> touches {x} s s')"
    and free_law: "avail s xs \<Longrightarrow> managed s x \<Longrightarrow> x \<notin> set xs \<Longrightarrow>
      \<exists>s'. free x s = Ok s' \<and> avail s' (x # xs) \<and> touches {x} s s'"
    and touches_managed: "touches P s s' \<Longrightarrow> managed s' x = managed s x"
    and touches_trans: "touches P s s' \<Longrightarrow> touches Q s' s'' \<Longrightarrow> touches (P \<union> Q) s s''"
begin

text \<open>Two pages allocated one after the other are different.\<close>

lemma alloc_twice:
  assumes "avail s xs" "alloc s = (x, s1)" "alloc s1 = (y, s2)" "y \<noteq> 0"
  shows "x \<noteq> 0 \<and> x \<noteq> y \<and> touches {x, y} s s2"
proof (cases xs)
  case Nil
  then show ?thesis using assms alloc_none by auto
next
  case (Cons a as)
  then have a: "x = a" "a \<noteq> 0" "a \<notin> set as" "avail s1 as" "touches {x} s s1"
    using alloc_some[of s a as] assms(1,2) by auto
  show ?thesis
  proof (cases as)
    case Nil
    then show ?thesis using a alloc_none[of s1] assms(3,4) by simp
  next
    case (Cons b bs)
    then have "y = b" "touches {y} s1 s2" using alloc_some[of s1 b bs] a(4) assms(3) by auto
    then show ?thesis using a Cons touches_trans[of "{x}" s s1 "{y}" s2]
      by (auto simp: insert_commute)
  qed
qed

text \<open>A page that is freed is the next one allocated, and the free pages are as before.\<close>

lemma free_then_alloc:
  assumes "avail s xs" "managed s x" "x \<notin> set xs"
  shows "\<exists>s1 s2. free x s = Ok s1 \<and> alloc s1 = (x, s2) \<and> avail s2 xs \<and> touches {x} s s2"
proof -
  from free_law[OF assms] obtain s1 where s1: "free x s = Ok s1" "avail s1 (x # xs)" "touches {x} s s1"
    by blast
  from alloc_some[OF s1(2)] obtain s2 where "alloc s1 = (x, s2)" "avail s2 xs" "touches {x} s1 s2"
    by blast
  then show ?thesis using s1 touches_trans[of "{x}" s s1 "{x}" s2] by auto
qed

end

lemma pg_ok_frame: "core_frame P s s' \<Longrightarrow> pg_ok s' x = pg_ok s x"
  by (simp add: pg_ok_def core_frame_fields)

lemma kalloc_law:
  assumes "free_list s (x # xs)"
  defines "s' \<equiv> s\<lparr>mem := memset x 5 4096 (mem s), freelist := read64 (mem s) x\<rparr>"
  shows "x \<noteq> 0" "pg_ok s x" "x \<notin> set xs" "kalloc s = (x, s')" "free_list s' xs" "core_frame {x} s s'"
proof -
  have f: "flist (mem s) (freelist s) (x # xs)" "distinct (x # xs)" "\<And>y. y \<in> set (x # xs) \<Longrightarrow> pg_ok s y"
    using assms(1) by (auto simp: free_list_def)
  then show "x \<noteq> 0" "pg_ok s x" "x \<notin> set xs" by simp_all
  then have al: "aligned x" by (simp add: pg_ok_def)
  show "kalloc s = (x, s')" using f(1) by (auto simp: kalloc_def s'_def Let_def)
  show fr: "core_frame {x} s s'" by (simp add: core_frame_def s'_def memset_page[OF al])
  have "flist (mem s') (read64 (mem s) x) xs"
  proof (rule flist_cong)
    show "flist (mem s) (read64 (mem s) x) xs" using f(1) by simp
    fix y a assume y: "y \<in> set xs" "a \<in> page y"
    then have "y \<noteq> x" using f(2) by auto
    then have "a \<notin> page x" using y page_disjoint by blast
    then show "mem s' a = mem s a" by (simp add: s'_def memset_page[OF al])
  qed (use f(3) in \<open>simp add: pg_ok_def\<close>)
  then show "free_list s' xs"
    using f pg_ok_frame[OF fr] by (simp add: free_list_def) (simp add: s'_def)
qed

lemma kfree_law:
  assumes "free_list s xs" "pg_ok s x" "x \<notin> set xs"
  shows "\<exists>s'. kfree x s = Ok s' \<and> free_list s' (x # xs) \<and> core_frame {x} s s'"
proof -
  let ?m = "write64 x (freelist s) (memset x 1 4096 (mem s))"
  define s' where "s' = s\<lparr>mem := ?m, freelist := x\<rparr>"
  have al: "aligned x" and x0: "x \<noteq> 0" using assms(2) by (simp_all add: pg_ok_def)
  have m: "?m a = mem s a" if "a \<notin> page x" for a
    using that write64_page[OF al, of 0] by (simp add: memset_page[OF al])
  have k: "kfree x s = Ok s'"
    using assms(2) by (auto simp: kfree_def pg_ok_def aligned_def s'_def Let_def not_less not_le)
  have fr: "core_frame {x} s s'" using m by (simp add: core_frame_def s'_def)
  have "flist ?m (freelist s) xs"
  proof (rule flist_cong)
    show "flist (mem s) (freelist s) xs" using assms(1) by (simp add: free_list_def)
    fix y a assume y: "y \<in> set xs" "a \<in> page y"
    then have "y \<noteq> x" using assms(3) by auto
    then show "?m a = mem s a" using m y page_disjoint by blast
  qed (use assms(1) in \<open>simp add: free_list_def pg_ok_def\<close>)
  then have "free_list s' (x # xs)"
    using assms x0 pg_ok_frame[OF fr] by (simp add: free_list_def) (simp add: s'_def)
  then show ?thesis using k fr by blast
qed

interpretation pa: page_allocator kalloc kfree free_list pg_ok core_frame
proof
  fix s :: "'a kcore_scheme" assume "free_list s []"
  then show "kalloc s = (0, s)" by (simp add: free_list_def kalloc_def)
next
  fix s :: "'a kcore_scheme" and x xs assume "free_list s (x # xs)"
  then show "x \<noteq> 0 \<and> pg_ok s x \<and> x \<notin> set xs \<and>
      (\<exists>s'. kalloc s = (x, s') \<and> free_list s' xs \<and> core_frame {x} s s')"
    using kalloc_law[of s x xs] by simp
qed (rule kfree_law pg_ok_frame core_frame_trans; assumption)+


lemma core0_page:
  "free_list core0 []" "pg_ok core0 0x80030000" "pg_ok core0 0x80031000"
  by (simp_all add: core0_def free_list_def pg_ok_def aligned_def)


section \<open>Initialisation\<close>

lemma aligned_next:
  assumes "aligned p" "p < PHYSTOP"
  shows "unat (p + PGSIZE) = unat p + 4096" "aligned (p + PGSIZE)" "p + PGSIZE \<le> PHYSTOP"
    "aligned a \<Longrightarrow> p \<le> a \<longleftrightarrow> a = p \<or> p + PGSIZE \<le> a"
proof -
  have p: "unat p mod 4096 = 0" "unat p < 0x88000000"
    using assms by (simp_all add: aligned_unat word_less_nat_alt)
  then show u: "unat (p + PGSIZE) = unat p + 4096" using unat_add_of_nat[of p 4096] by simp
  show "aligned (p + PGSIZE)" unfolding aligned_unat u using p(1) by simp
  obtain k where k: "unat p = 4096 * k" using p(1) by auto
  then have "k < 557056" using p(2) by simp
  then have "unat p + 4096 \<le> 0x88000000" using k by simp
  then show "p + PGSIZE \<le> PHYSTOP" by (simp add: word_le_nat_alt u)
  assume "aligned a"
  then have "unat a mod 4096 = 0" by (simp add: aligned_unat)
  then obtain j where j: "unat a = 4096 * j" by auto
  have "unat p \<le> unat a \<longleftrightarrow> unat a = unat p \<or> unat p + 4096 \<le> unat a" using k j by auto
  then show "p \<le> a \<longleftrightarrow> a = p \<or> p + PGSIZE \<le> a"
    by (simp add: word_le_nat_alt u word_unat_eq_iff)
qed

lemma freerange_loop_spec:
  assumes "free_list s xs" "\<And>x. x \<in> set xs \<Longrightarrow> x < p" "aligned p" "kern_end s \<le> p" "p \<le> PHYSTOP" "p \<noteq> 0"
  shows "\<exists>s' ys. freerange_loop p PHYSTOP s = Ok s' \<and> free_list s' ys \<and>
    set ys = set xs \<union> {a. aligned a \<and> p \<le> a \<and> a < PHYSTOP} \<and> kern_end s' = kern_end s"
  using assms
proof (induction "0x88000000 - unat p" arbitrary: p s xs rule: less_induct)
  case less
  show ?case
  proof (cases "p = PHYSTOP")
    case True
    then have "freerange_loop p PHYSTOP s = Ok s" by (subst freerange_loop.simps) simp
    then show ?thesis using less.prems True by (intro exI[of _ s] exI[of _ xs]) auto
  next
    case False
    then have p: "p < PHYSTOP" using less.prems(5) by simp
    note nx = aligned_next[OF less.prems(3) p]
    have "pg_ok s p" "p \<notin> set xs" using less.prems p by (auto simp: pg_ok_def)
    from kfree_law[OF less.prems(1) this] obtain s1 where
      s1: "kfree p s = Ok s1" "free_list s1 (p # xs)" "core_frame {p} s s1" by blast
    note ke = core_frame_fields(1)[OF s1(3)]
    have lt: "p < p + PGSIZE" using nx(1) by (simp add: word_less_nat_alt)
    have "\<exists>s' ys. freerange_loop (p + PGSIZE) PHYSTOP s1 = Ok s' \<and> free_list s' ys \<and>
      set ys = set (p # xs) \<union> {a. aligned a \<and> p + PGSIZE \<le> a \<and> a < PHYSTOP} \<and> kern_end s' = kern_end s1"
    proof (rule less.hyps)
      show "0x88000000 - unat (p + PGSIZE) < 0x88000000 - unat p"
        using p nx(1) by (simp add: word_less_nat_alt)
      show "x < p + PGSIZE" if "x \<in> set (p # xs)" for x
        using that less.prems(2) lt by (auto intro: less_trans)
      show "p + PGSIZE \<noteq> 0" using nx(1) by (metis add_is_0 unat_0 zero_neq_numeral)
      show "kern_end s1 \<le> p + PGSIZE" using less.prems(4) lt ke by simp
    qed (use s1 nx in simp_all)
    moreover have "freerange_loop p PHYSTOP s = freerange_loop (p + PGSIZE) PHYSTOP s1"
      using nx(3) s1(1) by (subst freerange_loop.simps) simp
    moreover have "set (p # xs) \<union> {a. aligned a \<and> p + PGSIZE \<le> a \<and> a < PHYSTOP} =
        set xs \<union> {a. aligned a \<and> p \<le> a \<and> a < PHYSTOP}"
      using nx(4) less.prems(3) p by auto
    ultimately show ?thesis using ke by simp
  qed
qed

lemma PGROUNDUP_spec:
  assumes "unat a \<le> 2 ^ 63"
  shows "aligned (PGROUNDUP a)" "a \<le> PGROUNDUP a" "unat (PGROUNDUP a) < unat a + 4096"
proof -
  have e: "PGROUNDUP a = PGROUNDDOWN (a + 4095)" by (simp add: PGROUNDUP_def PGROUNDDOWN_def add.commute)
  have u: "unat (a + 4095) = unat a + 4095" using assms unat_add_of_nat[of a 4095] by simp
  show "aligned (PGROUNDUP a)" by (simp add: e)
  have "unat (PGROUNDUP a) = 4096 * ((unat a + 4095) div 4096)" by (simp add: e unat_PGROUNDDOWN u)
  moreover have "unat a + 4095 = 4096 * ((unat a + 4095) div 4096) + (unat a + 4095) mod 4096"
    by simp
  moreover have "(unat a + 4095) mod 4096 \<le> 4095" by simp
  ultimately have "unat a \<le> unat (PGROUNDUP a) \<and> unat (PGROUNDUP a) < unat a + 4096" by linarith
  then show "a \<le> PGROUNDUP a" "unat (PGROUNDUP a) < unat a + 4096" by (simp_all add: word_le_nat_alt)
qed

text \<open>C8: after \<^verbatim>\<open>kinit\<close> the free list holds every whole page between the end of the kernel
  and the end of RAM exactly once.\<close>

theorem kinit_all_pages:
  assumes "freelist s = 0" "0 < kern_end s" "kern_end s \<le> PHYSTOP"
  shows "\<exists>s' xs. kinit s = Ok s' \<and> free_list s' xs \<and> distinct xs \<and>
    set xs = {a. aligned a \<and> kern_end s \<le> a \<and> a < PHYSTOP}"
proof -
  let ?p = "PGROUNDUP (kern_end s)"
  have u: "unat (kern_end s) \<le> 0x88000000" using assms(3) by (simp add: word_le_nat_alt)
  note r = PGROUNDUP_spec[of "kern_end s"]
  have r': "aligned ?p" "kern_end s \<le> ?p" "unat ?p < unat (kern_end s) + 4096" using r u by simp_all
  have top: "?p \<le> PHYSTOP"
  proof -
    obtain k where k: "unat ?p = 4096 * k" using r'(1) by (auto simp: aligned_unat)
    then have "k < 557057" using r'(3) u by simp
    then have "unat ?p \<le> 0x88000000" using k by simp
    then show ?thesis by (simp add: word_le_nat_alt)
  qed
  have "free_list s []" using assms(1) by (simp add: free_list_def)
  moreover have "?p \<noteq> 0" using assms(2) r'(2) by auto
  ultimately have "\<exists>s' ys. freerange_loop ?p PHYSTOP s = Ok s' \<and> free_list s' ys \<and>
    set ys = set [] \<union> {a. aligned a \<and> ?p \<le> a \<and> a < PHYSTOP} \<and> kern_end s' = kern_end s"
    using r' top by (intro freerange_loop_spec) simp_all
  moreover have "{a. aligned a \<and> ?p \<le> a \<and> a < PHYSTOP} = {a. aligned a \<and> kern_end s \<le> a \<and> a < PHYSTOP}"
  proof -
    have "?p \<le> a" if a: "aligned a" "kern_end s \<le> a" for a
    proof -
      obtain j where "unat a = 4096 * j" using a by (auto simp: aligned_unat)
      moreover obtain k where "unat ?p = 4096 * k" using r'(1) by (auto simp: aligned_unat)
      moreover have "unat (kern_end s) \<le> unat a" using a by (simp add: word_le_nat_alt)
      ultimately have "unat ?p \<le> unat a" using r'(3) by simp
      then show ?thesis by (simp add: word_le_nat_alt)
    qed
    then show ?thesis using r'(2) by (auto intro: order_trans)
  qed
  ultimately show ?thesis by (auto simp: kinit_def freerange_def free_list_def)
qed

text \<open>Witness: the pages of a machine whose kernel ends at \<^verbatim>\<open>0x80030000\<close>.\<close>

lemma kinit_all_pages_witness:
  "\<exists>s' xs. kinit core0 = Ok s' \<and> free_list s' xs \<and> 0x80030000 \<in> set xs \<and> 0x87fff000 \<in> set xs"
proof -
  from kinit_all_pages[of core0] obtain s' xs where
    "kinit core0 = Ok s'" "free_list s' xs" "set xs = {a. aligned a \<and> 0x80030000 \<le> a \<and> a < PHYSTOP}"
    by (auto simp: core0_def)
  then show ?thesis by (intro exI[of _ s'] exI[of _ xs]) (simp add: aligned_def)
qed

end
