(* ===== verification/Vm.thy ===== *)
theory Vm
  imports Kalloc
begin

text \<open>
  Page tables, \<^verbatim>\<open>kernel/vm.c\<close>: the Sv39 tables in physical memory, mapping and unmapping
  user pages, growing, copying and freeing an address space, and the copies between
  kernel and user memory. A page table is the address of its root page. A kernel buffer a
  copy reads from is the list of its bytes; a copy into a kernel buffer returns the bytes
  it wrote there.
\<close>

section \<open>Addresses and page table entries\<close>

abbreviation (input) MAXVA :: u64 where "MAXVA \<equiv> 0x4000000000"
abbreviation (input) TRAMPOLINE :: u64 where "TRAMPOLINE \<equiv> 0x3ffffff000"
abbreviation (input) TRAPFRAME :: u64 where "TRAPFRAME \<equiv> 0x3fffffe000"
abbreviation (input) UART0 :: u64 where "UART0 \<equiv> 0x10000000"
abbreviation (input) VIRTIO0 :: u64 where "VIRTIO0 \<equiv> 0x10001000"
abbreviation (input) PLIC :: u64 where "PLIC \<equiv> 0x0c000000"
abbreviation (input) PTE_V :: u64 where "PTE_V \<equiv> 1"
abbreviation (input) PTE_R :: u64 where "PTE_R \<equiv> 2"
abbreviation (input) PTE_W :: u64 where "PTE_W \<equiv> 4"
abbreviation (input) PTE_X :: u64 where "PTE_X \<equiv> 8"
abbreviation (input) PTE_U :: u64 where "PTE_U \<equiv> 16"

definition KSTACK :: "nat \<Rightarrow> u64" where
  "KSTACK p = TRAMPOLINE - (of_nat p + 1) * 2 * PGSIZE"

definition PA2PTE :: "u64 \<Rightarrow> u64" where
  "PA2PTE pa = push_bit 10 (drop_bit 12 pa)"

definition PTE2PA :: "u64 \<Rightarrow> u64" where
  "PTE2PA pte = push_bit 12 (drop_bit 10 pte)"

definition PTE_FLAGS :: "u64 \<Rightarrow> u64" where
  "PTE_FLAGS pte = pte AND 0x3FF"

definition PX :: "nat \<Rightarrow> u64 \<Rightarrow> u64" where
  "PX level va = drop_bit (12 + 9 * level) va AND 0x1FF"

section \<open>Walking and mapping\<close>

text \<open>One level of \<open>walk\<close>: the next table, or \<open>None\<close> when there is none and none is made.\<close>

definition walk_level ::
  "nat \<Rightarrow> u64 \<Rightarrow> bool \<Rightarrow> u64 \<Rightarrow> 'a kcore_scheme \<Rightarrow> u64 option \<times> 'a kcore_scheme" where
  "walk_level level va alloc pagetable s =
    (let pte = pagetable + 8 * PX level va; w = read64 (mem s) pte in
     if w AND PTE_V \<noteq> 0 then (Some (PTE2PA w), s)
     else if \<not> alloc then (None, s)
     else
       let (pagetable, s) = kalloc s in
       if pagetable = 0 then (None, s)
       else
         let s = s\<lparr>mem := memset pagetable 0 4096 (mem s)\<rparr>;
             s = s\<lparr>mem := write64 pte (PA2PTE pagetable OR PTE_V) (mem s)\<rparr>
         in (Some pagetable, s))"

definition walk :: "u64 \<Rightarrow> u64 \<Rightarrow> bool \<Rightarrow> 'a kcore_scheme \<Rightarrow> (u64 \<times> 'a kcore_scheme) res" where
  "walk pagetable va alloc s =
    (if va \<ge> MAXVA then Panic ''walk''
     else case walk_level 2 va alloc pagetable s of
       (None, s) \<Rightarrow> Ok (0, s)
     | (Some pt1, s) \<Rightarrow>
         (case walk_level 1 va alloc pt1 s of
            (None, s) \<Rightarrow> Ok (0, s)
          | (Some pt0, s) \<Rightarrow> Ok (pt0 + 8 * PX 0 va, s)))"

definition walkaddr :: "u64 \<Rightarrow> u64 \<Rightarrow> 'a kcore_scheme \<Rightarrow> u64" where
  "walkaddr pagetable va s =
    (if va \<ge> MAXVA then 0
     else case walk pagetable va False s of
       Ok (pte, s) \<Rightarrow>
         (if pte = 0 then 0
          else let w = read64 (mem s) pte in
            if w AND PTE_V = 0 then 0 else if w AND PTE_U = 0 then 0 else PTE2PA w)
     | _ \<Rightarrow> 0)"

definition mappages_step ::
  "u64 \<Rightarrow> u64 \<Rightarrow> u64 \<Rightarrow> u64 \<times> u64 \<times> 'a kcore_scheme \<Rightarrow>
   (u64 \<times> u64 \<times> 'a kcore_scheme, int \<times> 'a kcore_scheme) ctl res" where
  "mappages_step pagetable last_va perm = (\<lambda>(a, pa, s).
    and_then (walk pagetable a True s) (\<lambda>(pte, s).
    if pte = 0 then Ok (Done (-1, s))
    else if read64 (mem s) pte AND PTE_V \<noteq> 0 then Panic ''mappages: remap''
    else
      let s = s\<lparr>mem := write64 pte (PA2PTE pa OR perm OR PTE_V) (mem s)\<rparr> in
      if a = last_va then Ok (Done (0, s)) else Ok (Next (a + PGSIZE, pa + PGSIZE, s))))"

definition mappages ::
  "u64 \<Rightarrow> u64 \<Rightarrow> u64 \<Rightarrow> u64 \<Rightarrow> u64 \<Rightarrow> 'a kcore_scheme \<Rightarrow> (int \<times> 'a kcore_scheme) res" where
  "mappages pagetable va sz pa perm s =
    (if sz = 0 then Panic ''mappages: size''
     else
       let a = PGROUNDDOWN va; last_va = PGROUNDDOWN (va + sz - 1) in
       loop (Suc (unat ((last_va - a) div PGSIZE))) (mappages_step pagetable last_va perm) (a, pa, s))"

definition kvmmap ::
  "u64 \<Rightarrow> u64 \<Rightarrow> u64 \<Rightarrow> u64 \<Rightarrow> u64 \<Rightarrow> 'a kcore_scheme \<Rightarrow> 'a kcore_scheme res" where
  "kvmmap kpgtbl va pa sz perm s =
    and_then (mappages kpgtbl va sz pa perm s) (\<lambda>(r, s).
      if r \<noteq> 0 then Panic ''kvmmap'' else Ok s)"

text \<open>\<^verbatim>\<open>proc_mapstacks\<close> of \<^verbatim>\<open>proc.c\<close>: a stack page for each process.\<close>

definition proc_mapstacks :: "u64 \<Rightarrow> 'a kcore_scheme \<Rightarrow> 'a kcore_scheme res" where
  "proc_mapstacks kpgtbl s =
    for_each (\<lambda>p s.
      let (pa, s) = kalloc s in
      if pa = 0 then Panic ''kalloc''
      else kvmmap kpgtbl (KSTACK p) pa PGSIZE (PTE_R OR PTE_W) s) [0..<NPROC] s"

definition kvmmake :: "'a kcore_scheme \<Rightarrow> (u64 \<times> 'a kcore_scheme) res" where
  "kvmmake s =
    (let (kpgtbl, s) = kalloc s; s = s\<lparr>mem := memset kpgtbl 0 4096 (mem s)\<rparr> in
     and_then (kvmmap kpgtbl UART0 UART0 PGSIZE (PTE_R OR PTE_W) s) (\<lambda>s.
     and_then (kvmmap kpgtbl VIRTIO0 VIRTIO0 PGSIZE (PTE_R OR PTE_W) s) (\<lambda>s.
     and_then (kvmmap kpgtbl PLIC PLIC 0x400000 (PTE_R OR PTE_W) s) (\<lambda>s.
     and_then (kvmmap kpgtbl KERNBASE KERNBASE (kern_etext s - KERNBASE) (PTE_R OR PTE_X) s) (\<lambda>s.
     and_then (kvmmap kpgtbl (kern_etext s) (kern_etext s) (PHYSTOP - kern_etext s)
                 (PTE_R OR PTE_W) s) (\<lambda>s.
     and_then (kvmmap kpgtbl TRAMPOLINE (trampoline_pa s) PGSIZE (PTE_R OR PTE_X) s) (\<lambda>s.
     and_then (proc_mapstacks kpgtbl s) (\<lambda>s. Ok (kpgtbl, s)))))))))"

definition kvminit :: "'a kcore_scheme \<Rightarrow> 'a kcore_scheme res" where
  "kvminit s = and_then (kvmmake s) (\<lambda>(kpgtbl, s). Ok (s\<lparr>kernel_pagetable := kpgtbl\<rparr>))"

section \<open>User address spaces\<close>

definition uvmunmap_step ::
  "u64 \<Rightarrow> u64 \<Rightarrow> bool \<Rightarrow> u64 \<times> 'a kcore_scheme \<Rightarrow> (u64 \<times> 'a kcore_scheme, 'a kcore_scheme) ctl res" where
  "uvmunmap_step pagetable end_va do_free = (\<lambda>(a, s).
    if \<not> a < end_va then Ok (Done s)
    else and_then (walk pagetable a False s) (\<lambda>(pte, s).
      if pte = 0 then Panic ''uvmunmap: walk''
      else let w = read64 (mem s) pte in
      if w AND PTE_V = 0 then Panic ''uvmunmap: not mapped''
      else if PTE_FLAGS w = PTE_V then Panic ''uvmunmap: not a leaf''
      else and_then (if do_free then kfree (PTE2PA w) s else Ok s) (\<lambda>s.
        Ok (Next (a + PGSIZE, s\<lparr>mem := write64 pte 0 (mem s)\<rparr>)))))"

definition uvmunmap ::
  "u64 \<Rightarrow> u64 \<Rightarrow> u64 \<Rightarrow> bool \<Rightarrow> 'a kcore_scheme \<Rightarrow> 'a kcore_scheme res" where
  "uvmunmap pagetable va npages do_free s =
    (if va mod PGSIZE \<noteq> 0 then Panic ''uvmunmap: not aligned''
     else loop (Suc (unat npages)) (uvmunmap_step pagetable (va + npages * PGSIZE) do_free) (va, s))"

definition uvmcreate :: "'a kcore_scheme \<Rightarrow> u64 \<times> 'a kcore_scheme" where
  "uvmcreate s =
    (let (pagetable, s) = kalloc s in
     if pagetable = 0 then (0, s) else (pagetable, s\<lparr>mem := memset pagetable 0 4096 (mem s)\<rparr>))"

definition uvmfirst :: "u64 \<Rightarrow> byte list \<Rightarrow> 'a kcore_scheme \<Rightarrow> 'a kcore_scheme res" where
  "uvmfirst pagetable src s =
    (if length src \<ge> 4096 then Panic ''uvmfirst: more than a page''
     else
       let (m, s) = kalloc s; s = s\<lparr>mem := memset m 0 4096 (mem s)\<rparr> in
       and_then (mappages pagetable 0 PGSIZE m (PTE_W OR PTE_R OR PTE_X OR PTE_U) s) (\<lambda>(_, s).
         Ok (s\<lparr>mem := mem_put m src (mem s)\<rparr>)))"

text \<open>The page count of \<open>uvmdealloc\<close> goes through a C \<^verbatim>\<open>int\<close>.\<close>

definition uvmdealloc ::
  "u64 \<Rightarrow> u64 \<Rightarrow> u64 \<Rightarrow> 'a kcore_scheme \<Rightarrow> (u64 \<times> 'a kcore_scheme) res" where
  "uvmdealloc pagetable oldsz newsz s =
    (if newsz \<ge> oldsz then Ok (oldsz, s)
     else if PGROUNDUP newsz < PGROUNDUP oldsz then
       let npages = (ucast ((PGROUNDUP oldsz - PGROUNDUP newsz) div PGSIZE) :: u32) in
       and_then (uvmunmap pagetable (PGROUNDUP newsz) (scast npages) True s) (\<lambda>s. Ok (newsz, s))
     else Ok (newsz, s))"

definition uvmalloc_step ::
  "u64 \<Rightarrow> u64 \<Rightarrow> u64 \<Rightarrow> u64 \<Rightarrow> u64 \<times> 'a kcore_scheme \<Rightarrow>
   (u64 \<times> 'a kcore_scheme, u64 \<times> 'a kcore_scheme) ctl res" where
  "uvmalloc_step pagetable oldsz newsz xperm = (\<lambda>(a, s).
    if \<not> a < newsz then Ok (Done (newsz, s))
    else
      let (m, s) = kalloc s in
      if m = 0 then
        and_then (uvmdealloc pagetable a oldsz s) (\<lambda>(_, s). Ok (Done (0, s)))
      else
        let s = s\<lparr>mem := memset m 0 4096 (mem s)\<rparr> in
        and_then (mappages pagetable a PGSIZE m (PTE_R OR PTE_U OR xperm) s) (\<lambda>(r, s).
          if r \<noteq> 0 then
            and_then (kfree m s) (\<lambda>s.
            and_then (uvmdealloc pagetable a oldsz s) (\<lambda>(_, s). Ok (Done (0, s))))
          else Ok (Next (a + PGSIZE, s))))"

definition uvmalloc ::
  "u64 \<Rightarrow> u64 \<Rightarrow> u64 \<Rightarrow> u64 \<Rightarrow> 'a kcore_scheme \<Rightarrow> (u64 \<times> 'a kcore_scheme) res" where
  "uvmalloc pagetable oldsz newsz xperm s =
    (if newsz < oldsz then Ok (oldsz, s)
     else
       let oldsz = PGROUNDUP oldsz in
       loop (Suc (Suc (unat (newsz div PGSIZE)))) (uvmalloc_step pagetable oldsz newsz xperm) (oldsz, s))"

text \<open>The recursion of \<open>freewalk\<close> follows the tables; \<open>depth\<close> bounds it. Tables made by
  \<open>walk\<close> have three levels.\<close>

fun freewalk :: "nat \<Rightarrow> u64 \<Rightarrow> 'a kcore_scheme \<Rightarrow> 'a kcore_scheme res" where
  "freewalk 0 pagetable s = Diverge"
| "freewalk (Suc depth) pagetable s =
    and_then (for_each (\<lambda>i s.
      let a = pagetable + of_nat (8 * i); pte = read64 (mem s) a in
      if pte AND PTE_V \<noteq> 0 \<and> pte AND (PTE_R OR PTE_W OR PTE_X) = 0 then
        and_then (freewalk depth (PTE2PA pte) s) (\<lambda>s. Ok (s\<lparr>mem := write64 a 0 (mem s)\<rparr>))
      else if pte AND PTE_V \<noteq> 0 then Panic ''freewalk: leaf''
      else Ok s) [0..<512] s)
    (\<lambda>s. kfree pagetable s)"

abbreviation (input) WALKDEPTH :: nat where "WALKDEPTH \<equiv> 4"

definition uvmfree :: "u64 \<Rightarrow> u64 \<Rightarrow> 'a kcore_scheme \<Rightarrow> 'a kcore_scheme res" where
  "uvmfree pagetable sz s =
    and_then (if sz > 0 then uvmunmap pagetable 0 (PGROUNDUP sz div PGSIZE) True s else Ok s)
      (\<lambda>s. freewalk WALKDEPTH pagetable s)"

definition uvmcopy_step ::
  "u64 \<Rightarrow> u64 \<Rightarrow> u64 \<Rightarrow> u64 \<times> 'a kcore_scheme \<Rightarrow> (u64 \<times> 'a kcore_scheme, int \<times> 'a kcore_scheme) ctl res" where
  "uvmcopy_step old new sz = (\<lambda>(i, s).
    if \<not> i < sz then Ok (Done (0, s))
    else and_then (walk old i False s) (\<lambda>(pte, s).
      if pte = 0 then Panic ''uvmcopy: pte should exist''
      else let w = read64 (mem s) pte in
      if w AND PTE_V = 0 then Panic ''uvmcopy: page not present''
      else
        let pa = PTE2PA w; flags = PTE_FLAGS w; (m, s) = kalloc s in
        if m = 0 then and_then (uvmunmap new 0 (i div PGSIZE) True s) (\<lambda>s. Ok (Done (-1, s)))
        else
          let s = s\<lparr>mem := memmove m pa 4096 (mem s)\<rparr> in
          and_then (mappages new i PGSIZE m flags s) (\<lambda>(r, s).
            if r \<noteq> 0 then
              and_then (kfree m s) (\<lambda>s.
              and_then (uvmunmap new 0 (i div PGSIZE) True s) (\<lambda>s. Ok (Done (-1, s))))
            else Ok (Next (i + PGSIZE, s)))))"

definition uvmcopy :: "u64 \<Rightarrow> u64 \<Rightarrow> u64 \<Rightarrow> 'a kcore_scheme \<Rightarrow> (int \<times> 'a kcore_scheme) res" where
  "uvmcopy old new sz s = loop (Suc (Suc (unat (sz div PGSIZE)))) (uvmcopy_step old new sz) (0, s)"

definition uvmclear :: "u64 \<Rightarrow> u64 \<Rightarrow> 'a kcore_scheme \<Rightarrow> 'a kcore_scheme res" where
  "uvmclear pagetable va s =
    and_then (walk pagetable va False s) (\<lambda>(pte, s).
      if pte = 0 then Panic ''uvmclear''
      else Ok (s\<lparr>mem := write64 pte (read64 (mem s) pte AND NOT PTE_U) (mem s)\<rparr>))"

section \<open>Copies between kernel and user memory\<close>

text \<open>Each turn of \<open>copyout\<close> and \<open>copyin\<close> handles the rest of one page; \<open>src\<close> is what is
  left to copy.\<close>

definition copyout_step ::
  "u64 \<Rightarrow> u64 \<times> byte list \<times> 'a kcore_scheme \<Rightarrow>
   (u64 \<times> byte list \<times> 'a kcore_scheme, int \<times> 'a kcore_scheme) ctl res" where
  "copyout_step pagetable = (\<lambda>(dstva, src, s).
    if src = [] then Ok (Done (0, s))
    else
      let va0 = PGROUNDDOWN dstva; pa0 = walkaddr pagetable va0 s in
      if pa0 = 0 then Ok (Done (-1, s))
      else
        let n = min (unat (PGSIZE - (dstva - va0))) (length src);
            s = s\<lparr>mem := mem_put (pa0 + (dstva - va0)) (take n src) (mem s)\<rparr>
        in Ok (Next (va0 + PGSIZE, drop n src, s)))"

definition copyout :: "u64 \<Rightarrow> u64 \<Rightarrow> byte list \<Rightarrow> 'a kcore_scheme \<Rightarrow> (int \<times> 'a kcore_scheme) res" where
  "copyout pagetable dstva src s = loop (Suc (length src)) (copyout_step pagetable) (dstva, src, s)"

text \<open>The result of \<open>copyin\<close> pairs the C return value with the bytes written to \<^verbatim>\<open>dst\<close>.\<close>

definition copyin_step ::
  "u64 \<Rightarrow> 'a kcore_scheme \<Rightarrow> u64 \<times> nat \<times> byte list \<Rightarrow> (u64 \<times> nat \<times> byte list, int \<times> byte list) ctl res" where
  "copyin_step pagetable s = (\<lambda>(srcva, len, dst).
    if len = 0 then Ok (Done (0, dst))
    else
      let va0 = PGROUNDDOWN srcva; pa0 = walkaddr pagetable va0 s in
      if pa0 = 0 then Ok (Done (-1, dst))
      else
        let n = min (unat (PGSIZE - (srcva - va0))) len
        in Ok (Next (va0 + PGSIZE, len - n, dst @ mem_get (pa0 + (srcva - va0)) n (mem s))))"

definition copyin :: "u64 \<Rightarrow> u64 \<Rightarrow> nat \<Rightarrow> 'a kcore_scheme \<Rightarrow> (int \<times> byte list) res" where
  "copyin pagetable srcva len s = loop (Suc len) (copyin_step pagetable s) (srcva, len, [])"

text \<open>The inner loop of \<open>copyinstr\<close>: at most \<open>n\<close> bytes from \<open>p\<close>; whether the terminator was
  found, and the bytes written.\<close>

fun copy_str :: "nat \<Rightarrow> u64 \<Rightarrow> memory \<Rightarrow> bool \<times> byte list" where
  "copy_str 0 p m = (False, [])"
| "copy_str (Suc n) p m =
    (if m p = 0 then (True, [0])
     else let (got_null, bs) = copy_str n (p + 1) m in (got_null, m p # bs))"

definition copyinstr_step ::
  "u64 \<Rightarrow> 'a kcore_scheme \<Rightarrow> u64 \<times> nat \<times> byte list \<Rightarrow> (u64 \<times> nat \<times> byte list, int \<times> byte list) ctl res" where
  "copyinstr_step pagetable s = (\<lambda>(srcva, max_len, dst).
    if max_len = 0 then Ok (Done (-1, dst))
    else
      let va0 = PGROUNDDOWN srcva; pa0 = walkaddr pagetable va0 s in
      if pa0 = 0 then Ok (Done (-1, dst))
      else
        let n = min (unat (PGSIZE - (srcva - va0))) max_len;
            (got_null, bs) = copy_str n (pa0 + (srcva - va0)) (mem s)
        in if got_null then Ok (Done (0, dst @ bs))
           else Ok (Next (va0 + PGSIZE, max_len - n, dst @ bs)))"

definition copyinstr :: "u64 \<Rightarrow> u64 \<Rightarrow> nat \<Rightarrow> 'a kcore_scheme \<Rightarrow> (int \<times> byte list) res" where
  "copyinstr pagetable srcva max_len s = loop (Suc max_len) (copyinstr_step pagetable s) (srcva, max_len, [])"

end
