(* ===== verification/PageTable.thy ===== *)
theory PageTable
  imports Vm "HOL-Library.Sublist"
begin

text \<open>
  What the page tables of \<^verbatim>\<open>kernel/vm.c\<close> mean. \<open>T\<close> names the pages of a table by the indices
  that lead to them: \<open>T []\<close> is the root, \<open>T [i]\<close> a level-1 and \<open>T [i, j]\<close> a level-0 page.
  \<open>pt_ok T s\<close> says that memory holds such a tree of distinct pages, and \<open>pte_of T s va\<close> is
  the leaf entry of a virtual address: the abstract address space. \<open>walk\<close> reads it and
  \<open>mappages\<close> updates it at the mapped pages only.
\<close>

section \<open>Encoding of entries\<close>

lemma bits_below:
  fixes w :: u64
  assumes "unat w < 2 ^ n" "bit w m"
  shows "m < n"
proof -
  have "bit (unat w) m" using assms(2) by (simp add: bit_unsigned_iff)
  moreover have "take_bit n (unat w) = unat w" using assms(1) by (simp add: take_bit_nat_eq_self_iff)
  ultimately show ?thesis by (metis bit_take_bit_iff)
qed

lemma low_bits: "(f :: u64) < 1024 \<Longrightarrow> bit f n \<Longrightarrow> n < 10"
  using bits_below[of f 10 n] by (simp add: word_less_nat_alt)

lemma aligned_bits: "aligned p \<Longrightarrow> bit p n \<Longrightarrow> 12 \<le> n"
proof -
  assume a: "aligned p" "bit p n"
  then have "take_bit 12 p = 0" by (simp add: aligned_def take_bit_eq_mod)
  then show "12 \<le> n" using a(2) by (metis bit_0_eq bit_take_bit_iff bot_apply bot_bool_def not_le)
qed

lemma PTE2PA_PA2PTE:
  assumes "aligned p" "f < 1024"
  shows "PTE2PA (PA2PTE p OR f) = p"
proof (rule bit_word_eqI)
  fix n assume n: "n < LENGTH(64)"
  have "\<not> bit f (n - 12 + 10)" using low_bits[OF assms(2), of "n - 12 + 10"] by auto
  then show "bit (PTE2PA (PA2PTE p OR f)) n = bit p n"
    using n aligned_bits[OF assms(1), of n]
    by (auto simp: PTE2PA_def PA2PTE_def bit_simps)
qed

lemma aligned_PTE2PA [simp]: "aligned (PTE2PA w)"
proof -
  have "take_bit 12 (PTE2PA w) = 0" by (rule bit_word_eqI) (simp add: PTE2PA_def bit_simps)
  then show ?thesis by (simp add: aligned_def take_bit_eq_mod)
qed

lemma PA2PTE_flags:
  assumes "g < 1024"
  shows "(PA2PTE p OR f) AND g = f AND g"
proof (rule bit_word_eqI)
  fix n assume "n < LENGTH(64)"
  show "bit ((PA2PTE p OR f) AND g) n = bit (f AND g) n"
    using low_bits[OF assms, of n] by (auto simp: PA2PTE_def bit_simps)
qed

lemma PX_lt: "unat (PX level va) < 512"
proof -
  have "PX level va = take_bit 9 (drop_bit (12 + 9 * level) va)"
    by (simp add: PX_def take_bit_eq_mask mask_eq_exp_minus_1)
  then have "unat (PX level va) = take_bit 9 (unat (drop_bit (12 + 9 * level) va))"
    by (simp add: unsigned_take_bit_eq)
  then show ?thesis using take_bit_nat_less_exp[of 9] by simp
qed

text \<open>The indices of an address, from the root down.\<close>

definition idx :: "nat \<Rightarrow> u64 \<Rightarrow> nat" where
  "idx level va = unat (PX level va)"

lemma idx_lt [simp]: "idx level va < 512"
  by (simp add: idx_def PX_lt)

lemma pte_addr: "p + 8 * PX level va = p + of_nat (8 * idx level va)"
  by (simp add: idx_def)

text \<open>Below \<open>MAXVA\<close> the three indices determine the page.\<close>

lemma idx_page:
  assumes "va < MAXVA" "vb < MAXVA" "\<And>l. l \<le> 2 \<Longrightarrow> idx l va = idx l vb"
  shows "PGROUNDDOWN va = PGROUNDDOWN vb"
proof (rule bit_word_eqI)
  fix n assume n: "n < LENGTH(64)"
  have px: "PX l va = PX l vb" if "l \<le> 2" for l
    using assms(3)[OF that] by (simp add: idx_def word_unat_eq_iff)
  have bit_px: "bit (PX l v) m \<longleftrightarrow> m < 9 \<and> bit v (12 + 9 * l + m)" for l v m
  proof -
    have "PX l v = take_bit 9 (drop_bit (12 + 9 * l) v)"
      by (simp add: PX_def take_bit_eq_mask mask_eq_exp_minus_1)
    then show ?thesis by (simp add: bit_simps)
  qed
  have rd: "bit (PGROUNDDOWN v) n \<longleftrightarrow> 12 \<le> n \<and> bit v n" for v
  proof -
    have "(PGSIZE :: u64) - 1 = mask 12" by (simp add: mask_eq_exp_minus_1)
    then have "PGROUNDDOWN v = v AND NOT (mask 12)" by (simp add: PGROUNDDOWN_def)
    then show ?thesis using n by (auto simp: bit_simps)
  qed
  have top: "\<not> bit v n" if "v < MAXVA" "39 \<le> n" for v
    using bits_below[of v 38 n] that by (auto simp: word_less_nat_alt)
  show "bit (PGROUNDDOWN va) n = bit (PGROUNDDOWN vb) n"
  proof (cases "12 \<le> n \<and> n < 39")
    case True
    define l where "l = (n - 12) div 9"
    have l: "l \<le> 2" "n = 12 + 9 * l + (n - 12) mod 9" using True by (auto simp: l_def)
    have "bit va n = bit vb n"
      using bit_px[of l va "(n - 12) mod 9"] bit_px[of l vb "(n - 12) mod 9"] px[OF l(1)] l(2) by simp
    then show ?thesis by (simp add: rd)
  next
    case False
    then show ?thesis using top[OF assms(1)] top[OF assms(2)] by (auto simp: rd)
  qed
qed

section \<open>Trees of table pages\<close>

type_synonym ptree = "nat list \<Rightarrow> u64 option"

definition pt_shape :: "ptree \<Rightarrow> bool" where
  "pt_shape T \<longleftrightarrow> T [] \<noteq> None \<and>
     (\<forall>k p. T k = Some p \<longrightarrow> aligned p \<and> p \<noteq> 0 \<and> length k \<le> 2) \<and>
     (\<forall>k l p. T k = Some p \<longrightarrow> T l = Some p \<longrightarrow> k = l) \<and>
     (\<forall>k i. T (k @ [i]) \<noteq> None \<longrightarrow> T k \<noteq> None)"

definition entry_ok :: "u64 option \<Rightarrow> u64 \<Rightarrow> bool" where
  "entry_ok t w \<longleftrightarrow> (case t of Some q \<Rightarrow> w = PA2PTE q OR PTE_V | None \<Rightarrow> w AND PTE_V = 0)"

definition pt_ok :: "ptree \<Rightarrow> 'a kcore_scheme \<Rightarrow> bool" where
  "pt_ok T s \<longleftrightarrow> pt_shape T \<and>
     (\<forall>k p i. T k = Some p \<longrightarrow> length k < 2 \<longrightarrow> i < 512 \<longrightarrow>
        entry_ok (T (k @ [i])) (read64 (mem s) (p + of_nat (8 * i))))"

lemma pt_okD:
  assumes "pt_ok T s" "T k = Some p"
  shows "aligned p" "p \<noteq> 0" "length k \<le> 2" "\<And>l. T l = Some p \<Longrightarrow> k = l"
  using assms unfolding pt_ok_def pt_shape_def by blast+

lemma pt_ok_prefix: "pt_ok T s \<Longrightarrow> T k = None \<Longrightarrow> T (k @ [i]) = None"
  unfolding pt_ok_def pt_shape_def by blast

lemma pt_ok_entry:
  assumes "pt_ok T s" "T k = Some p" "length k < 2" "i < 512"
  shows "entry_ok (T (k @ [i])) (read64 (mem s) (p + of_nat (8 * i)))"
  using assms unfolding pt_ok_def by blast

text \<open>The leaf entry of an address; 0 when no table covers it.\<close>

definition key :: "u64 \<Rightarrow> nat list" where
  "key va = [idx 2 va, idx 1 va]"

definition pte_of :: "ptree \<Rightarrow> 'a kcore_scheme \<Rightarrow> u64 \<Rightarrow> u64" where
  "pte_of T s va = (case T (key va) of None \<Rightarrow> 0 | Some p \<Rightarrow> read64 (mem s) (p + of_nat (8 * idx 0 va)))"

text \<open>Memory may change outside the table pages.\<close>

lemma pt_ok_frame:
  assumes "pt_ok T s" "core_frame P s s'" "\<And>k. T k \<notin> Some ` P"
    "\<And>p. p \<in> P \<Longrightarrow> aligned p"
  shows "pt_ok T s'" "pte_of T s' va = pte_of T s va"
proof -
  have same: "mem s' a = mem s a" if "T k = Some p" "a \<in> page p" for k p a
  proof (rule core_frame_mem[OF assms(2)])
    fix q assume "q \<in> P"
    then have "q \<noteq> p" using assms(3)[of k] that(1) by auto
    then show "a \<notin> page q" using that(2) page_disjoint by blast
  qed
  have rd: "read64 (mem s') (p + of_nat (8 * i)) = read64 (mem s) (p + of_nat (8 * i))"
    if "T k = Some p" "i < 512" for k p i
    using that pt_okD(1)[OF assms(1) that(1)] same by (intro read64_page) auto
  show "pt_ok T s'"
    unfolding pt_ok_def
  proof (intro conjI allI impI)
    show "pt_shape T" using assms(1) by (simp add: pt_ok_def)
    fix k p i assume k: "T k = Some p" "length k < 2" "i < (512 :: nat)"
    show "entry_ok (T (k @ [i])) (read64 (mem s') (p + of_nat (8 * i)))"
      unfolding rd[OF k(1,3)] by (rule pt_ok_entry[OF assms(1) k])
  qed
  show "pte_of T s' va = pte_of T s va"
    using rd[of "key va"] by (cases "T (key va)") (simp_all add: pte_of_def)
qed

section \<open>Walking\<close>

lemma walk_level_noalloc:
  assumes "pt_ok T s" "T k = Some p" "length k < 2"
  shows "walk_level l va False p s = (T (k @ [idx l va]), s)"
proof -
  have e: "entry_ok (T (k @ [idx l va])) (read64 (mem s) (p + of_nat (8 * idx l va)))"
    by (rule pt_ok_entry[OF assms]) simp
  show ?thesis
  proof (cases "T (k @ [idx l va])")
    case None
    then show ?thesis using e by (simp add: walk_level_def pte_addr Let_def entry_ok_def)
  next
    case (Some q)
    have "(PA2PTE q OR PTE_V) AND PTE_V \<noteq> 0" "PTE2PA (PA2PTE q OR PTE_V) = q"
      using pt_okD(1)[OF assms(1) Some] by (simp_all add: PTE2PA_PA2PTE PA2PTE_flags)
    then show ?thesis using Some e by (simp add: walk_level_def pte_addr Let_def entry_ok_def)
  qed
qed

lemma walk_noalloc:
  assumes "pt_ok T s" "T [] = Some root" "va < MAXVA"
  shows "walk root va False s =
    Ok (case T (key va) of None \<Rightarrow> 0 | Some p \<Rightarrow> p + of_nat (8 * idx 0 va), s)"
proof -
  have l2: "walk_level 2 va False root s = (T [idx 2 va], s)"
    using walk_level_noalloc[OF assms(1,2)] by simp
  show ?thesis
  proof (cases "T [idx 2 va]")
    case None
    then have "T (key va) = None"
      using pt_ok_prefix[OF assms(1) None, of "idx 1 va"] by (simp add: key_def)
    then show ?thesis using l2 None assms(3) by (simp add: walk_def not_le)
  next
    case (Some p1)
    then have "walk_level 1 va False p1 s = (T (key va), s)"
      using walk_level_noalloc[OF assms(1) Some] by (simp add: key_def)
    then show ?thesis
      using l2 Some assms(3) by (auto simp: walk_def not_le pte_addr split: option.splits)
  qed
qed

lemma leaf_nonzero:
  assumes "pt_ok T s" "T k = Some p" "i < 512"
  shows "p + of_nat (8 * i) \<noteq> 0"
proof -
  have a: "aligned p" "p \<noteq> 0" using pt_okD[OF assms(1,2)] by auto
  have "unat (p + of_nat (8 * i)) = unat p + 8 * i"
    using aligned_top[OF a(1)] assms(3) by (intro unat_add_of_nat) simp
  moreover have "unat p \<noteq> 0" using a(2) by (simp add: unat_eq_zero)
  ultimately show ?thesis by (metis add_is_0 unat_0)
qed

text \<open>\<open>walkaddr\<close> is the user-mode translation of the abstract address space.\<close>

lemma walkaddr_spec:
  assumes "pt_ok T s" "T [] = Some root" "va < MAXVA"
  shows "walkaddr root va s =
    (let w = pte_of T s va in if w AND PTE_V = 0 \<or> w AND PTE_U = 0 then 0 else PTE2PA w)"
proof -
  have va: "\<not> MAXVA \<le> va" using assms(3) by simp
  show ?thesis
  proof (cases "T (key va)")
    case None
    then show ?thesis unfolding walkaddr_def if_not_P[OF va]
      using walk_noalloc[OF assms] by (simp add: pte_of_def)
  next
    case (Some p)
    then show ?thesis unfolding walkaddr_def if_not_P[OF va]
      using walk_noalloc[OF assms] leaf_nonzero[OF assms(1) Some, of "idx 0 va"]
      by (simp add: pte_of_def Let_def)
  qed
qed

section \<open>Walking with allocation\<close>

text \<open>The tables, the free list, and that no table page is free.\<close>

definition vm_inv :: "ptree \<Rightarrow> u64 list \<Rightarrow> 'a kcore_scheme \<Rightarrow> bool" where
  "vm_inv T xs s \<longleftrightarrow> pt_ok T s \<and> free_list s xs \<and> ran T \<inter> set xs = {}"

text \<open>What allocation of table pages changes: tables are added, taken from the free list,
  and only free pages and table pages are written.\<close>

definition vm_step :: "ptree \<Rightarrow> u64 list \<Rightarrow> 'a kcore_scheme \<Rightarrow> ptree \<Rightarrow> u64 list \<Rightarrow> 'a kcore_scheme \<Rightarrow> bool" where
  "vm_step T xs s T' xs' s' \<longleftrightarrow> vm_inv T' xs' s' \<and> T \<subseteq>\<^sub>m T' \<and> suffix xs' xs \<and>
     ran T' \<subseteq> ran T \<union> set xs \<and> core_frame (ran T \<union> set xs) s s'"

lemma vm_step_refl: "vm_inv T xs s \<Longrightarrow> vm_step T xs s T xs s"
  by (simp add: vm_step_def)

lemma vm_step_trans:
  assumes "vm_step T xs s T1 xs1 s1" "vm_step T1 xs1 s1 T2 xs2 s2"
  shows "vm_step T xs s T2 xs2 s2"
proof -
  have "set xs1 \<subseteq> set xs" using assms(1) by (auto simp: vm_step_def dest: set_mono_suffix)
  then have sub: "ran T1 \<union> set xs1 \<subseteq> ran T \<union> set xs" using assms(1) by (auto simp: vm_step_def)
  have "core_frame (ran T \<union> set xs) s s1" "core_frame (ran T1 \<union> set xs1) s1 s2"
    using assms by (simp_all add: vm_step_def)
  from core_frame_trans[OF this] have "core_frame (ran T \<union> set xs) s s2" using sub by (simp add: sup.absorb1)
  moreover have "T \<subseteq>\<^sub>m T2" using assms map_le_trans by (auto simp: vm_step_def)
  moreover have "suffix xs2 xs" using assms by (auto simp: vm_step_def intro: suffix_order.order_trans)
  ultimately show ?thesis using assms(2) sub by (auto simp: vm_step_def)
qed

lemma pt_shape_extend:
  assumes "pt_shape T" "T k = Some p" "length k < 2" "T (k @ [i]) = None"
    "aligned x" "x \<noteq> 0" "x \<notin> ran T"
  shows "pt_shape (T(k @ [i] \<mapsto> x))"
proof -
  have ch: "T (k @ [i] @ [j]) = None" for j
    using assms(1,4) unfolding pt_shape_def by (metis append_assoc)
  have pre: "T k \<noteq> None" if "T (k @ [i]) \<noteq> None" for k i
    using assms(1) that unfolding pt_shape_def by blast
  have inj: "k = l" if "T k = Some p" "T l = Some p" for k l p
    using assms(1) that unfolding pt_shape_def by blast
  have x: "T l \<noteq> Some x" for l using assms(7) by (auto simp: ran_def)
  show ?thesis
    unfolding pt_shape_def
  proof (intro conjI allI impI)
    fix l q assume l: "(T(k @ [i] \<mapsto> x)) l = Some q"
    show "aligned q" "q \<noteq> 0" "length l \<le> 2"
      using l assms(1,3,5,6) by (auto simp: pt_shape_def split: if_splits)
    fix l' assume "(T(k @ [i] \<mapsto> x)) l' = Some q"
    then show "l = l'" using l inj x by (auto split: if_splits)
  next
    fix l j assume "(T(k @ [i] \<mapsto> x)) (l @ [j]) \<noteq> None"
    then show "(T(k @ [i] \<mapsto> x)) l \<noteq> None"
      using pre[of l j] assms(2) ch by (auto split: if_splits)
  qed (use assms(1) in \<open>simp add: pt_shape_def\<close>)
qed

lemma vm_extend:
  assumes inv: "vm_inv T (x # xs) s" and k: "T k = Some p" "length k < 2" "i < 512"
    and new: "T (k @ [i]) = None"
    and m: "m = write64 (p + of_nat (8 * i)) (PA2PTE x OR PTE_V) (memset x 0 4096 (memset x 5 4096 (mem s)))"
  defines "s' \<equiv> s\<lparr>mem := m, freelist := read64 (mem s) x\<rparr>"
  shows "vm_step T (x # xs) s (T(k @ [i] \<mapsto> x)) xs s'"
    and "pte_of (T(k @ [i] \<mapsto> x)) s' va = pte_of T s va"
proof -
  let ?T = "T(k @ [i] \<mapsto> x)"
  have pt: "pt_ok T s" and fl: "free_list s (x # xs)" and dis: "ran T \<inter> set (x # xs) = {}"
    using inv by (simp_all add: vm_inv_def)
  note ka = kalloc_law[OF fl]
  have xal: "aligned x" and x0: "x \<noteq> 0" using ka by (simp_all add: pg_ok_def)
  have pal: "aligned p" using pt_okD[OF pt k(1)] by simp
  have xT: "T l \<noteq> Some x" for l using dis by (auto simp: ran_def)
  then have px: "p \<noteq> x" using k(1) by auto
  have out: "m a = mem s a" if "a \<notin> page x" "a \<notin> page p" for a
    unfolding m write64_page[OF pal k(3) that(2)] using that(1) by (simp add: memset_page[OF xal])
  have inx: "m a = 0" if "a \<in> page x" for a
    unfolding m write64_page[OF pal k(3) page_disjoint[OF px[symmetric] that]]
    using that by (simp add: memset_page[OF xal])
  have rdx: "read64 m (x + of_nat (8 * j)) = 0" if "j < 512" for j
  proof -
    have "read64 m (x + of_nat (8 * j)) = read64 (\<lambda>_. 0) (x + of_nat (8 * j))"
      using inx that by (intro read64_page[OF xal]) simp_all
    then show ?thesis by (simp add: read64_def mem_get_def map_replicate_const)
  qed
  have rdp: "read64 m (p + of_nat (8 * j)) =
      (if j = i then PA2PTE x OR PTE_V else read64 (mem s) (p + of_nat (8 * j)))" if "j < 512" for j
  proof -
    have "read64 (memset x 0 4096 (memset x 5 4096 (mem s))) (p + of_nat (8 * j)) =
        read64 (mem s) (p + of_nat (8 * j))"
      using that px page_disjoint[of p x] by (intro read64_page[OF pal]) (auto simp: memset_page[OF xal])
    then show ?thesis unfolding m using write64_words[OF pal k(3) that] by simp
  qed
  have rdq: "read64 m (q + of_nat (8 * j)) = read64 (mem s) (q + of_nat (8 * j))"
    if "T l = Some q" "q \<noteq> p" "j < 512" for l q j
  proof (rule read64_page[OF _ that(3)])
    show "aligned q" using pt_okD[OF pt that(1)] by simp
    fix a assume "a \<in> page q"
    moreover have "q \<noteq> x" using that(1) xT by auto
    ultimately show "m a = mem s a" using out page_disjoint that(2) by blast
  qed
  have ch: "T (k @ [i, j]) = None" for j using pt_ok_prefix[OF pt new, of j] by simp
  have shape: "pt_shape ?T"
    by (rule pt_shape_extend[OF _ k(1,2) new xal x0]) (use pt xT in \<open>auto simp: pt_ok_def ran_def\<close>)
  have ok: "pt_ok ?T s'"
    unfolding pt_ok_def
  proof (intro conjI allI impI, rule shape)
    fix l q j assume l: "?T l = Some q" "length l < 2" "j < (512 :: nat)"
    show "entry_ok (?T (l @ [j])) (read64 (mem s') (q + of_nat (8 * j)))"
    proof (cases "l = k @ [i]")
      case True
      then show ?thesis using l rdx[OF l(3)] ch by (simp add: entry_ok_def s'_def)
    next
      case False
      then have Tl: "T l = Some q" using l(1) by simp
      note e = pt_ok_entry[OF pt Tl l(2,3)]
      show ?thesis
      proof (cases "l = k")
        case True
        then have "q = p" using Tl k(1) by simp
        then show ?thesis
          using True e rdp[OF l(3)] by (cases "j = i") (simp_all add: entry_ok_def[of "Some x"] s'_def)
      next
        case False
        then have "q \<noteq> p" using pt_okD(4)[OF pt k(1), of l] Tl by auto
        then show ?thesis using e False rdq[OF Tl _ l(3)] by (simp add: s'_def)
      qed
    qed
  qed
  have "core_frame {x, p} s s'" using out by (auto simp: core_frame_def s'_def)
  moreover have "{x, p} \<subseteq> ran T \<union> set (x # xs)" using k(1) by (auto simp: ran_def)
  ultimately have fr: "core_frame (ran T \<union> set (x # xs)) s s'" by (rule core_frame_mono)
  have "flist m (read64 (mem s) x) xs"
  proof (rule flist_cong)
    show "flist (mem s) (read64 (mem s) x) xs" using fl by (simp add: free_list_def)
    fix y a assume y: "y \<in> set xs" "a \<in> page y"
    have "y \<noteq> x" "y \<noteq> p" using y(1) ka(3) dis k(1) by (auto simp: ran_def)
    then show "m a = mem s a" using y(2) out page_disjoint by blast
  qed (use fl in \<open>auto simp: free_list_def pg_ok_def\<close>)
  then have "free_list s' xs"
    using fl pg_ok_frame[OF fr] by (simp add: free_list_def) (simp add: s'_def)
  moreover have "ran ?T \<subseteq> insert x (ran T)" by (auto simp: ran_def)
  moreover have "T \<subseteq>\<^sub>m ?T" using new by (auto simp: map_le_def)
  ultimately show "vm_step T (x # xs) s ?T xs s'"
    using ok fr dis ka(3) by (auto simp: vm_step_def vm_inv_def suffix_def)
  show "pte_of ?T s' va = pte_of T s va"
  proof (cases "key va = k @ [i]")
    case True
    then show ?thesis using new rdx by (simp add: pte_of_def s'_def)
  next
    case False
    show ?thesis
    proof (cases "T (key va)")
      case (Some q)
      have "key va \<noteq> k" using k(2) by (auto simp: key_def)
      then have "q \<noteq> p" using pt_okD(4)[OF pt k(1), of "key va"] Some by auto
      then show ?thesis using False Some rdq[OF Some] by (simp add: pte_of_def s'_def)
    qed (use False in \<open>simp add: pte_of_def\<close>)
  qed
qed

lemma walk_level_alloc:
  assumes inv: "vm_inv T xs s" and k: "T k = Some p" "length k < 2"
  shows "\<exists>s' T' ys. walk_level l va True p s = (T' (k @ [idx l va]), s') \<and> vm_step T xs s T' ys s' \<and>
    (\<forall>vb. pte_of T' s' vb = pte_of T s vb) \<and> (T' (k @ [idx l va]) = None \<longrightarrow> ys = [])"
proof -
  let ?i = "idx l va" and ?a = "p + of_nat (8 * idx l va)"
  have pt: "pt_ok T s" and fl: "free_list s xs" using inv by (simp_all add: vm_inv_def)
  have e: "entry_ok (T (k @ [?i])) (read64 (mem s) ?a)" by (rule pt_ok_entry[OF pt k]) simp
  show ?thesis
  proof (cases "T (k @ [?i])")
    case (Some q)
    have "(PA2PTE q OR PTE_V) AND PTE_V \<noteq> 0" by (simp add: PA2PTE_flags)
    then have "walk_level l va True p s = walk_level l va False p s"
      using e Some by (simp add: walk_level_def pte_addr entry_ok_def)
    then show ?thesis
      using walk_level_noalloc[OF pt k, of l va] vm_step_refl[OF inv] Some
      by (intro exI[of _ s] exI[of _ T] exI[of _ xs]) simp
  next
    case None
    then have w: "read64 (mem s) ?a AND PTE_V = 0" using e by (simp add: entry_ok_def)
    show ?thesis
    proof (cases xs)
      case Nil
      then have "kalloc s = (0, s)" using fl pa.alloc_none by blast
      then have "walk_level l va True p s = (None, s)"
        unfolding walk_level_def pte_addr using w by simp
      then show ?thesis using None Nil vm_step_refl[OF inv]
        by (intro exI[of _ s] exI[of _ T] exI[of _ xs]) simp
    next
      case (Cons x ys)
      let ?m = "write64 ?a (PA2PTE x OR PTE_V) (memset x 0 4096 (memset x 5 4096 (mem s)))"
      let ?s = "s\<lparr>mem := ?m, freelist := read64 (mem s) x\<rparr>"
      note ka = kalloc_law[OF fl[unfolded Cons]]
      have "walk_level l va True p s = (Some x, ?s)"
        unfolding walk_level_def pte_addr using w ka(1,4) by simp
      moreover note vm_extend[OF inv[unfolded Cons] k idx_lt None refl]
      ultimately show ?thesis
        unfolding Cons by (intro exI[of _ ?s] exI[of _ "T(k @ [?i] \<mapsto> x)"] exI[of _ ys]) simp
    qed
  qed
qed

lemma walk_alloc:
  assumes inv: "vm_inv T xs s" and root: "T [] = Some root" and va: "va < MAXVA"
  shows "\<exists>pte s' T' ys. walk root va True s = Ok (pte, s') \<and> vm_step T xs s T' ys s' \<and>
    (\<forall>vb. pte_of T' s' vb = pte_of T s vb) \<and>
    (if pte = 0 then ys = [] else \<exists>p. T' (key va) = Some p \<and> pte = p + of_nat (8 * idx 0 va))"
proof -
  have v: "\<not> MAXVA \<le> va" using va by simp
  from walk_level_alloc[OF inv root, of 2 va, simplified] obtain s1 T1 ys where
    1: "walk_level 2 va True root s = (T1 [idx 2 va], s1)" "vm_step T xs s T1 ys s1"
      "\<forall>vb. pte_of T1 s1 vb = pte_of T s vb" "T1 [idx 2 va] = None \<longrightarrow> ys = []"
    by (elim exE conjE) (rule that; assumption)
  show ?thesis
  proof (cases "T1 [idx 2 va]")
    case None
    then have "walk root va True s = Ok (0, s1)"
      unfolding walk_def if_not_P[OF v] 1(1) by simp
    then show ?thesis using 1 None by auto
  next
    case (Some p1)
    have inv1: "vm_inv T1 ys s1" using 1(2) by (simp add: vm_step_def)
    have k1: "[idx 2 va] @ [idx 1 va] = key va" "length [idx 2 va] < 2" by (simp_all add: key_def)
    from walk_level_alloc[OF inv1 Some k1(2), of 1 va, unfolded k1(1)] obtain s2 T2 zs where
      2: "walk_level 1 va True p1 s1 = (T2 (key va), s2)" "vm_step T1 ys s1 T2 zs s2"
        "\<forall>vb. pte_of T2 s2 vb = pte_of T1 s1 vb" "T2 (key va) = None \<longrightarrow> zs = []"
      by (elim exE conjE) (rule that; assumption)
    note st = vm_step_trans[OF 1(2) 2(2)]
    have view: "\<forall>vb. pte_of T2 s2 vb = pte_of T s vb" using 1(3) 2(3) by simp
    show ?thesis
    proof (cases "T2 (key va)")
      case None
      then have "walk root va True s = Ok (0, s2)"
        unfolding walk_def if_not_P[OF v] 1(1) Some using 2(1) by simp
      then show ?thesis using st view 2(4) None by auto
    next
      case (Some p0)
      have w: "walk root va True s = Ok (p0 + of_nat (8 * idx 0 va), s2)"
        unfolding walk_def if_not_P[OF v] 1(1) \<open>T1 [idx 2 va] = Some p1\<close>
        using 2(1) Some by (simp add: pte_addr)
      have "pt_ok T2 s2" using 2(2) by (simp add: vm_step_def vm_inv_def)
      from leaf_nonzero[OF this Some, of "idx 0 va"] have nz: "p0 + of_nat (8 * idx 0 va) \<noteq> 0" by simp
      show ?thesis
        by (intro exI[of _ "p0 + of_nat (8 * idx 0 va)"] exI[of _ s2] exI[of _ T2] exI[of _ zs])
          (use w st view nz Some in simp)
    qed
  qed
qed

text \<open>Writing a leaf entry changes the abstract address space at that page only.\<close>

lemma idx_round [simp]: "idx l (PGROUNDDOWN v) = idx l v"
proof -
  have "(PGSIZE :: u64) - 1 = mask 12" by (simp add: mask_eq_exp_minus_1)
  then have r: "PGROUNDDOWN v = v AND NOT (mask 12)" by (simp add: PGROUNDDOWN_def)
  have "PX l (PGROUNDDOWN v) = PX l v"
  proof (rule bit_word_eqI)
    fix n assume "n < LENGTH(64)"
    show "bit (PX l (PGROUNDDOWN v)) n = bit (PX l v) n"
      unfolding PX_def r by (auto simp: bit_simps dest: bit_imp_le_length)
  qed
  then show ?thesis by (simp add: idx_def)
qed

lemma same_leaf:
  assumes "va < MAXVA" "vb < MAXVA"
  shows "key va = key vb \<and> idx 0 va = idx 0 vb \<longleftrightarrow> PGROUNDDOWN va = PGROUNDDOWN vb"
proof
  assume a: "key va = key vb \<and> idx 0 va = idx 0 vb"
  have "idx l va = idx l vb" if "l \<le> 2" for l
  proof -
    have "l = 0 \<or> l = 1 \<or> l = 2" using that by linarith
    then show ?thesis using a by (auto simp: key_def)
  qed
  then show "PGROUNDDOWN va = PGROUNDDOWN vb" by (rule idx_page[OF assms])
next
  assume "PGROUNDDOWN va = PGROUNDDOWN vb"
  then have "idx l va = idx l vb" for l using idx_round[of l va] idx_round[of l vb] by simp
  then show "key va = key vb \<and> idx 0 va = idx 0 vb" by (simp add: key_def)
qed

lemma write_leaf:
  fixes w :: u64
  assumes inv: "vm_inv T xs s" and p: "T (key va) = Some p" and va: "va < MAXVA"
  defines "s' \<equiv> s\<lparr>mem := write64 (p + of_nat (8 * idx 0 va)) w (mem s)\<rparr>"
  shows "vm_step T xs s T xs s'"
    and "vb < MAXVA \<Longrightarrow> pte_of T s' vb = (if PGROUNDDOWN vb = PGROUNDDOWN va then w else pte_of T s vb)"
proof -
  have pt: "pt_ok T s" using inv by (simp add: vm_inv_def)
  have pal: "aligned p" using pt_okD[OF pt p] by simp
  have out: "mem s' a = mem s a" if "a \<notin> page p" for a
    using write64_page[OF pal idx_lt that] by (simp add: s'_def)
  have rdq: "read64 (mem s') (q + of_nat (8 * j)) = read64 (mem s) (q + of_nat (8 * j))"
    if "T l = Some q" "q \<noteq> p" "j < 512" for l q j
    using that(2) out page_disjoint pt_okD(1)[OF pt that(1)] that(3) by (intro read64_page) blast+
  have ok: "pt_ok T s'"
    unfolding pt_ok_def
  proof (intro conjI allI impI)
    show "pt_shape T" using pt by (simp add: pt_ok_def)
    fix l q j assume l: "T l = Some q" "length l < 2" "j < (512 :: nat)"
    have "l \<noteq> key va" using l(2) by (auto simp: key_def)
    then have "q \<noteq> p" using pt_okD(4)[OF pt p, of l] l(1) by auto
    then show "entry_ok (T (l @ [j])) (read64 (mem s') (q + of_nat (8 * j)))"
      using pt_ok_entry[OF pt l] rdq[OF l(1) _ l(3)] by simp
  qed
  have "core_frame {p} s s'" using out by (auto simp: core_frame_def s'_def)
  moreover have "{p} \<subseteq> ran T \<union> set xs" using p by (auto simp: ran_def)
  ultimately have fr: "core_frame (ran T \<union> set xs) s s'" by (rule core_frame_mono)
  have fl: "free_list s xs" "ran T \<inter> set xs = {}" using inv by (simp_all add: vm_inv_def)
  have "flist (mem s') (freelist s) xs"
  proof (rule flist_cong)
    show "flist (mem s) (freelist s) xs" using fl by (simp add: free_list_def)
    fix y a assume y: "y \<in> set xs" "a \<in> page y"
    then have "y \<noteq> p" using fl(2) p by (auto simp: ran_def)
    then show "mem s' a = mem s a" using y(2) out page_disjoint by blast
  qed (use fl in \<open>auto simp: free_list_def pg_ok_def\<close>)
  then have "free_list s' xs" using fl pg_ok_frame[OF fr] by (simp add: free_list_def) (simp add: s'_def)
  then show "vm_step T xs s T xs s'" using ok fl fr by (simp add: vm_step_def vm_inv_def)
  assume vb: "vb < MAXVA"
  show "pte_of T s' vb = (if PGROUNDDOWN vb = PGROUNDDOWN va then w else pte_of T s vb)"
  proof (cases "key vb = key va")
    case True
    then have "pte_of T s' vb = (if idx 0 va = idx 0 vb then w else pte_of T s vb)"
      using p write64_words[OF pal idx_lt idx_lt, of 0 va w "mem s" 0 vb] by (simp add: pte_of_def s'_def)
    then show ?thesis using same_leaf[OF va vb] True by auto
  next
    case False
    have "pte_of T s' vb = pte_of T s vb"
    proof (cases "T (key vb)")
      case (Some q)
      then have "q \<noteq> p" using pt_okD(4)[OF pt p, of "key vb"] False by auto
      then show ?thesis using Some rdq[OF Some] by (simp add: pte_of_def)
    qed (simp add: pte_of_def)
    then show ?thesis using same_leaf[OF va vb] False by auto
  qed
qed

section \<open>Mapping a range\<close>

text \<open>The address space \<open>f\<close> with the \<open>j\<close> pages from \<open>A\<close> on mapped to the frames from \<open>pa\<close> on.\<close>

definition with_pages :: "u64 \<Rightarrow> u64 \<Rightarrow> u64 \<Rightarrow> nat \<Rightarrow> (u64 \<Rightarrow> u64) \<Rightarrow> u64 \<Rightarrow> u64" where
  "with_pages A pa perm j f vb =
    (if \<exists>i < j. PGROUNDDOWN vb = A + of_nat (4096 * i)
     then PA2PTE (pa + (PGROUNDDOWN vb - A)) OR perm OR PTE_V else f vb)"

lemma with_pages_Suc:
  "with_pages A pa perm (Suc j) f vb =
    (if PGROUNDDOWN vb = A + of_nat (4096 * j) then PA2PTE (pa + of_nat (4096 * j)) OR perm OR PTE_V
     else with_pages A pa perm j f vb)"
  by (auto simp: with_pages_def less_Suc_eq)

lemma mappages_range:
  assumes "sz \<noteq> 0" "unat va + unat sz \<le> 2 ^ 38"
  defines "A \<equiv> PGROUNDDOWN va" and "L \<equiv> PGROUNDDOWN (va + sz - 1)"
  shows "unat A + 4096 * (unat (L - A) div 4096) = unat L" "unat L < 2 ^ 38"
    "unat ((L - A) div PGSIZE) = unat (L - A) div 4096"
proof -
  have sz: "0 < unat sz" using assms(1) by (simp add: unat_gt_0)
  have u: "unat (va + sz - 1) = unat va + unat sz - 1"
  proof -
    have "unat (va + sz) = unat va + unat sz" using assms(2) by (subst unat_add_lem[symmetric]) simp
    moreover have "1 \<le> va + sz" using calculation sz by (simp add: word_le_nat_alt)
    ultimately show ?thesis by (simp add: unat_sub)
  qed
  have A: "unat A = 4096 * (unat va div 4096)" by (simp add: A_def unat_PGROUNDDOWN)
  have L: "unat L = 4096 * ((unat va + unat sz - 1) div 4096)" by (simp add: L_def unat_PGROUNDDOWN u)
  have "unat va div 4096 \<le> (unat va + unat sz - 1) div 4096" by (rule div_le_mono) (use sz in simp)
  then have le: "unat A \<le> unat L" using A L by simp
  then have d: "unat (L - A) = unat L - unat A" by (simp add: unat_sub word_le_nat_alt)
  show "unat A + 4096 * (unat (L - A) div 4096) = unat L"
    using \<open>unat va div 4096 \<le> (unat va + unat sz - 1) div 4096\<close> unfolding d A L
    by (simp flip: diff_mult_distrib2 add_mult_distrib2)
  have "unat L \<le> unat va + unat sz - 1" unfolding L by (rule times_div_less_eq_dividend)
  then show "unat L < 2 ^ 38" using assms(2) sz by simp
  show "unat ((L - A) div PGSIZE) = unat (L - A) div 4096" by (simp add: unat_div)
qed

lemma mappages_step_spec:
  assumes st: "vm_step T xs s T1 ys s1" and root: "T [] = Some root" and a: "a < MAXVA" "aligned a"
    and free: "pte_of T1 s1 a AND PTE_V = 0"
  shows "(\<exists>s2 T2 zs. mappages_step root L perm (a, q, s1) =
      (let r = (0 :: int, s2) in if a = L then Ok (Done r) else Ok (Next (a + PGSIZE, q + PGSIZE, s2))) \<and>
      vm_step T xs s T2 zs s2 \<and>
      (\<forall>vb < MAXVA. pte_of T2 s2 vb =
         (if PGROUNDDOWN vb = a then PA2PTE q OR perm OR PTE_V else pte_of T1 s1 vb))) \<or>
    (\<exists>s2 T2. mappages_step root L perm (a, q, s1) = Ok (Done (-1, s2)) \<and> vm_step T xs s T2 [] s2 \<and>
      (\<forall>vb. pte_of T2 s2 vb = pte_of T1 s1 vb))"
proof -
  have inv1: "vm_inv T1 ys s1" and root1: "T1 [] = Some root"
    using st root by (auto simp: vm_step_def map_le_def dom_def)
  from walk_alloc[OF inv1 root1 a(1)] obtain pte s2 T2 zs where
    w: "walk root a True s1 = Ok (pte, s2)" "vm_step T1 ys s1 T2 zs s2"
      "\<forall>vb. pte_of T2 s2 vb = pte_of T1 s1 vb"
      "if pte = 0 then zs = [] else \<exists>p. T2 (key a) = Some p \<and> pte = p + of_nat (8 * idx 0 a)"
    by (elim exE conjE) (rule that; assumption)
  note st2 = vm_step_trans[OF st w(2)]
  show ?thesis
  proof (cases "pte = 0")
    case True
    then have "mappages_step root L perm (a, q, s1) = Ok (Done (-1, s2))"
      using w(1) by (simp add: mappages_step_def)
    then show ?thesis using st2 w(3,4) True by (intro disjI2 exI[of _ s2] exI[of _ T2]) simp
  next
    case False
    then obtain p where p: "T2 (key a) = Some p" "pte = p + of_nat (8 * idx 0 a)" using w(4) by auto
    have inv2: "vm_inv T2 zs s2" using w(2) by (simp add: vm_step_def)
    let ?w = "PA2PTE q OR perm OR PTE_V"
    let ?s = "s2\<lparr>mem := write64 pte ?w (mem s2)\<rparr>"
    note wl = write_leaf[OF inv2 p(1) a(1), where w = ?w, folded p(2)]
    have "read64 (mem s2) pte = pte_of T2 s2 a" using p by (simp add: pte_of_def)
    then have "read64 (mem s2) pte AND PTE_V = 0" using w(3) free by simp
    then have "mappages_step root L perm (a, q, s1) =
        (if a = L then Ok (Done (0, ?s)) else Ok (Next (a + PGSIZE, q + PGSIZE, ?s)))"
      using w(1) False by (simp add: mappages_step_def)
    then show ?thesis
      using vm_step_trans[OF st2 wl(1)] wl(2) w(3) a(2)
      by (intro disjI1 exI[of _ ?s] exI[of _ T2] exI[of _ zs]) simp
  qed
qed

text \<open>C3: \<^verbatim>\<open>mappages\<close> on a range of unmapped pages below \<open>MAXVA\<close> returns: either 0, and
  exactly the pages of the range are mapped, to consecutive frames with the given
  permissions, every other address keeping its entry; or \<open>-1\<close>, when the allocator has run
  out of pages, and no address outside the range has changed. It writes only table pages
  and pages taken from the free list.\<close>

theorem mappages_maps_range:
  assumes inv: "vm_inv T xs s" and root: "T [] = Some root" and sz: "sz \<noteq> 0" "unat va + unat sz \<le> 2 ^ 38"
    and free: "\<And>i. i \<le> unat (PGROUNDDOWN (va + sz - 1) - PGROUNDDOWN va) div 4096 \<Longrightarrow>
      pte_of T s (PGROUNDDOWN va + of_nat (4096 * i)) AND PTE_V = 0"
  shows "\<exists>r s' T' ys j. mappages root va sz pa perm s = Ok (r, s') \<and> vm_step T xs s T' ys s' \<and>
    (\<forall>vb < MAXVA. pte_of T' s' vb = with_pages (PGROUNDDOWN va) pa perm j (pte_of T s) vb) \<and>
    (if r = 0 then j = Suc (unat (PGROUNDDOWN (va + sz - 1) - PGROUNDDOWN va) div 4096)
     else r = -1 \<and> ys = [] \<and> j \<le> unat (PGROUNDDOWN (va + sz - 1) - PGROUNDDOWN va) div 4096)"
proof -
  let ?A = "PGROUNDDOWN va" and ?L = "PGROUNDDOWN (va + sz - 1)"
  let ?N = "unat (?L - ?A) div 4096"
  note rg = mappages_range[OF sz]
  have ua: "unat (?A + of_nat (4096 * j)) = unat ?A + 4096 * j" if "j \<le> ?N" for j
    using rg(1,2) that by (intro unat_add_of_nat) simp
  have al: "aligned (?A + of_nat (4096 * j))" if "j \<le> ?N" for j
    using ua[OF that] by (simp add: aligned_unat unat_PGROUNDDOWN del: of_nat_mult)
  have lt: "?A + of_nat (4096 * j) < MAXVA" if "j \<le> ?N" for j
    using ua[OF that] rg(1,2) that by (simp add: word_less_nat_alt del: of_nat_mult)
  have isL: "?A + of_nat (4096 * j) = ?L \<longleftrightarrow> j = ?N" if "j \<le> ?N" for j
    using ua[OF that] rg(1) by (auto simp: word_unat_eq_iff simp del: of_nat_mult)
  let ?f = "pte_of T s"
  let ?at = "\<lambda>j T' s'. \<forall>vb < MAXVA. pte_of T' s' vb = with_pages ?A pa perm j ?f vb"
  let ?I = "\<lambda>(a, q, s1). \<exists>j T1 ys. j \<le> ?N \<and> a = ?A + of_nat (4096 * j) \<and> q = pa + of_nat (4096 * j) \<and>
    vm_step T xs s T1 ys s1 \<and> ?at j T1 s1"
  let ?Q = "\<lambda>(r, s'). \<exists>T' ys j. vm_step T xs s T' ys s' \<and> ?at j T' s' \<and>
    (if r = (0 :: int) then j = Suc ?N else r = -1 \<and> ys = [] \<and> j \<le> ?N)"
  have "\<exists>r. loop (Suc (unat ((?L - ?A) div PGSIZE))) (mappages_step root ?L perm) (?A, pa, s) = Ok r \<and> ?Q r"
  proof (rule loop_rule[where I = ?I and m = "\<lambda>(a, q, s1). unat (?L - a) div 4096"])
    show "?I (?A, pa, s)" using vm_step_refl[OF inv]
      by (intro case_prodI exI[of _ 0] exI[of _ T] exI[of _ xs]) (simp add: with_pages_def)
    show "(case (?A, pa, s) of (a, q, s1) \<Rightarrow> unat (?L - a) div 4096) < Suc (unat ((?L - ?A) div PGSIZE))"
      using rg(3) by simp
    fix st assume "?I st"
    then obtain a q s1 j T1 ys where st: "st = (a, q, s1)" and j: "j \<le> ?N" and
      a: "a = ?A + of_nat (4096 * j)" "q = pa + of_nat (4096 * j)" and
      v: "vm_step T xs s T1 ys s1" "?at j T1 s1"
      by (cases st) (simp only: prod.case, elim exE conjE, rule that; assumption?)
    have new: "with_pages ?A pa perm j ?f a = ?f a"
    proof -
      have "PGROUNDDOWN a \<noteq> ?A + of_nat (4096 * i)" if "i < j" for i
        using al[OF j] ua[OF j] ua[of i] that j by (simp add: a word_unat_eq_iff del: of_nat_mult)
      then show ?thesis by (auto simp: with_pages_def)
    qed
    have fr: "pte_of T1 s1 a AND PTE_V = 0" using v(2) lt[OF j] new free[OF j] by (simp add: a)
    have dist: "unat (?L - (?A + of_nat (4096 * k))) div 4096 = ?N - k" if "k \<le> ?N" for k
    proof -
      have "unat (?L - (?A + of_nat (4096 * k))) = unat ?L - (unat ?A + 4096 * k)"
        using ua[OF that] rg(1) that by (simp add: unat_sub word_le_nat_alt del: of_nat_mult)
      also have "\<dots> = 4096 * (?N - k)" using rg(1) that by (simp add: diff_mult_distrib2)
      finally show ?thesis by simp
    qed
    have step: "with_pages ?A pa perm (Suc j) ?f vb =
      (if PGROUNDDOWN vb = a then PA2PTE q OR perm OR PTE_V else with_pages ?A pa perm j ?f vb)" for vb
      by (simp only: with_pages_Suc a)
    let ?goal = "(\<exists>st'. mappages_step root ?L perm st = Ok (Next st') \<and> ?I st' \<and>
        (case st' of (a, q, s1) \<Rightarrow> unat (?L - a) div 4096) < (case st of (a, q, s1) \<Rightarrow> unat (?L - a) div 4096)) \<or>
      (\<exists>r. mappages_step root ?L perm st = Ok (Done r) \<and> ?Q r)"
    from mappages_step_spec[OF v(1) root lt[OF j, folded a(1)] al[OF j, folded a(1)] fr, of ?L perm q]
    show ?goal
    proof (elim disjE exE conjE)
      fix s2 T2 zs
      assume ms: "mappages_step root ?L perm (a, q, s1) =
          (let r = (0 :: int, s2) in if a = ?L then Ok (Done r) else Ok (Next (a + PGSIZE, q + PGSIZE, s2)))"
        and v2: "vm_step T xs s T2 zs s2"
        and view: "\<forall>vb < MAXVA. pte_of T2 s2 vb =
         (if PGROUNDDOWN vb = a then PA2PTE q OR perm OR PTE_V else pte_of T1 s1 vb)"
      have at: "?at (Suc j) T2 s2" using view v(2) step by simp
      show ?goal
      proof (cases "j = ?N")
        case True
        then have "a = ?L" using isL[OF j] a by simp
        then have "mappages_step root ?L perm st = Ok (Done (0, s2))" using ms st by simp
        moreover have "?Q (0, s2)" using v2 at True
          by (intro case_prodI exI[of _ T2] exI[of _ zs] exI[of _ "Suc j"]) simp
        ultimately show ?thesis by (intro disjI2 exI[of _ "(0, s2)"] conjI)
      next
        case False
        then have "a \<noteq> ?L" using isL[OF j] a by simp
        then have "mappages_step root ?L perm st = Ok (Next (a + PGSIZE, q + PGSIZE, s2))"
          using ms st by simp
        moreover have jN: "Suc j \<le> ?N" using False j by simp
        have nx: "a + PGSIZE = ?A + of_nat (4096 * Suc j)" "q + PGSIZE = pa + of_nat (4096 * Suc j)"
          by (simp_all add: a algebra_simps)
        have "?I (a + PGSIZE, q + PGSIZE, s2)"
          by (intro case_prodI exI[of _ "Suc j"] exI[of _ T2] exI[of _ zs] conjI) (fact jN nx v2 at)+
        moreover have "unat (?L - (a + PGSIZE)) div 4096 < unat (?L - a) div 4096"
          unfolding nx(1) unfolding a(1) dist[OF j] dist[OF jN] using jN by simp
        ultimately show ?thesis
          unfolding st by (intro disjI1 exI[of _ "(a + PGSIZE, q + PGSIZE, s2)"] conjI) simp_all
      qed
    next
      fix s2 T2
      assume ms: "mappages_step root ?L perm (a, q, s1) = Ok (Done (-1, s2))" "vm_step T xs s T2 [] s2"
        "\<forall>vb. pte_of T2 s2 vb = pte_of T1 s1 vb"
      have "?Q (-1, s2)" using ms(2,3) v(2) j
        by (intro case_prodI exI[of _ T2] exI[of _ "[]"] exI[of _ j]) simp
      then show ?goal using ms(1) unfolding st by (intro disjI2 exI[of _ "(-1, s2)"] conjI)
    qed
  qed
  then obtain r s' where
    lp: "loop (Suc (unat ((?L - ?A) div PGSIZE))) (mappages_step root ?L perm) (?A, pa, s) = Ok (r, s')"
    and q: "?Q (r, s')" by (elim exE conjE) (case_tac r, blast)
  have "mappages root va sz pa perm s = Ok (r, s')"
    unfolding mappages_def if_not_P[OF sz(1)] Let_def by (rule lp)
  then show ?thesis using q by blast
qed

text \<open>Witness: an empty table, two free pages, and one page to map.\<close>

lemma empty_table:
  assumes "aligned root" "root \<noteq> 0" "\<And>a. a \<in> page root \<Longrightarrow> mem s a = 0"
  shows "pt_ok [[] \<mapsto> root] s" "pte_of [[] \<mapsto> root] s va = 0"
proof -
  have "read64 (mem s) (root + of_nat (8 * i)) = 0" if "i < 512" for i
  proof -
    have "read64 (mem s) (root + of_nat (8 * i)) = read64 (\<lambda>_. 0) (root + of_nat (8 * i))"
      using assms that by (intro read64_page) auto
    then show ?thesis by (simp add: read64_def mem_get_def map_replicate_const)
  qed
  then show "pt_ok [[] \<mapsto> root] s"
    using assms(1,2) by (auto simp: pt_ok_def pt_shape_def entry_ok_def split: if_splits)
  show "pte_of [[] \<mapsto> root] s va = 0" by (simp add: pte_of_def key_def)
qed

lemma mappages_maps_range_witness:
  "\<exists>(s :: kcore) r s' T' ys j. free_list s [0x80031000, 0x80030000] \<and>
     mappages 0x80100000 0x2000 0x1000 0x80200000 18 s = Ok (r, s') \<and>
     vm_step [[] \<mapsto> 0x80100000] [0x80031000, 0x80030000] s T' ys s' \<and>
     (if r = 0 then j = 1 else r = -1 \<and> ys = [] \<and> j = 0) \<and>
     pte_of T' s' 0x2000 = with_pages 0x2000 0x80200000 18 j (\<lambda>_. 0) 0x2000"
proof -
  from kfree_law[OF core0_page(1,2)] obtain t where
    t: "free_list t [0x80030000]" "core_frame {0x80030000} core0 t" by auto
  have "pg_ok t 0x80031000" using core0_page(3) pg_ok_frame[OF t(2)] by simp
  from kfree_law[OF t(1) this] obtain s where
    s: "free_list (s :: kcore) [0x80031000, 0x80030000]" "core_frame {0x80031000} t s" by auto
  have fr: "core_frame {0x80030000, 0x80031000} core0 s"
    using core_frame_trans[OF t(2) s(2)] by (simp add: insert_commute)
  let ?T = "[[] \<mapsto> (0x80100000 :: u64)]"
  have al: "aligned 0x80100000" by (simp add: aligned_def)
  have z: "mem s a = 0" if "a \<in> page 0x80100000" for a
  proof -
    have "mem s a = mem core0 a"
      by (rule core_frame_mem[OF fr]) (use that in \<open>auto simp: page_def\<close>)
    then show ?thesis by (simp add: core0_def)
  qed
  note et = empty_table[OF al _ z]
  have inv: "vm_inv ?T [0x80031000, 0x80030000] s"
    using s(1) et(1) by (simp add: vm_inv_def)
  have pg: "PGROUNDDOWN 0x2000 = 0x2000" "PGROUNDDOWN 0x2fff = 0x2000"
    by (simp_all add: PGROUNDDOWN_def)
  have n0: "unat (PGROUNDDOWN (0x2000 + 0x1000 - 1) - PGROUNDDOWN 0x2000) div 4096 = 0"
    by (simp add: pg)
  have f0: "pte_of ?T s = (\<lambda>_. 0)" using et(2) by (intro ext) simp
  have "pte_of ?T s a AND PTE_V = 0" for a by (simp add: f0)
  note mm = mappages_maps_range[OF inv, where root = "0x80100000" and sz = "0x1000" and va = "0x2000" and
      pa = "0x80200000" and perm = 18, OF _ _ _ this]
  from mm[unfolded f0 n0] obtain r s' T' ys j where
    "mappages 0x80100000 0x2000 0x1000 0x80200000 18 s = Ok (r, s')"
    "vm_step ?T [0x80031000, 0x80030000] s T' ys s'"
    "\<forall>vb < MAXVA. pte_of T' s' vb = with_pages 0x2000 0x80200000 18 j (\<lambda>_. 0) vb"
    "if r = 0 then j = Suc 0 else r = -1 \<and> ys = [] \<and> j \<le> 0"
    unfolding pg(1) by (simp, elim exE conjE) (rule that; assumption)
  moreover from this have "pte_of T' s' 0x2000 = with_pages 0x2000 0x80200000 18 j (\<lambda>_. 0) 0x2000"
    "if r = 0 then j = 1 else r = -1 \<and> ys = [] \<and> j = 0" by (simp_all split: if_splits)
  ultimately show ?thesis using s(1) by blast
qed

end
