(* ===== verification/Fs.thy ===== *)
theory Fs
  imports Commit PageTable
begin

text \<open>
  The file system below the system calls, \<^verbatim>\<open>kernel/fs.c\<close>: the superblock, the block
  allocator, the in-memory inode table, inode contents, directories and path names, over
  the buffer cache and the log. Pointers to in-memory inodes are indices into
  \<^verbatim>\<open>itable.inode\<close>; an on-disk inode is read from and written to the bytes of its block.
  Messages printed to the console are not part of the state. A path is the list of its
  characters without the final zero byte.
\<close>

section \<open>Copies to and from the caller\<close>

text \<open>The destination or source of a transfer: a virtual address of the running process, a
  kernel address, or a position in the local variable of the calling kernel function.
  \<open>either_copyout\<close> and \<open>either_copyin\<close> are those of \<^verbatim>\<open>proc.c\<close>.\<close>

datatype addr = User u64 | Kern u64 | Local nat

fun addr_add :: "addr \<Rightarrow> nat \<Rightarrow> addr" where
  "addr_add (User a) n = User (a + of_nat n)"
| "addr_add (Kern a) n = Kern (a + of_nat n)"
| "addr_add (Local i) n = Local (i + n)"

fun either_copyout :: "addr \<Rightarrow> byte list \<Rightarrow> 'a kcore_scheme \<Rightarrow> (int \<times> 'a kcore_scheme) res" where
  "either_copyout (User dst) src s = copyout (p_pagetable (myproc s)) dst src s"
| "either_copyout (Kern dst) src s = Ok (0, s\<lparr>mem := mem_put dst src (mem s)\<rparr>)"
| "either_copyout (Local i) src s = Ok (0, s\<lparr>locals := put_bytes (locals s) i src\<rparr>)"

fun either_copyin :: "addr \<Rightarrow> nat \<Rightarrow> 'a kcore_scheme \<Rightarrow> (int \<times> byte list) res" where
  "either_copyin (User src) n s = copyin (p_pagetable (myproc s)) src n s"
| "either_copyin (Kern src) n s = Ok (0, mem_get src n (mem s))"
| "either_copyin (Local i) n s = Ok (0, get_bytes (locals s) i n)"

section \<open>On-disk structures\<close>

abbreviation (input) ROOTINO :: u32 where "ROOTINO \<equiv> 1"
abbreviation (input) FSMAGIC :: u32 where "FSMAGIC \<equiv> 0x10203040"
abbreviation (input) NDIRECT :: nat where "NDIRECT \<equiv> 11"
abbreviation (input) NINDIRECT :: nat where "NINDIRECT \<equiv> 256"
abbreviation (input) MAXFILE :: nat where "MAXFILE \<equiv> 65803"
abbreviation (input) IPB :: nat where "IPB \<equiv> 16"
abbreviation (input) BPB :: nat where "BPB \<equiv> 8192"
abbreviation (input) DIRSIZ :: nat where "DIRSIZ \<equiv> 14"
abbreviation (input) T_DIR :: u16 where "T_DIR \<equiv> 1"
abbreviation (input) T_FILE :: u16 where "T_FILE \<equiv> 2"
abbreviation (input) T_DEVICE :: u16 where "T_DEVICE \<equiv> 3"

record superblock =
  sb_magic :: u32
  sb_size :: u32
  sb_nblocks :: u32
  sb_ninodes :: u32
  sb_nlog :: u32
  sb_logstart :: u32
  sb_inodestart :: u32
  sb_bmapstart :: u32

record dinode =
  d_type :: u16
  d_major :: u16
  d_minor :: u16
  d_nlink :: u16
  d_size :: u32
  d_addrs :: "nat \<Rightarrow> u32"

definition get16 :: "block \<Rightarrow> nat \<Rightarrow> u16" where
  "get16 b off = le_word (get_bytes b off 2)"

definition put16 :: "block \<Rightarrow> nat \<Rightarrow> u16 \<Rightarrow> block" where
  "put16 b off v = put_bytes b off (le_bytes 2 v)"

text \<open>The inode in slot \<open>k\<close> of a block of inodes: 64 bytes, the four shorts, the size and
  the thirteen addresses. Only the first thirteen addresses of a record count.\<close>

definition get_dinode :: "block \<Rightarrow> nat \<Rightarrow> dinode" where
  "get_dinode b k =
    \<lparr>d_type = get16 b (64 * k), d_major = get16 b (64 * k + 2), d_minor = get16 b (64 * k + 4),
     d_nlink = get16 b (64 * k + 6), d_size = get32 b (16 * k + 2),
     d_addrs = (\<lambda>i. if i < 13 then get32 b (16 * k + 3 + i) else 0)\<rparr>"

fun put_addrs :: "nat list \<Rightarrow> nat \<Rightarrow> (nat \<Rightarrow> u32) \<Rightarrow> block \<Rightarrow> block" where
  "put_addrs [] k a b = b"
| "put_addrs (i # is) k a b = put_addrs is k a (put32 b (16 * k + 3 + i) (a i))"

definition put_dinode :: "block \<Rightarrow> nat \<Rightarrow> dinode \<Rightarrow> block" where
  "put_dinode b k d =
    (let b = put16 b (64 * k) (d_type d);
         b = put16 b (64 * k + 2) (d_major d);
         b = put16 b (64 * k + 4) (d_minor d);
         b = put16 b (64 * k + 6) (d_nlink d);
         b = put32 b (16 * k + 2) (d_size d)
     in put_addrs [0..<13] k (d_addrs d) b)"

definition zero_dinode :: "u16 \<Rightarrow> dinode" where
  "zero_dinode ty = \<lparr>d_type = ty, d_major = 0, d_minor = 0, d_nlink = 0, d_size = 0, d_addrs = (\<lambda>_. 0)\<rparr>"

section \<open>State\<close>

record inode =
  i_dev :: u32
  i_inum :: u32
  i_ref :: int
  i_lock :: sleeplock
  i_valid :: bool
  i_type :: u16
  i_major :: u16
  i_minor :: u16
  i_nlink :: u16
  i_size :: u32
  i_addrs :: "nat \<Rightarrow> u32"

record fs_state = logst +
  sb :: superblock
  itable :: "nat \<Rightarrow> inode"

definition upd_inode :: "nat \<Rightarrow> (inode \<Rightarrow> inode) \<Rightarrow> 'a fs_state_scheme \<Rightarrow> 'a fs_state_scheme" where
  "upd_inode ip f s = s\<lparr>itable := (itable s)(ip := f (itable s ip))\<rparr>"

definition upd_inode_lock :: "nat \<Rightarrow> (sleeplock \<Rightarrow> sleeplock) \<Rightarrow> 'a fs_state_scheme \<Rightarrow> 'a fs_state_scheme" where
  "upd_inode_lock ip f = upd_inode ip (\<lambda>x. x\<lparr>i_lock := f (i_lock x)\<rparr>)"

definition IBLOCK :: "u32 \<Rightarrow> 'a fs_state_scheme \<Rightarrow> u32" where
  "IBLOCK i s = i div 16 + sb_inodestart (sb s)"

definition BBLOCK :: "nat \<Rightarrow> 'a fs_state_scheme \<Rightarrow> u32" where
  "BBLOCK b s = of_nat (b div BPB) + sb_bmapstart (sb s)"

section \<open>Superblock and block allocator\<close>

definition readsb :: "u32 \<Rightarrow> 'a fs_state_scheme \<Rightarrow> 'a fs_state_scheme res" where
  "readsb dev s =
    and_then (bread dev 1 s) (\<lambda>(bp, s).
    let d = b_data (bufs s bp);
        s = s\<lparr>sb := \<lparr>sb_magic = get32 d 0, sb_size = get32 d 1, sb_nblocks = get32 d 2,
               sb_ninodes = get32 d 3, sb_nlog = get32 d 4, sb_logstart = get32 d 5,
               sb_inodestart = get32 d 6, sb_bmapstart = get32 d 7\<rparr>\<rparr>
    in brelse bp s)"

definition fsinit :: "u32 \<Rightarrow> 'a fs_state_scheme \<Rightarrow> 'a fs_state_scheme res" where
  "fsinit dev s =
    and_then (readsb dev s) (\<lambda>s.
      if sb_magic (sb s) \<noteq> FSMAGIC then Panic ''invalid file system''
      else initlog dev (sb_logstart (sb s)) (sb_nlog (sb s)) s)"

definition bzero :: "u32 \<Rightarrow> u32 \<Rightarrow> 'a logst_scheme \<Rightarrow> 'a logst_scheme res" where
  "bzero dev bno s =
    and_then (bread dev bno s) (\<lambda>(bp, s).
    let s = set_data bp (\<lambda>_. 0) s in
    and_then (log_write bp s) (\<lambda>s. brelse bp s))"

text \<open>The bit of block \<open>bi\<close> in a bitmap block.\<close>

definition bit_set :: "block \<Rightarrow> nat \<Rightarrow> bool" where
  "bit_set d bi \<longleftrightarrow> d (bi div 8) AND push_bit (bi mod 8) 1 \<noteq> 0"

definition set_bit_in :: "block \<Rightarrow> nat \<Rightarrow> block" where
  "set_bit_in d bi = d(bi div 8 := d (bi div 8) OR push_bit (bi mod 8) 1)"

definition clear_bit_in :: "block \<Rightarrow> nat \<Rightarrow> block" where
  "clear_bit_in d bi = d(bi div 8 := d (bi div 8) AND NOT (push_bit (bi mod 8) 1))"

definition balloc_step ::
  "u32 \<Rightarrow> nat \<times> 'a fs_state_scheme \<Rightarrow> (nat \<times> 'a fs_state_scheme, u32 \<times> 'a fs_state_scheme) ctl res" where
  "balloc_step dev = (\<lambda>(b, s).
    let n = unat (sb_size (sb s)) in
    if \<not> b < n then Ok (Done (0, s))
    else and_then (bread dev (BBLOCK b s) s) (\<lambda>(bp, s).
      let d = b_data (bufs s bp) in
      case List.find (\<lambda>bi. \<not> bit_set d bi) [0..<min BPB (n - b)] of
        Some bi \<Rightarrow>
          let s = set_data bp (set_bit_in d bi) s in
          and_then (log_write bp s) (\<lambda>s.
          and_then (brelse bp s) (\<lambda>s.
          and_then (bzero dev (of_nat (b + bi)) s) (\<lambda>s. Ok (Done (of_nat (b + bi), s)))))
      | None \<Rightarrow> and_then (brelse bp s) (\<lambda>s. Ok (Next (b + BPB, s)))))"

definition balloc :: "u32 \<Rightarrow> 'a fs_state_scheme \<Rightarrow> (u32 \<times> 'a fs_state_scheme) res" where
  "balloc dev s = loop (unat (sb_size (sb s)) div BPB + 2) (balloc_step dev) (0, s)"

definition bfree :: "u32 \<Rightarrow> u32 \<Rightarrow> 'a fs_state_scheme \<Rightarrow> 'a fs_state_scheme res" where
  "bfree dev b s =
    and_then (bread dev (BBLOCK (unat b) s) s) (\<lambda>(bp, s).
    let bi = unat b mod BPB; d = b_data (bufs s bp) in
    if \<not> bit_set d bi then Panic ''freeing free block''
    else
      let s = set_data bp (clear_bit_in d bi) s in
      and_then (log_write bp s) (\<lambda>s. brelse bp s))"

section \<open>Inodes\<close>

definition iinit :: "'a fs_state_scheme \<Rightarrow> 'a fs_state_scheme" where
  "iinit s = s\<lparr>itable := (\<lambda>i. if i < NINODE then (itable s i)\<lparr>i_lock := initsleeplock\<rparr> else itable s i)\<rparr>"

definition iget :: "u32 \<Rightarrow> u32 \<Rightarrow> 'a fs_state_scheme \<Rightarrow> (nat \<times> 'a fs_state_scheme) res" where
  "iget dev inum s =
    (case List.find (\<lambda>i. i_ref (itable s i) > 0 \<and> i_dev (itable s i) = dev \<and>
        i_inum (itable s i) = inum) [0..<NINODE] of
       Some ip \<Rightarrow> Ok (ip, upd_inode ip (\<lambda>x. x\<lparr>i_ref := i_ref x + 1\<rparr>) s)
     | None \<Rightarrow>
         (case List.find (\<lambda>i. i_ref (itable s i) = 0) [0..<NINODE] of
            None \<Rightarrow> Panic ''iget: no inodes''
          | Some ip \<Rightarrow>
              Ok (ip, upd_inode ip (\<lambda>x. x\<lparr>i_dev := dev, i_inum := inum, i_ref := 1, i_valid := False\<rparr>) s)))"

definition ialloc_step ::
  "u32 \<Rightarrow> u16 \<Rightarrow> nat \<times> 'a fs_state_scheme \<Rightarrow>
   (nat \<times> 'a fs_state_scheme, nat option \<times> 'a fs_state_scheme) ctl res" where
  "ialloc_step dev ty = (\<lambda>(inum, s).
    if \<not> inum < unat (sb_ninodes (sb s)) then Ok (Done (None, s))
    else and_then (bread dev (IBLOCK (of_nat inum) s) s) (\<lambda>(bp, s).
      let d = b_data (bufs s bp) in
      if d_type (get_dinode d (inum mod IPB)) = 0 then
        let s = set_data bp (put_dinode d (inum mod IPB) (zero_dinode ty)) s in
        and_then (log_write bp s) (\<lambda>s.
        and_then (brelse bp s) (\<lambda>s.
        and_then (iget dev (of_nat inum) s) (\<lambda>(ip, s). Ok (Done (Some ip, s)))))
      else and_then (brelse bp s) (\<lambda>s. Ok (Next (Suc inum, s)))))"

definition ialloc :: "u32 \<Rightarrow> u16 \<Rightarrow> 'a fs_state_scheme \<Rightarrow> (nat option \<times> 'a fs_state_scheme) res" where
  "ialloc dev ty s = loop (unat (sb_ninodes (sb s)) + 1) (ialloc_step dev ty) (1, s)"

definition to_dinode :: "inode \<Rightarrow> dinode" where
  "to_dinode x = \<lparr>d_type = i_type x, d_major = i_major x, d_minor = i_minor x, d_nlink = i_nlink x,
     d_size = i_size x, d_addrs = i_addrs x\<rparr>"

definition iupdate :: "nat \<Rightarrow> 'a fs_state_scheme \<Rightarrow> 'a fs_state_scheme res" where
  "iupdate ip s =
    (let x = itable s ip in
     and_then (bread (i_dev x) (IBLOCK (i_inum x) s) s) (\<lambda>(bp, s).
     let s = set_data bp (put_dinode (b_data (bufs s bp)) (unat (i_inum x) mod IPB) (to_dinode x)) s in
     and_then (log_write bp s) (\<lambda>s. brelse bp s)))"

definition idup :: "nat \<Rightarrow> 'a fs_state_scheme \<Rightarrow> nat \<times> 'a fs_state_scheme" where
  "idup ip s = (ip, upd_inode ip (\<lambda>x. x\<lparr>i_ref := i_ref x + 1\<rparr>) s)"

definition from_dinode :: "dinode \<Rightarrow> inode \<Rightarrow> inode" where
  "from_dinode d x = x\<lparr>i_type := d_type d, i_major := d_major d, i_minor := d_minor d,
     i_nlink := d_nlink d, i_size := d_size d, i_addrs := d_addrs d\<rparr>"

text \<open>The argument of \<open>ilock\<close> and \<open>iunlock\<close> may be a null pointer.\<close>

definition ilock :: "nat option \<Rightarrow> 'a fs_state_scheme \<Rightarrow> 'a fs_state_scheme res" where
  "ilock p s =
    (case p of None \<Rightarrow> Panic ''ilock'' | Some ip \<Rightarrow>
     if i_ref (itable s ip) < 1 then Panic ''ilock''
     else and_then (acquiresleep (InodeChan ip) (i_lock (itable s ip)) (upd_inode_lock ip) s) (\<lambda>s.
       if i_valid (itable s ip) then Ok s
       else
         let x = itable s ip in
         and_then (bread (i_dev x) (IBLOCK (i_inum x) s) s) (\<lambda>(bp, s).
         let d = get_dinode (b_data (bufs s bp)) (unat (i_inum x) mod IPB);
             s = upd_inode ip (from_dinode d) s in
         and_then (brelse bp s) (\<lambda>s.
         let s = upd_inode ip (\<lambda>x. x\<lparr>i_valid := True\<rparr>) s in
         if i_type (itable s ip) = 0 then Panic ''ilock: no type'' else Ok s))))"

definition iunlock :: "nat option \<Rightarrow> 'a fs_state_scheme \<Rightarrow> 'a fs_state_scheme res" where
  "iunlock p s =
    (case p of None \<Rightarrow> Panic ''iunlock'' | Some ip \<Rightarrow>
     if \<not> holdingsleep (i_lock (itable s ip)) s \<or> i_ref (itable s ip) < 1 then Panic ''iunlock''
     else Ok (releasesleep (InodeChan ip) (upd_inode_lock ip) s))"

section \<open>Inode content\<close>

text \<open>Look an address up in an indirect block. \<open>bmap\<close> does this three times; in the
  doubly-indirect part it does not test the result of \<open>balloc\<close>.\<close>

definition bmap_indirect ::
  "bool \<Rightarrow> u32 \<Rightarrow> u32 \<Rightarrow> nat \<Rightarrow> 'a fs_state_scheme \<Rightarrow> (u32 \<times> 'a fs_state_scheme) res" where
  "bmap_indirect checked dev blk k s =
    and_then (bread dev blk s) (\<lambda>(bp, s).
    let a = get32 (b_data (bufs s bp)) k in
    if a = 0 then
      and_then (balloc dev s) (\<lambda>(a, s).
      and_then (if checked \<and> a = 0 then Ok s
                else log_write bp (set_data bp (put32 (b_data (bufs s bp)) k a) s)) (\<lambda>s.
      and_then (brelse bp s) (\<lambda>s. Ok (a, s))))
    else and_then (brelse bp s) (\<lambda>s. Ok (a, s)))"

definition set_addr :: "nat \<Rightarrow> nat \<Rightarrow> u32 \<Rightarrow> 'a fs_state_scheme \<Rightarrow> 'a fs_state_scheme" where
  "set_addr ip k a = upd_inode ip (\<lambda>x. x\<lparr>i_addrs := (i_addrs x)(k := a)\<rparr>)"

definition bmap :: "nat \<Rightarrow> u32 \<Rightarrow> 'a fs_state_scheme \<Rightarrow> (u32 \<times> 'a fs_state_scheme) res" where
  "bmap ip bn s =
    (let n = unat bn; x = itable s ip; dev = i_dev x in
     if n < NDIRECT then
       (if i_addrs x n = 0 then
          and_then (balloc dev s) (\<lambda>(a, s). if a = 0 then Ok (0, s) else Ok (a, set_addr ip n a s))
        else Ok (i_addrs x n, s))
     else if n - NDIRECT < NINDIRECT then
       and_then (if i_addrs x NDIRECT = 0 then
                   and_then (balloc dev s) (\<lambda>(a, s).
                     if a = 0 then Ok (0, s) else Ok (a, set_addr ip NDIRECT a s))
                 else Ok (i_addrs x NDIRECT, s)) (\<lambda>(a, s).
         if a = 0 then Ok (0, s) else bmap_indirect True dev a (n - NDIRECT) s)
     else if n - NDIRECT - NINDIRECT < NINDIRECT * NINDIRECT then
       let m = n - NDIRECT - NINDIRECT in
       and_then (if i_addrs x (NDIRECT + 1) = 0 then
                   and_then (balloc dev s) (\<lambda>(a, s). Ok (a, set_addr ip (NDIRECT + 1) a s))
                 else Ok (i_addrs x (NDIRECT + 1), s)) (\<lambda>(a, s).
       and_then (bmap_indirect False dev a (m div NINDIRECT) s) (\<lambda>(a, s).
       bmap_indirect False dev a (m mod NINDIRECT) s))
     else Panic ''bmap: out of range'')"

text \<open>Free the blocks an indirect block lists, then the block itself.\<close>

definition free_listed :: "u32 \<Rightarrow> u32 \<Rightarrow> 'a fs_state_scheme \<Rightarrow> 'a fs_state_scheme res" where
  "free_listed dev blk s =
    and_then (bread dev blk s) (\<lambda>(bp, s).
    and_then (for_each (\<lambda>j s.
      let a = get32 (b_data (bufs s bp)) j in if a \<noteq> 0 then bfree dev a s else Ok s) [0..<NINDIRECT] s) (\<lambda>s.
    and_then (brelse bp s) (\<lambda>s. bfree dev blk s)))"

definition itrunc :: "nat \<Rightarrow> 'a fs_state_scheme \<Rightarrow> 'a fs_state_scheme res" where
  "itrunc ip s =
    and_then (for_each (\<lambda>i s.
      let x = itable s ip; a = i_addrs x i in
      if a \<noteq> 0 then and_then (bfree (i_dev x) a s) (\<lambda>s. Ok (set_addr ip i 0 s)) else Ok s)
      [0..<NDIRECT] s) (\<lambda>s.
    and_then (let x = itable s ip; a = i_addrs x NDIRECT in
      if a \<noteq> 0 then and_then (free_listed (i_dev x) a s) (\<lambda>s. Ok (set_addr ip NDIRECT 0 s)) else Ok s) (\<lambda>s.
    and_then (let x = itable s ip; dev = i_dev x; a = i_addrs x (NDIRECT + 1) in
      if a \<noteq> 0 then
        and_then (bread dev a s) (\<lambda>(bp, s).
        and_then (for_each (\<lambda>i s.
          let c = get32 (b_data (bufs s bp)) i in if c \<noteq> 0 then free_listed dev c s else Ok s)
          [0..<NINDIRECT] s) (\<lambda>s.
        and_then (brelse bp s) (\<lambda>s.
        and_then (bfree dev a s) (\<lambda>s. Ok (set_addr ip (NDIRECT + 1) 0 s)))))
      else Ok s) (\<lambda>s.
    iupdate ip (upd_inode ip (\<lambda>x. x\<lparr>i_size := 0\<rparr>) s))))"

definition iput :: "nat \<Rightarrow> 'a fs_state_scheme \<Rightarrow> 'a fs_state_scheme res" where
  "iput ip s =
    (let x = itable s ip in
     and_then
       (if i_ref x = 1 \<and> i_valid x \<and> i_nlink x = 0 then
          and_then (acquiresleep (InodeChan ip) (i_lock x) (upd_inode_lock ip) s) (\<lambda>s.
          and_then (itrunc ip s) (\<lambda>s.
          and_then (iupdate ip (upd_inode ip (\<lambda>x. x\<lparr>i_type := 0\<rparr>) s)) (\<lambda>s.
          let s = upd_inode ip (\<lambda>x. x\<lparr>i_valid := False\<rparr>) s in
          Ok (releasesleep (InodeChan ip) (upd_inode_lock ip) s))))
        else Ok s)
       (\<lambda>s. Ok (upd_inode ip (\<lambda>x. x\<lparr>i_ref := i_ref x - 1\<rparr>) s)))"

definition iunlockput :: "nat \<Rightarrow> 'a fs_state_scheme \<Rightarrow> 'a fs_state_scheme res" where
  "iunlockput ip s = and_then (iunlock (Some ip) s) (\<lambda>s. iput ip s)"

record stat =
  st_dev :: u32
  st_ino :: u32
  st_type :: u16
  st_nlink :: u16
  st_size :: u64

definition stati :: "nat \<Rightarrow> 'a fs_state_scheme \<Rightarrow> stat" where
  "stati ip s =
    (let x = itable s ip in
     \<lparr>st_dev = i_dev x, st_ino = i_inum x, st_type = i_type x, st_nlink = i_nlink x,
      st_size = ucast (i_size x)\<rparr>)"

text \<open>One turn of the loops of \<open>readi\<close> and \<open>writei\<close>. The loop state is \<^verbatim>\<open>tot\<close>, \<^verbatim>\<open>off\<close>, the
  user or kernel address, and the kernel state.\<close>

definition readi_step ::
  "nat \<Rightarrow> u32 \<Rightarrow> u32 \<times> u32 \<times> addr \<times> 'a fs_state_scheme \<Rightarrow>
   (u32 \<times> u32 \<times> addr \<times> 'a fs_state_scheme, int \<times> 'a fs_state_scheme) ctl res" where
  "readi_step ip n = (\<lambda>(tot, off, dst, s).
    if \<not> tot < n then Ok (Done (sint tot, s))
    else and_then (bmap ip (off div 1024) s) (\<lambda>(a, s).
      if a = 0 then Ok (Done (sint tot, s))
      else and_then (bread (i_dev (itable s ip)) a s) (\<lambda>(bp, s).
        let m = min (n - tot) (1024 - off mod 1024) in
        and_then (either_copyout dst (get_bytes (b_data (bufs s bp)) (unat (off mod 1024)) (unat m)) s) (\<lambda>(r, s).
        and_then (brelse bp s) (\<lambda>s.
          if r = -1 then Ok (Done (-1, s))
          else Ok (Next (tot + m, off + m, addr_add dst (unat m), s)))))))"

definition readi :: "nat \<Rightarrow> addr \<Rightarrow> u32 \<Rightarrow> u32 \<Rightarrow> 'a fs_state_scheme \<Rightarrow> (int \<times> 'a fs_state_scheme) res" where
  "readi ip dst off n s =
    (let size = i_size (itable s ip) in
     if off > size \<or> off + n < off then Ok (0, s)
     else
       let n = (if off + n > size then size - off else n) in
       loop (Suc (unat n)) (readi_step ip n) (0, off, dst, s))"

definition writei_step ::
  "nat \<Rightarrow> u32 \<Rightarrow> u32 \<times> u32 \<times> addr \<times> 'a fs_state_scheme \<Rightarrow>
   (u32 \<times> u32 \<times> addr \<times> 'a fs_state_scheme, u32 \<times> u32 \<times> 'a fs_state_scheme) ctl res" where
  "writei_step ip n = (\<lambda>(tot, off, src, s).
    if \<not> tot < n then Ok (Done (tot, off, s))
    else and_then (bmap ip (off div 1024) s) (\<lambda>(a, s).
      if a = 0 then Ok (Done (tot, off, s))
      else and_then (bread (i_dev (itable s ip)) a s) (\<lambda>(bp, s).
        let m = min (n - tot) (1024 - off mod 1024) in
        and_then (either_copyin src (unat m) s) (\<lambda>(r, bs).
        let s = set_data bp (put_bytes (b_data (bufs s bp)) (unat (off mod 1024)) bs) s in
        if r = -1 then and_then (brelse bp s) (\<lambda>s. Ok (Done (tot, off, s)))
        else
          and_then (log_write bp s) (\<lambda>s.
          and_then (brelse bp s) (\<lambda>s.
          Ok (Next (tot + m, off + m, addr_add src (unat m), s))))))))"

definition writei :: "nat \<Rightarrow> addr \<Rightarrow> u32 \<Rightarrow> u32 \<Rightarrow> 'a fs_state_scheme \<Rightarrow> (int \<times> 'a fs_state_scheme) res" where
  "writei ip src off n s =
    (if off > i_size (itable s ip) \<or> off + n < off then Ok (-1, s)
     else if unat (off + n) > MAXFILE * BSIZE then Ok (-1, s)
     else
       and_then (loop (Suc (unat n)) (writei_step ip n) (0, off, src, s)) (\<lambda>(tot, off, s).
       let s = (if off > i_size (itable s ip) then upd_inode ip (\<lambda>x. x\<lparr>i_size := off\<rparr>) s else s) in
       and_then (iupdate ip s) (\<lambda>s. Ok (sint tot, s))))"

section \<open>Directories\<close>

definition namecmp :: "carray \<Rightarrow> carray \<Rightarrow> int" where
  "namecmp p q = strncmp p q DIRSIZ"

text \<open>A directory entry in the local variable \<^verbatim>\<open>de\<close>: the inode number and the name.\<close>

definition de_inum :: "'a kcore_scheme \<Rightarrow> u16" where
  "de_inum s = le_word (get_bytes (locals s) 0 2)"

definition de_name :: "'a kcore_scheme \<Rightarrow> carray" where
  "de_name s = (\<lambda>i. locals s (2 + i))"

definition dirlookup_step ::
  "nat \<Rightarrow> carray \<Rightarrow> u32 \<times> 'a fs_state_scheme \<Rightarrow>
   (u32 \<times> 'a fs_state_scheme, (nat \<times> u32) option \<times> 'a fs_state_scheme) ctl res" where
  "dirlookup_step dp name = (\<lambda>(off, s).
    if \<not> off < i_size (itable s dp) then Ok (Done (None, s))
    else and_then (readi dp (Local 0) off 16 s) (\<lambda>(r, s).
      if r \<noteq> 16 then Panic ''dirlookup read''
      else if de_inum s \<noteq> 0 \<and> namecmp name (de_name s) = 0 then
        and_then (iget (i_dev (itable s dp)) (ucast (de_inum s)) s) (\<lambda>(ip, s). Ok (Done (Some (ip, off), s)))
      else Ok (Next (off + 16, s))))"

text \<open>The result is the inode and the offset of its entry, which the C code stores through
  \<^verbatim>\<open>poff\<close>.\<close>

definition dirlookup ::
  "nat \<Rightarrow> carray \<Rightarrow> 'a fs_state_scheme \<Rightarrow> ((nat \<times> u32) option \<times> 'a fs_state_scheme) res" where
  "dirlookup dp name s =
    (if i_type (itable s dp) \<noteq> T_DIR then Panic ''dirlookup not DIR''
     else loop (unat (i_size (itable s dp)) div 16 + 2) (dirlookup_step dp name) (0, s))"

definition dirlink_step ::
  "nat \<Rightarrow> u32 \<times> 'a fs_state_scheme \<Rightarrow> (u32 \<times> 'a fs_state_scheme, u32 \<times> 'a fs_state_scheme) ctl res" where
  "dirlink_step dp = (\<lambda>(off, s).
    if \<not> off < i_size (itable s dp) then Ok (Done (off, s))
    else and_then (readi dp (Local 0) off 16 s) (\<lambda>(r, s).
      if r \<noteq> 16 then Panic ''dirlink read''
      else if de_inum s = 0 then Ok (Done (off, s)) else Ok (Next (off + 16, s))))"

definition set_de :: "u32 \<Rightarrow> carray \<Rightarrow> 'a kcore_scheme \<Rightarrow> 'a kcore_scheme" where
  "set_de inum name s =
    (let nm = strncpy (de_name s) name (int DIRSIZ);
         l = put_bytes (locals s) 2 (map nm [0..<DIRSIZ])
     in s\<lparr>locals := put_bytes l 0 (le_bytes 2 (ucast inum :: u16))\<rparr>)"

definition dirlink :: "nat \<Rightarrow> carray \<Rightarrow> u32 \<Rightarrow> 'a fs_state_scheme \<Rightarrow> (int \<times> 'a fs_state_scheme) res" where
  "dirlink dp name inum s =
    and_then (dirlookup dp name s) (\<lambda>(f, s).
    case f of
      Some (ip, _) \<Rightarrow> and_then (iput ip s) (\<lambda>s. Ok (-1, s))
    | None \<Rightarrow>
        and_then (loop (unat (i_size (itable s dp)) div 16 + 2) (dirlink_step dp) (0, s)) (\<lambda>(off, s).
        and_then (writei dp (Local 0) off 16 (set_de inum name s)) (\<lambda>(r, s).
          if r \<noteq> 16 then Ok (-1, s) else Ok (0, s))))"

section \<open>Paths\<close>

abbreviation (input) slash :: byte where "slash \<equiv> 47"

text \<open>\<open>skipelem\<close> splits the first element off a path; the element goes to \<open>name\<close>, cut to
  \<open>DIRSIZ\<close> bytes and terminated when it is shorter.\<close>

definition skipelem :: "byte list \<Rightarrow> carray \<Rightarrow> (byte list \<times> carray) option" where
  "skipelem path name =
    (let path = dropWhile (\<lambda>c. c = slash) path in
     if path = [] then None
     else
       let s = takeWhile (\<lambda>c. c \<noteq> slash) path;
           path = dropWhile (\<lambda>c. c \<noteq> slash) path;
           name = (if length s \<ge> DIRSIZ then put_bytes name 0 (take DIRSIZ s)
                   else (put_bytes name 0 s)(length s := 0))
       in Some (dropWhile (\<lambda>c. c = slash) path, name))"

definition namex_step ::
  "bool \<Rightarrow> nat \<times> byte list \<times> carray \<times> 'a fs_state_scheme \<Rightarrow>
   (nat \<times> byte list \<times> carray \<times> 'a fs_state_scheme, nat option \<times> carray \<times> 'a fs_state_scheme) ctl res" where
  "namex_step nameiparent = (\<lambda>(ip, path, name, s).
    case skipelem path name of
      None \<Rightarrow>
        if nameiparent then and_then (iput ip s) (\<lambda>s. Ok (Done (None, name, s)))
        else Ok (Done (Some ip, name, s))
    | Some (path, name) \<Rightarrow>
        and_then (ilock (Some ip) s) (\<lambda>s.
        if i_type (itable s ip) \<noteq> T_DIR then
          and_then (iunlockput ip s) (\<lambda>s. Ok (Done (None, name, s)))
        else if nameiparent \<and> path = [] then
          and_then (iunlock (Some ip) s) (\<lambda>s. Ok (Done (Some ip, name, s)))
        else
          and_then (dirlookup ip name s) (\<lambda>(f, s).
          case f of
            None \<Rightarrow> and_then (iunlockput ip s) (\<lambda>s. Ok (Done (None, name, s)))
          | Some (next_ip, _) \<Rightarrow>
              and_then (iunlockput ip s) (\<lambda>s. Ok (Next (next_ip, path, name, s))))))"

definition namex ::
  "byte list \<Rightarrow> bool \<Rightarrow> carray \<Rightarrow> 'a fs_state_scheme \<Rightarrow> (nat option \<times> carray \<times> 'a fs_state_scheme) res" where
  "namex path nameiparent name s =
    and_then (if path \<noteq> [] \<and> hd path = slash then iget ROOTDEV ROOTINO s
              else (case p_cwd (myproc s) of
                      Some cwd \<Rightarrow> Ok (idup cwd s) | None \<Rightarrow> Panic ''null dereference'')) (\<lambda>(ip, s).
    loop (Suc (length path)) (namex_step nameiparent) (ip, path, name, s))"

definition namei :: "byte list \<Rightarrow> 'a fs_state_scheme \<Rightarrow> (nat option \<times> 'a fs_state_scheme) res" where
  "namei path s = and_then (namex path False (\<lambda>_. 0) s) (\<lambda>(ip, _, s). Ok (ip, s))"

definition nameiparent ::
  "byte list \<Rightarrow> carray \<Rightarrow> 'a fs_state_scheme \<Rightarrow> (nat option \<times> carray \<times> 'a fs_state_scheme) res" where
  "nameiparent path name s = namex path True name s"

end
