(* ===== verification/Ring.thy ===== *)
theory Ring
  imports Prelude
begin

text \<open>
  The ring buffer that \<^verbatim>\<open>pipe.c\<close>, \<^verbatim>\<open>console.c\<close> and \<^verbatim>\<open>uart.c\<close> share as a pattern: an
  array used modulo its size and two free-running unsigned counters that wrap at the width of
  their type. The locale \<open>ring\<close> states what the pattern needs, that the size divides the
  number of counter values, and shows that the buffer is a queue: its content is a list, a
  store at the write counter appends, a load at the read counter takes the head.
\<close>

lemma Suc_unat_pred:
  fixes x :: "'i::len word"
  assumes "x \<noteq> 0"
  shows "Suc (unat (x - 1)) = unat x"
proof -
  have p: "0 < unat x" using assms by (simp add: unat_gt_0)
  then have "1 \<le> x" by (simp add: word_le_nat_alt)
  then have "unat (x - 1) = unat x - 1" by (simp add: unat_sub)
  with p show ?thesis by simp
qed

locale ring =
  fixes cap :: nat and idx :: "'i::len word \<Rightarrow> nat"
  assumes idx_mod: "idx i = unat i mod cap"
    and cap_pos: "0 < cap"
    and cap_dvd: "cap dvd 2 ^ LENGTH('i)"
    and cap_less: "cap < 2 ^ LENGTH('i)"
begin

text \<open>The elements between the read counter \<open>r\<close> and the write counter \<open>w\<close>.\<close>

definition content :: "(nat \<Rightarrow> 'a) \<Rightarrow> 'i word \<Rightarrow> 'i word \<Rightarrow> 'a list" where
  "content b r w = map (\<lambda>k. b (idx (r + of_nat k))) [0..<unat (w - r)]"

lemma length_content [simp]: "length (content b r w) = unat (w - r)"
  by (simp add: content_def)

lemma content_empty_iff: "content b r w = [] \<longleftrightarrow> r = w"
  using unat_eq_zero[of "w - r"] by (auto simp: content_def)

lemma content_same [simp]: "content b r r = []"
  by (simp add: content_def)

lemma idx_less: "idx i < cap"
  by (simp add: idx_mod cap_pos)

lemma idx_add: "idx (r + of_nat k) = (idx r + k) mod cap"
proof -
  have "unat (r + of_nat k) = (unat r + k) mod 2 ^ LENGTH('i)"
    by (simp only: unat_word_ariths(1) unat_of_nat mod_add_right_eq)
  then have "idx (r + of_nat k) = (unat r + k) mod cap"
    by (simp only: idx_mod mod_mod_cancel[OF cap_dvd])
  then show ?thesis by (simp only: idx_mod mod_add_left_eq)
qed

text \<open>Counters less than a full buffer apart index different cells.\<close>

lemma idx_inj:
  assumes "j < cap" "k < cap" "idx (r + of_nat j) = idx (r + of_nat k)"
  shows "j = k"
proof -
  have *: "x \<le> y \<Longrightarrow> y < cap \<Longrightarrow> (idx r + x) mod cap = (idx r + y) mod cap \<Longrightarrow> x = y" for x y
  proof -
    assume a: "x \<le> y" "y < cap" "(idx r + x) mod cap = (idx r + y) mod cap"
    then have "cap dvd (idx r + y) - (idx r + x)"
      using mod_eq_dvd_iff_nat[of "idx r + x" "idx r + y" cap] by simp
    then have "cap dvd y - x" by simp
    then have "y - x = 0" using a(2) by (meson dvd_imp_le less_imp_diff_less not_less neq0_conv)
    then show "x = y" using a(1) by simp
  qed
  show ?thesis
    using assms *[of j k] *[of k j] by (cases "j \<le> k") (simp_all add: idx_add)
qed

lemma unat_Suc_diff:
  fixes w r :: "'i word"
  shows "unat (w - r) < cap \<Longrightarrow> unat (w + 1 - r) = Suc (unat (w - r))"
proof -
  assume a: "unat (w - r) < cap"
  have e: "w + 1 - r = (w - r) + 1" by simp
  have "unat (w - r) + 1 < 2 ^ LENGTH('i)" using a cap_less by linarith
  then show ?thesis
    unfolding e unat_word_ariths(1) by (simp only: unat_1 mod_less)
qed

lemma unat_pred_diff:
  fixes w r :: "'i word"
  shows "r \<noteq> w \<Longrightarrow> unat (w - r) = Suc (unat (w - (r + 1)))"
proof -
  assume "r \<noteq> w"
  then have "w - r \<noteq> 0" by simp
  then have "Suc (unat (w - r - 1)) = unat (w - r)" by (rule Suc_unat_pred)
  then show ?thesis by (simp add: diff_diff_eq)
qed

text \<open>A store at the write counter of a buffer that is not full appends.\<close>

lemma content_push:
  assumes "unat (w - r) < cap"
  shows "content (b(idx w := c)) r (w + 1) = content b r w @ [c]"
proof -
  have w: "r + of_nat (unat (w - r)) = w" by simp
  have "idx (r + of_nat k) \<noteq> idx w" if "k < unat (w - r)" for k
  proof
    assume "idx (r + of_nat k) = idx w"
    then have "idx (r + of_nat k) = idx (r + of_nat (unat (w - r)))" by (simp only: w)
    with idx_inj[of k "unat (w - r)" r] that assms show False by linarith
  qed
  then show ?thesis
    by (simp add: content_def unat_Suc_diff[OF assms])
qed

text \<open>A load at the read counter of a buffer that is not empty takes the head.\<close>

lemma content_pop:
  assumes "r \<noteq> w"
  shows "content b r w = b (idx r) # content b (r + 1) w"
proof -
  have "[0..<Suc n] = 0 # map Suc [0..<n]" for n
    by (simp add: upt_conv_Cons map_Suc_upt del: upt_Suc)
  then show ?thesis
    by (simp add: content_def unat_pred_diff[OF assms] comp_def add.assoc del: upt_Suc)
qed

text \<open>Moving the write counter back drops the last element.\<close>

lemma content_unpush:
  assumes "r \<noteq> w"
  shows "content b r w = content b r (w - 1) @ [b (idx (w - 1))]"
proof -
  have e: "w - r - 1 = w - 1 - r" by simp
  have "w - r \<noteq> 0" using assms by simp
  from Suc_unat_pred[OF this] have n: "unat (w - r) = Suc (unat (w - 1 - r))" by (simp only: e)
  have "r + of_nat (unat (w - 1 - r)) = w - 1" by simp
  then show ?thesis unfolding content_def n upt_Suc by (simp only: map_append list.map if_True zero_le)
qed

end

end
