(* ===== verification/Uart.thy ===== *)
theory Uart
  imports Fs Ring
begin

text \<open>
  The serial port driver, \<^verbatim>\<open>kernel/uart.c\<close>, and formatted output on it,
  \<^verbatim>\<open>kernel/printf.c\<close>. The 16550 chip is outside the program; of it the state keeps the
  answers of its line status register to the transmit-ready test, one for each read the
  driver will make (\<open>tx_ready\<close>, of which the first \<open>tx_reads\<close> are used up), the characters
  waiting in its receive FIFO (\<open>rx\<close>), the characters written to its transmit register so
  far (\<open>tx_out\<close>), and the last value written to each control register.

  An operation that sleeps after it has already done part of its work returns the state at
  that moment together with \<open>Sleep c k\<close>, where \<open>k\<close> is how far it has come; calling its
  \<open>_from\<close> version with \<open>k\<close> is what the thread does when it runs again.
\<close>

datatype wait = Ret int | Sleep chan int

record dev_state = fs_state +
  tx_ready :: "nat \<Rightarrow> bool"
  tx_reads :: nat
  tx_out :: "byte list"
  rx :: "byte list"
  uart_regs :: "nat \<Rightarrow> byte"
  uart_tx_buf :: "nat \<Rightarrow> byte"
  uart_tx_w :: u64
  uart_tx_r :: u64
  panicked :: bool
  cons_buf :: "nat \<Rightarrow> byte"
  cons_r :: u32
  cons_w :: u32
  cons_e :: u32
  devsw_console :: bool
  ticks :: u32

section \<open>The driver\<close>

abbreviation (input) UART_TX_BUF_SIZE :: nat where "UART_TX_BUF_SIZE \<equiv> 32"

definition WriteReg :: "nat \<Rightarrow> byte \<Rightarrow> 'a dev_state_scheme \<Rightarrow> 'a dev_state_scheme" where
  "WriteReg reg v s = s\<lparr>uart_regs := (uart_regs s)(reg := v)\<rparr>"

definition uartinit :: "'a dev_state_scheme \<Rightarrow> 'a dev_state_scheme" where
  "uartinit s =
    (let s = WriteReg 1 0 s;
         s = WriteReg 3 0x80 s;
         s = WriteReg 0 3 s;
         s = WriteReg 1 0 s;
         s = WriteReg 3 3 s;
         s = WriteReg 2 (1 OR 6) s
     in WriteReg 1 (2 OR 1) s)"

definition write_thr :: "byte \<Rightarrow> 'a dev_state_scheme \<Rightarrow> 'a dev_state_scheme" where
  "write_thr c s = s\<lparr>tx_out := tx_out s @ [c]\<rparr>"

definition uart_idx :: "u64 \<Rightarrow> nat" where
  "uart_idx i = unat (i mod 32)"

definition uartstart_step :: "'a dev_state_scheme \<Rightarrow> ('a dev_state_scheme, 'a dev_state_scheme) ctl res" where
  "uartstart_step s =
    (if uart_tx_w s = uart_tx_r s then Ok (Done s)
     else
       let idle = tx_ready s (tx_reads s); s = s\<lparr>tx_reads := Suc (tx_reads s)\<rparr> in
       if \<not> idle then Ok (Done s)
       else
         let c = uart_tx_buf s (uart_idx (uart_tx_r s));
             s = s\<lparr>uart_tx_r := uart_tx_r s + 1\<rparr>;
             s = wakeup UartChan s
         in Ok (Next (write_thr c s)))"

definition uartstart :: "'a dev_state_scheme \<Rightarrow> 'a dev_state_scheme res" where
  "uartstart s = loop (Suc (unat (uart_tx_w s - uart_tx_r s))) uartstart_step s"

definition uartputc :: "byte \<Rightarrow> 'a dev_state_scheme \<Rightarrow> 'a dev_state_scheme res" where
  "uartputc c s =
    (if panicked s then Diverge
     else if uart_tx_w s = uart_tx_r s + 32 then Blocked UartChan
     else
       let s = s\<lparr>uart_tx_buf := (uart_tx_buf s)(uart_idx (uart_tx_w s) := c)\<rparr>;
           s = s\<lparr>uart_tx_w := uart_tx_w s + 1\<rparr>
       in uartstart s)"

text \<open>The number of the first read of the status register, from the \<open>i\<close>-th on, that finds the
  transmitter idle.\<close>

partial_function (option) tx_wait :: "(nat \<Rightarrow> bool) \<Rightarrow> nat \<Rightarrow> nat option" where
  [code]: "tx_wait ready i = (if ready i then Some i else tx_wait ready (Suc i))"

definition uartputc_sync :: "byte \<Rightarrow> 'a dev_state_scheme \<Rightarrow> 'a dev_state_scheme res" where
  "uartputc_sync c s =
    (if panicked s then Diverge
     else case tx_wait (tx_ready s) (tx_reads s) of
         None \<Rightarrow> Diverge
       | Some i \<Rightarrow> Ok (write_thr c (s\<lparr>tx_reads := Suc i\<rparr>)))"

text \<open>\<open>None\<close> is the result \<^verbatim>\<open>-1\<close>.\<close>

definition uartgetc :: "'a dev_state_scheme \<Rightarrow> byte option \<times> 'a dev_state_scheme" where
  "uartgetc s = (case rx s of [] \<Rightarrow> (None, s) | c # cs \<Rightarrow> (Some c, s\<lparr>rx := cs\<rparr>))"

section \<open>Formatted output\<close>

abbreviation (input) BACKSPACE :: int where "BACKSPACE \<equiv> 0x100"

definition consputc :: "int \<Rightarrow> 'a dev_state_scheme \<Rightarrow> 'a dev_state_scheme res" where
  "consputc c s =
    (if c = BACKSPACE then
       and_then (uartputc_sync 8 s) (\<lambda>s. and_then (uartputc_sync 32 s) (\<lambda>s. uartputc_sync 8 s))
     else uartputc_sync (word_of_int c) s)"

definition putchars :: "byte list \<Rightarrow> 'a dev_state_scheme \<Rightarrow> 'a dev_state_scheme res" where
  "putchars bs s = for_each (\<lambda>c s. consputc (uint c) s) bs s"

definition bytes_of :: "string \<Rightarrow> byte list" where
  "bytes_of cs = map of_char cs"

definition digits :: "nat \<Rightarrow> byte" where
  "digits i = bytes_of ''0123456789abcdef'' ! i"

text \<open>The digits of \<open>x\<close>, least significant first: the \<^verbatim>\<open>do\<close> loop of \<open>printint\<close>, on the
  unsigned value.\<close>

function print_digits :: "nat \<Rightarrow> nat \<Rightarrow> byte list" where
  "print_digits base x =
     digits (x mod base) # (if 1 < base \<and> x div base \<noteq> 0 then print_digits base (x div base) else [])"
  by pat_completeness auto
termination
  by (relation "measure snd") (auto simp: div_greater_zero_iff intro!: div_less_dividend)

text \<open>The characters \<open>printint\<close> prints. \<open>xx\<close> is a C \<^verbatim>\<open>int\<close>; negating the least \<^verbatim>\<open>int\<close>
  gives itself.\<close>

definition printint_chars :: "u32 \<Rightarrow> nat \<Rightarrow> bool \<Rightarrow> byte list" where
  "printint_chars xx base sign =
    (let neg = (sign \<and> sint xx < 0);
         x = (if neg then - xx else xx);
         buf = print_digits base (unat x);
         buf = (if neg then buf @ [45] else buf)
     in rev buf)"

definition printint :: "u32 \<Rightarrow> nat \<Rightarrow> bool \<Rightarrow> 'a dev_state_scheme \<Rightarrow> 'a dev_state_scheme res" where
  "printint xx base sign s = putchars (printint_chars xx base sign) s"

text \<open>\<^verbatim>\<open>x << 4\<close> sixteen times, printing the top four bits each time.\<close>

fun printptr_chars :: "nat \<Rightarrow> u64 \<Rightarrow> byte list" where
  "printptr_chars 0 x = []"
| "printptr_chars (Suc n) x = digits (unat (drop_bit 60 x)) # printptr_chars n (push_bit 4 x)"

definition printptr :: "u64 \<Rightarrow> 'a dev_state_scheme \<Rightarrow> 'a dev_state_scheme res" where
  "printptr x s = putchars (48 # 120 # printptr_chars 16 x) s"

text \<open>An argument of \<open>printf\<close>: an \<^verbatim>\<open>int\<close>, a 64-bit word, or a string, which may be a null
  pointer. A missing argument or one of another type is undefined in C.\<close>

datatype va_arg = VInt u32 | VPtr u64 | VStr "byte list option"

fun printf_chars :: "byte list \<Rightarrow> va_arg list \<Rightarrow> 'a dev_state_scheme \<Rightarrow> 'a dev_state_scheme res" where
  "printf_chars [] ap s = Ok s"
| "printf_chars (c # fmt) ap s =
    (if c \<noteq> 37 then and_then (consputc (uint c) s) (printf_chars fmt ap)
     else case fmt of
        [] \<Rightarrow> Ok s
      | c # fmt \<Rightarrow>
         if c = 100 then
           (case ap of VInt x # ap \<Rightarrow> and_then (printint x 10 True s) (printf_chars fmt ap)
            | _ \<Rightarrow> Panic ''undefined va_arg'')
         else if c = 120 then
           (case ap of VInt x # ap \<Rightarrow> and_then (printint x 16 True s) (printf_chars fmt ap)
            | _ \<Rightarrow> Panic ''undefined va_arg'')
         else if c = 112 then
           (case ap of VPtr x # ap \<Rightarrow> and_then (printptr x s) (printf_chars fmt ap)
            | _ \<Rightarrow> Panic ''undefined va_arg'')
         else if c = 115 then
           (case ap of
              VStr x # ap \<Rightarrow>
                and_then (putchars (case x of None \<Rightarrow> bytes_of ''(null)'' | Some bs \<Rightarrow> bs) s) (printf_chars fmt ap)
            | _ \<Rightarrow> Panic ''undefined va_arg'')
         else if c = 37 then and_then (consputc 37 s) (printf_chars fmt ap)
         else and_then (consputc 37 s) (\<lambda>s. and_then (consputc (uint c) s) (printf_chars fmt ap)))"

definition printf :: "byte list option \<Rightarrow> va_arg list \<Rightarrow> 'a dev_state_scheme \<Rightarrow> 'a dev_state_scheme res" where
  "printf fmt ap s = (case fmt of None \<Rightarrow> Panic ''null fmt'' | Some f \<Rightarrow> printf_chars f ap s)"

end
