(* ===== verification/Console.thy ===== *)
theory Console
  imports Uart
begin

text \<open>
  The console, \<^verbatim>\<open>kernel/console.c\<close>, with the interrupt half of \<^verbatim>\<open>kernel/uart.c\<close> that feeds
  it and \<^verbatim>\<open>procdump\<close> of \<^verbatim>\<open>kernel/proc.c\<close>, which control-P calls. The line buffer holds
  the characters between the read index \<open>cons_r\<close> and the edit index \<open>cons_e\<close>; those before
  the write index \<open>cons_w\<close> are complete lines.
\<close>

abbreviation (input) INPUT_BUF_SIZE :: nat where "INPUT_BUF_SIZE \<equiv> 128"

definition cons_idx :: "u32 \<Rightarrow> nat" where
  "cons_idx i = unat (i mod 128)"

section \<open>Reading and writing\<close>

text \<open>One turn of the loop of \<open>consolewrite\<close>.\<close>

definition consolewrite_step ::
  "addr \<Rightarrow> int \<Rightarrow> int \<times> 'a dev_state_scheme \<Rightarrow> (int \<times> 'a dev_state_scheme, wait \<times> 'a dev_state_scheme) ctl res" where
  "consolewrite_step src n = (\<lambda>(i, s).
    if \<not> i < n then Ok (Done (Ret i, s))
    else and_then (either_copyin (addr_add src (nat i)) 1 s) (\<lambda>(r, cs).
      if r = -1 then Ok (Done (Ret i, s))
      else case uartputc (hd cs) s of
          Ok s \<Rightarrow> Ok (Next (i + 1, s))
        | Blocked c \<Rightarrow> Ok (Done (Sleep c i, s))
        | Panic m \<Rightarrow> Panic m
        | Diverge \<Rightarrow> Diverge))"

definition consolewrite_from :: "int \<Rightarrow> addr \<Rightarrow> int \<Rightarrow> 'a dev_state_scheme \<Rightarrow> (wait \<times> 'a dev_state_scheme) res" where
  "consolewrite_from i src n s = loop (Suc (nat (n - i))) (consolewrite_step src n) (i, s)"

definition consolewrite :: "addr \<Rightarrow> int \<Rightarrow> 'a dev_state_scheme \<Rightarrow> (wait \<times> 'a dev_state_scheme) res" where
  "consolewrite src n s = consolewrite_from 0 src n s"

text \<open>One turn of the loop of \<open>consoleread\<close>; \<open>dst\<close> and \<open>n\<close> are the destination and the
  count that remain, \<open>target\<close> the count asked for.\<close>

definition consoleread_step ::
  "int \<Rightarrow> addr \<times> int \<times> 'a dev_state_scheme \<Rightarrow> (addr \<times> int \<times> 'a dev_state_scheme, wait \<times> 'a dev_state_scheme) ctl res" where
  "consoleread_step target = (\<lambda>(dst, n, s).
    if \<not> n > 0 then Ok (Done (Ret (target - n), s))
    else if cons_r s = cons_w s then
      (if p_killed (myproc s) then Ok (Done (Ret (-1), s)) else Ok (Done (Sleep ConsChan (target - n), s)))
    else
      let c = cons_buf s (cons_idx (cons_r s)); s = s\<lparr>cons_r := cons_r s + 1\<rparr> in
      if c = 4 then
        let s = (if n < target then s\<lparr>cons_r := cons_r s - 1\<rparr> else s) in Ok (Done (Ret (target - n), s))
      else and_then (either_copyout dst [c] s) (\<lambda>(r, s).
        if r = -1 then Ok (Done (Ret (target - n), s))
        else if c = 10 then Ok (Done (Ret (target - (n - 1)), s))
        else Ok (Next (addr_add dst 1, n - 1, s))))"

definition consoleread_from :: "int \<Rightarrow> addr \<Rightarrow> int \<Rightarrow> 'a dev_state_scheme \<Rightarrow> (wait \<times> 'a dev_state_scheme) res" where
  "consoleread_from k dst target s =
    loop (Suc (nat (target - k))) (consoleread_step target) (addr_add dst (nat k), target - k, s)"

definition consoleread :: "addr \<Rightarrow> int \<Rightarrow> 'a dev_state_scheme \<Rightarrow> (wait \<times> 'a dev_state_scheme) res" where
  "consoleread dst n s = consoleread_from 0 dst n s"

section \<open>Interrupts\<close>

definition state_name :: "procstate \<Rightarrow> string" where
  "state_name st = (case st of UNUSED \<Rightarrow> ''unused'' | USED \<Rightarrow> ''used'' | SLEEPING \<Rightarrow> ''sleep ''
     | RUNNABLE \<Rightarrow> ''runble'' | RUNNING \<Rightarrow> ''run   '' | ZOMBIE \<Rightarrow> ''zombie'')"

definition cname :: "carray \<Rightarrow> nat \<Rightarrow> byte list" where
  "cname a n = takeWhile (\<lambda>c. c \<noteq> 0) (map a [0..<n])"

definition procdump :: "'a dev_state_scheme \<Rightarrow> 'a dev_state_scheme res" where
  "procdump s =
    and_then (printf (Some (bytes_of ''\<newline>'')) [] s) (\<lambda>s.
    for_each (\<lambda>i s. let p = procs s i in
      if p_state p = UNUSED then Ok s
      else and_then (printf (Some (bytes_of ''%d %s %s''))
             [VInt (word_of_int (p_pid p)), VStr (Some (bytes_of (state_name (p_state p)))),
              VStr (Some (cname (p_name p) 16))] s) (\<lambda>s.
           printf (Some (bytes_of ''\<newline>'')) [] s)) [0..<NPROC] s)"

text \<open>Control-U: erase back to the start of the line.\<close>

definition kill_line_step :: "'a dev_state_scheme \<Rightarrow> ('a dev_state_scheme, 'a dev_state_scheme) ctl res" where
  "kill_line_step s =
    (if cons_e s \<noteq> cons_w s \<and> cons_buf s (cons_idx (cons_e s - 1)) \<noteq> 10
     then and_then (consputc BACKSPACE (s\<lparr>cons_e := cons_e s - 1\<rparr>)) (\<lambda>s. Ok (Next s))
     else Ok (Done s))"

definition consoleintr :: "byte \<Rightarrow> 'a dev_state_scheme \<Rightarrow> 'a dev_state_scheme res" where
  "consoleintr c s =
    (if c = 16 then procdump s
     else if c = 21 then loop (Suc (unat (cons_e s - cons_w s))) kill_line_step s
     else if c = 8 \<or> c = 127 then
       (if cons_e s \<noteq> cons_w s then consputc BACKSPACE (s\<lparr>cons_e := cons_e s - 1\<rparr>) else Ok s)
     else if c \<noteq> 0 \<and> cons_e s - cons_r s < 128 then
       let c = (if c = 13 then 10 else c) in
       and_then (consputc (uint c) s) (\<lambda>s.
       let s = s\<lparr>cons_buf := (cons_buf s)(cons_idx (cons_e s) := c), cons_e := cons_e s + 1\<rparr> in
       if c = 10 \<or> c = 4 \<or> cons_e s - cons_r s = 128
       then Ok (wakeup ConsChan (s\<lparr>cons_w := cons_e s\<rparr>)) else Ok s)
     else Ok s)"

definition uartintr_step :: "'a dev_state_scheme \<Rightarrow> ('a dev_state_scheme, 'a dev_state_scheme) ctl res" where
  "uartintr_step s =
    (case uartgetc s of
       (None, s) \<Rightarrow> Ok (Done s)
     | (Some c, s) \<Rightarrow> and_then (consoleintr c s) (\<lambda>s. Ok (Next s)))"

definition uartintr :: "'a dev_state_scheme \<Rightarrow> 'a dev_state_scheme res" where
  "uartintr s = and_then (loop (Suc (length (rx s))) uartintr_step s) (\<lambda>s. uartstart s)"

definition consoleinit :: "'a dev_state_scheme \<Rightarrow> 'a dev_state_scheme" where
  "consoleinit s = (uartinit s)\<lparr>devsw_console := True\<rparr>"

definition clockintr :: "'a dev_state_scheme \<Rightarrow> 'a dev_state_scheme" where
  "clockintr s = wakeup TicksChan (s\<lparr>ticks := ticks s + 1\<rparr>)"


section \<open>A concrete state\<close>

definition zero_inode :: inode where
  "zero_inode = \<lparr>i_dev = 0, i_inum = 0, i_ref = 0, i_lock = initsleeplock, i_valid = False, i_type = 0,
     i_major = 0, i_minor = 0, i_nlink = 0, i_size = 0, i_addrs = (\<lambda>_. 0)\<rparr>"

definition dev0 :: dev_state where
  "dev0 =
    \<lparr>mem = (\<lambda>_. 0), locals = (\<lambda>_. 0), kern_end = 0x80030000, kern_etext = 0x80008000,
     trampoline_pa = 0x80007000, kernel_pagetable = 0, freelist = 0, procs = (\<lambda>_. zero_proc),
     curp = 0, nextpid = 2, initproc = None,
     bufs = (\<lambda>_. zero_buf), bnext = (\<lambda>i. if i = HEAD then 0 else i + 1),
     bprev = (\<lambda>i. if i = 0 then HEAD else i - 1), disk = (\<lambda>_ _. 0), wtrace = [],
     l_start = 2, l_size = 30, l_outstanding = 0, l_committing = False, l_dev = 1, l_n = 0, l_block = (\<lambda>_. 0),
     sb = \<lparr>sb_magic = FSMAGIC, sb_size = 1000, sb_nblocks = 950, sb_ninodes = 200, sb_nlog = 30,
       sb_logstart = 2, sb_inodestart = 32, sb_bmapstart = 45\<rparr>,
     itable = (\<lambda>_. zero_inode),
     tx_ready = (\<lambda>_. True), tx_reads = 0, tx_out = [], rx = [], uart_regs = (\<lambda>_. 0), uart_tx_buf = (\<lambda>_. 0),
     uart_tx_w = 0, uart_tx_r = 0, panicked = False, cons_buf = (\<lambda>_. 0), cons_r = 0, cons_w = 0, cons_e = 0,
     devsw_console = True, ticks = 0\<rparr>"

end
