(* ===== verification/File.thy ===== *)
theory File
  imports Console
begin

text \<open>
  Open files and pipes, \<^verbatim>\<open>kernel/file.c\<close> and \<^verbatim>\<open>kernel/pipe.c\<close>. Pointers to open files
  are indices into \<^verbatim>\<open>ftable.file\<close>. A pipe occupies a page from \<open>kalloc\<close>; its fields
  are kept in the map \<open>pipes\<close> under the address of that page. Device operations go through
  \<^verbatim>\<open>devsw\<close>, whose only entries that are ever set are those of the console.
\<close>

datatype ftype = FD_NONE | FD_PIPE | FD_INODE | FD_DEVICE

record file_t =
  f_type :: ftype
  f_ref :: int
  f_readable :: bool
  f_writable :: bool
  f_pipe :: u64
  f_ip :: nat
  f_off :: u32
  f_major :: u16

record pipe =
  pi_data :: "nat \<Rightarrow> byte"
  pi_nread :: u32
  pi_nwrite :: u32
  pi_readopen :: bool
  pi_writeopen :: bool

record file_state = dev_state +
  ftable :: "nat \<Rightarrow> file_t"
  pipes :: "u64 \<Rightarrow> pipe"

definition upd_file :: "nat \<Rightarrow> (file_t \<Rightarrow> file_t) \<Rightarrow> 'a file_state_scheme \<Rightarrow> 'a file_state_scheme" where
  "upd_file f g s = s\<lparr>ftable := (ftable s)(f := g (ftable s f))\<rparr>"

definition upd_pipe :: "u64 \<Rightarrow> (pipe \<Rightarrow> pipe) \<Rightarrow> 'a file_state_scheme \<Rightarrow> 'a file_state_scheme" where
  "upd_pipe a g s = s\<lparr>pipes := (pipes s)(a := g (pipes s a))\<rparr>"

section \<open>Pipes\<close>

abbreviation (input) PIPESIZE :: nat where "PIPESIZE \<equiv> 512"

definition pipe_idx :: "u32 \<Rightarrow> nat" where
  "pipe_idx i = unat (i mod 512)"

definition pipeclose :: "u64 \<Rightarrow> bool \<Rightarrow> 'a file_state_scheme \<Rightarrow> 'a file_state_scheme res" where
  "pipeclose a writable s =
    (let s = (if writable then wakeup (PipeReadChan a) (upd_pipe a (\<lambda>p. p\<lparr>pi_writeopen := False\<rparr>) s)
              else wakeup (PipeWriteChan a) (upd_pipe a (\<lambda>p. p\<lparr>pi_readopen := False\<rparr>) s))
     in if \<not> pi_readopen (pipes s a) \<and> \<not> pi_writeopen (pipes s a) then kfree a s else Ok s)"

text \<open>The store of one byte into the buffer, and the load of one.\<close>

definition pipe_push :: "byte \<Rightarrow> pipe \<Rightarrow> pipe" where
  "pipe_push ch p = p\<lparr>pi_data := (pi_data p)(pipe_idx (pi_nwrite p) := ch), pi_nwrite := pi_nwrite p + 1\<rparr>"

definition pipe_pop :: "pipe \<Rightarrow> byte \<times> pipe" where
  "pipe_pop p = (pi_data p (pipe_idx (pi_nread p)), p\<lparr>pi_nread := pi_nread p + 1\<rparr>)"

definition pipewrite_step ::
  "u64 \<Rightarrow> u64 \<Rightarrow> int \<Rightarrow> int \<times> 'a file_state_scheme \<Rightarrow> (int \<times> 'a file_state_scheme, wait \<times> 'a file_state_scheme) ctl res" where
  "pipewrite_step a addr n = (\<lambda>(i, s).
    if \<not> i < n then Ok (Done (Ret i, wakeup (PipeReadChan a) s))
    else if \<not> pi_readopen (pipes s a) \<or> p_killed (myproc s) then Ok (Done (Ret (-1), s))
    else if pi_nwrite (pipes s a) = pi_nread (pipes s a) + 512
    then Ok (Done (Sleep (PipeWriteChan a) i, wakeup (PipeReadChan a) s))
    else and_then (copyin (p_pagetable (myproc s)) (addr + word_of_int i) 1 s) (\<lambda>(r, bs).
      if r = -1 then Ok (Done (Ret i, wakeup (PipeReadChan a) s))
      else Ok (Next (i + 1, upd_pipe a (pipe_push (hd bs)) s))))"

definition pipewrite_from ::
  "int \<Rightarrow> u64 \<Rightarrow> u64 \<Rightarrow> int \<Rightarrow> 'a file_state_scheme \<Rightarrow> (wait \<times> 'a file_state_scheme) res" where
  "pipewrite_from i a addr n s = loop (Suc (nat (n - i))) (pipewrite_step a addr n) (i, s)"

definition pipewrite :: "u64 \<Rightarrow> u64 \<Rightarrow> int \<Rightarrow> 'a file_state_scheme \<Rightarrow> (wait \<times> 'a file_state_scheme) res" where
  "pipewrite a addr n s = pipewrite_from 0 a addr n s"

definition piperead_step ::
  "u64 \<Rightarrow> u64 \<Rightarrow> int \<Rightarrow> int \<times> 'a file_state_scheme \<Rightarrow> (int \<times> 'a file_state_scheme, int \<times> 'a file_state_scheme) ctl res" where
  "piperead_step a addr n = (\<lambda>(i, s).
    if \<not> i < n then Ok (Done (i, s))
    else if pi_nread (pipes s a) = pi_nwrite (pipes s a) then Ok (Done (i, s))
    else
      let (ch, p) = pipe_pop (pipes s a); s = upd_pipe a (\<lambda>_. p) s in
      and_then (copyout (p_pagetable (myproc s)) (addr + word_of_int i) [ch] s) (\<lambda>(r, s).
        if r = -1 then Ok (Done (i, s)) else Ok (Next (i + 1, s))))"

definition piperead :: "u64 \<Rightarrow> u64 \<Rightarrow> int \<Rightarrow> 'a file_state_scheme \<Rightarrow> (wait \<times> 'a file_state_scheme) res" where
  "piperead a addr n s =
    (if pi_nread (pipes s a) = pi_nwrite (pipes s a) \<and> pi_writeopen (pipes s a) then
       (if p_killed (myproc s) then Ok (Ret (-1), s) else Ok (Sleep (PipeReadChan a) 0, s))
     else and_then (loop (Suc (nat n)) (piperead_step a addr n) (0, s)) (\<lambda>(i, s).
       Ok (Ret i, wakeup (PipeWriteChan a) s)))"

section \<open>Open files\<close>

definition filealloc :: "'a file_state_scheme \<Rightarrow> nat option \<times> 'a file_state_scheme" where
  "filealloc s =
    (case List.find (\<lambda>f. f_ref (ftable s f) = 0) [0..<NFILE] of
       None \<Rightarrow> (None, s)
     | Some f \<Rightarrow> (Some f, upd_file f (\<lambda>x. x\<lparr>f_ref := 1\<rparr>) s))"

definition filedup :: "nat \<Rightarrow> 'a file_state_scheme \<Rightarrow> 'a file_state_scheme res" where
  "filedup f s =
    (if f_ref (ftable s f) < 1 then Panic ''filedup''
     else Ok (upd_file f (\<lambda>x. x\<lparr>f_ref := f_ref x + 1\<rparr>) s))"

definition fileclose :: "nat \<Rightarrow> 'a file_state_scheme \<Rightarrow> 'a file_state_scheme res" where
  "fileclose f s =
    (if f_ref (ftable s f) < 1 then Panic ''fileclose''
     else
       let s = upd_file f (\<lambda>x. x\<lparr>f_ref := f_ref x - 1\<rparr>) s in
       if f_ref (ftable s f) > 0 then Ok s
       else
         let ff = ftable s f; s = upd_file f (\<lambda>x. x\<lparr>f_ref := 0, f_type := FD_NONE\<rparr>) s in
         if f_type ff = FD_PIPE then pipeclose (f_pipe ff) (f_writable ff) s
         else if f_type ff = FD_INODE \<or> f_type ff = FD_DEVICE then
           and_then (begin_op s) (\<lambda>s. and_then (iput (f_ip ff) s) (\<lambda>s. end_op s))
         else Ok s)"

definition pipealloc :: "'a file_state_scheme \<Rightarrow> ((nat \<times> nat) option \<times> 'a file_state_scheme) res" where
  "pipealloc s =
    (case filealloc s of
       (None, s) \<Rightarrow> Ok (None, s)
     | (Some f0, s) \<Rightarrow>
       (case filealloc s of
          (None, s) \<Rightarrow> and_then (fileclose f0 s) (\<lambda>s. Ok (None, s))
        | (Some f1, s) \<Rightarrow>
            let (a, s) = kalloc s in
            if a = 0 then
              and_then (fileclose f0 s) (\<lambda>s. and_then (fileclose f1 s) (\<lambda>s. Ok (None, s)))
            else
              let s = upd_pipe a (\<lambda>p. p\<lparr>pi_readopen := True, pi_writeopen := True, pi_nwrite := 0, pi_nread := 0\<rparr>) s;
                  s = upd_file f0 (\<lambda>x. x\<lparr>f_type := FD_PIPE, f_readable := True, f_writable := False, f_pipe := a\<rparr>) s;
                  s = upd_file f1 (\<lambda>x. x\<lparr>f_type := FD_PIPE, f_readable := False, f_writable := True, f_pipe := a\<rparr>) s
              in Ok (Some (f0, f1), s)))"

text \<open>The bytes of a \<^verbatim>\<open>struct stat\<close>: \<open>pad\<close> is what the four bytes of padding after the
  shorts happen to hold, which \<open>filestat\<close> copies out with the rest.\<close>

definition stat_bytes :: "byte list \<Rightarrow> stat \<Rightarrow> byte list" where
  "stat_bytes pad st =
     le_bytes 4 (st_dev st) @ le_bytes 4 (st_ino st) @ le_bytes 2 (st_type st) @
     le_bytes 2 (st_nlink st) @ pad @ le_bytes 8 (st_size st)"

definition filestat :: "nat \<Rightarrow> u64 \<Rightarrow> 'a file_state_scheme \<Rightarrow> (int \<times> 'a file_state_scheme) res" where
  "filestat f addr s =
    (let x = ftable s f in
     if f_type x = FD_INODE \<or> f_type x = FD_DEVICE then
       and_then (ilock (Some (f_ip x)) s) (\<lambda>s.
       let st = stati (f_ip x) s in
       and_then (iunlock (Some (f_ip x)) s) (\<lambda>s.
       and_then (copyout (p_pagetable (myproc s)) addr (stat_bytes (get_bytes (locals s) 12 4) st) s) (\<lambda>(r, s).
         if r < 0 then Ok (-1, s) else Ok (0, s))))
     else Ok (-1, s))"

definition fileread :: "nat \<Rightarrow> u64 \<Rightarrow> int \<Rightarrow> 'a file_state_scheme \<Rightarrow> (wait \<times> 'a file_state_scheme) res" where
  "fileread f addr n s =
    (let x = ftable s f in
     if \<not> f_readable x then Ok (Ret (-1), s)
     else case f_type x of
       FD_PIPE \<Rightarrow> piperead (f_pipe x) addr n s
     | FD_DEVICE \<Rightarrow>
         if sint (f_major x) < 0 \<or> sint (f_major x) \<ge> int NDEV \<or> \<not> (f_major x = 1 \<and> devsw_console s) then Ok (Ret (-1), s)
         else consoleread (User addr) n s
     | FD_INODE \<Rightarrow>
         and_then (ilock (Some (f_ip x)) s) (\<lambda>s.
         and_then (readi (f_ip x) (User addr) (f_off (ftable s f)) (word_of_int n) s) (\<lambda>(r, s).
         let s = (if r > 0 then upd_file f (\<lambda>y. y\<lparr>f_off := f_off y + word_of_int r\<rparr>) s else s) in
         and_then (iunlock (Some (f_ip x)) s) (\<lambda>s. Ok (Ret r, s))))
     | FD_NONE \<Rightarrow> Panic ''fileread'')"

text \<open>One transaction of \<open>filewrite\<close>: at most three blocks, so that it fits in the log.\<close>

definition filewrite_step ::
  "nat \<Rightarrow> u64 \<Rightarrow> int \<Rightarrow> int \<times> 'a file_state_scheme \<Rightarrow> (int \<times> 'a file_state_scheme, int \<times> 'a file_state_scheme) ctl res" where
  "filewrite_step f addr n = (\<lambda>(i, s).
    if \<not> i < n then Ok (Done (i, s))
    else
      let n1 = min (n - i) (int ((MAXOPBLOCKS - 1 - 1 - 2) div 2 * BSIZE)); ip = f_ip (ftable s f) in
      and_then (begin_op s) (\<lambda>s.
      and_then (ilock (Some ip) s) (\<lambda>s.
      and_then (writei ip (User (addr + word_of_int i)) (f_off (ftable s f)) (word_of_int n1) s) (\<lambda>(r, s).
      let s = (if r > 0 then upd_file f (\<lambda>y. y\<lparr>f_off := f_off y + word_of_int r\<rparr>) s else s) in
      and_then (iunlock (Some ip) s) (\<lambda>s.
      and_then (end_op s) (\<lambda>s.
        if r \<noteq> n1 then Ok (Done (i, s)) else Ok (Next (i + r, s))))))))"

definition filewrite :: "nat \<Rightarrow> u64 \<Rightarrow> int \<Rightarrow> 'a file_state_scheme \<Rightarrow> (wait \<times> 'a file_state_scheme) res" where
  "filewrite f addr n s =
    (let x = ftable s f in
     if \<not> f_writable x then Ok (Ret (-1), s)
     else case f_type x of
       FD_PIPE \<Rightarrow> pipewrite (f_pipe x) addr n s
     | FD_DEVICE \<Rightarrow>
         if sint (f_major x) < 0 \<or> sint (f_major x) \<ge> int NDEV \<or> \<not> (f_major x = 1 \<and> devsw_console s) then Ok (Ret (-1), s)
         else consolewrite (User addr) n s
     | FD_INODE \<Rightarrow>
         and_then (loop (Suc (nat n)) (filewrite_step f addr n) (0, s)) (\<lambda>(i, s).
         Ok (Ret (if i = n then n else -1), s))
     | FD_NONE \<Rightarrow> Panic ''filewrite'')"


section \<open>A concrete state\<close>

text \<open>Used where a theorem is applied to a concrete state: the tables are empty, no device has
  anything to say.\<close>

definition zero_file :: file_t where
  "zero_file = \<lparr>f_type = FD_NONE, f_ref = 0, f_readable = False, f_writable = False, f_pipe = 0, f_ip = 0,
     f_off = 0, f_major = 0\<rparr>"

definition zero_pipe :: pipe where
  "zero_pipe = \<lparr>pi_data = (\<lambda>_. 0), pi_nread = 0, pi_nwrite = 0, pi_readopen = True, pi_writeopen = True\<rparr>"

definition file0 :: file_state where
  "file0 = dev_state.extend dev0 (file_state.fields (\<lambda>_. zero_file) (\<lambda>_. zero_pipe))"

lemma file0_fields [simp]:
  "mem file0 = (\<lambda>_. 0)" "procs file0 = (\<lambda>_. zero_proc)" "curp file0 = 0" "freelist file0 = 0"
  "ftable file0 = (\<lambda>_. zero_file)" "pipes file0 = (\<lambda>_. zero_pipe)" "itable file0 = (\<lambda>_. zero_inode)"
  "tx_ready file0 = (\<lambda>_. True)" "panicked file0 = False"
  by (simp_all add: file0_def dev0_def dev_state.defs file_state.defs)

end
