(* ===== verification/Proc.thy ===== *)
theory Proc
  imports File
begin

text \<open>
  Processes, \<^verbatim>\<open>kernel/proc.c\<close>: allocation, \<^verbatim>\<open>fork\<close>, \<^verbatim>\<open>exit\<close>, \<^verbatim>\<open>wait\<close>, \<^verbatim>\<open>kill\<close>
  and the scheduler. A process is its index in the table; \<open>curp\<close> is the running one, and
  \<open>NPROC\<close> stands for none, when a CPU is in the scheduler. The context switch
  \<^verbatim>\<open>swtch\<close> is assembly code: here a switch is the change of \<open>curp\<close>.
  The trap frame of a process is the words of its page, at the offsets of
  \<^verbatim>\<open>struct trapframe\<close>.
\<close>

definition upd_proc :: "nat \<Rightarrow> (proc \<Rightarrow> proc) \<Rightarrow> 'a kcore_scheme \<Rightarrow> 'a kcore_scheme" where
  "upd_proc p f s = s\<lparr>procs := (procs s)(p := f (procs s p))\<rparr>"

section \<open>Trap frames\<close>

datatype tf_field =
    Kernel_satp | Kernel_sp | Kernel_trap | Epc | Kernel_hartid | Reg_ra | Reg_sp | Reg_gp | Reg_tp
  | Reg_t nat | Reg_s nat | Reg_a nat

fun tf_off :: "tf_field \<Rightarrow> nat" where
  "tf_off Kernel_satp = 0"
| "tf_off Kernel_sp = 8"
| "tf_off Kernel_trap = 16"
| "tf_off Epc = 24"
| "tf_off Kernel_hartid = 32"
| "tf_off Reg_ra = 40"
| "tf_off Reg_sp = 48"
| "tf_off Reg_gp = 56"
| "tf_off Reg_tp = 64"
| "tf_off (Reg_t n) = (if n < 3 then 72 + 8 * n else 256 + 8 * (n - 3))"
| "tf_off (Reg_s n) = (if n < 2 then 96 + 8 * n else 176 + 8 * (n - 2))"
| "tf_off (Reg_a n) = 112 + 8 * n"

definition tf_get :: "nat \<Rightarrow> tf_field \<Rightarrow> 'a kcore_scheme \<Rightarrow> u64" where
  "tf_get p r s = read64 (mem s) (p_trapframe (procs s p) + of_nat (tf_off r))"

definition tf_set :: "nat \<Rightarrow> tf_field \<Rightarrow> u64 \<Rightarrow> 'a kcore_scheme \<Rightarrow> 'a kcore_scheme" where
  "tf_set p r v s = s\<lparr>mem := write64 (p_trapframe (procs s p) + of_nat (tf_off r)) v (mem s)\<rparr>"

section \<open>Making and freeing processes\<close>

definition procinit :: "'a kcore_scheme \<Rightarrow> 'a kcore_scheme" where
  "procinit s = s\<lparr>procs := (\<lambda>i. if i < NPROC then (procs s i)\<lparr>p_state := UNUSED, p_kstack := KSTACK i\<rparr> else procs s i)\<rparr>"

definition allocpid :: "'a kcore_scheme \<Rightarrow> int \<times> 'a kcore_scheme" where
  "allocpid s = (nextpid s, s\<lparr>nextpid := nextpid s + 1\<rparr>)"

text \<open>The result is 0 when memory runs out.\<close>

definition proc_pagetable :: "nat \<Rightarrow> 'a kcore_scheme \<Rightarrow> (u64 \<times> 'a kcore_scheme) res" where
  "proc_pagetable p s =
    (let (pagetable, s) = uvmcreate s in
     if pagetable = 0 then Ok (0, s)
     else
       and_then (mappages pagetable TRAMPOLINE PGSIZE (trampoline_pa s) (PTE_R OR PTE_X) s) (\<lambda>(r, s).
       if r < 0 then and_then (uvmfree pagetable 0 s) (\<lambda>s. Ok (0, s))
       else
         and_then (mappages pagetable TRAPFRAME PGSIZE (p_trapframe (procs s p)) (PTE_R OR PTE_W) s) (\<lambda>(r, s).
         if r < 0 then
           and_then (uvmunmap pagetable TRAMPOLINE 1 False s) (\<lambda>s.
           and_then (uvmfree pagetable 0 s) (\<lambda>s. Ok (0, s)))
         else Ok (pagetable, s))))"

definition proc_freepagetable :: "u64 \<Rightarrow> u64 \<Rightarrow> 'a kcore_scheme \<Rightarrow> 'a kcore_scheme res" where
  "proc_freepagetable pagetable sz s =
    and_then (uvmunmap pagetable TRAMPOLINE 1 False s) (\<lambda>s.
    and_then (uvmunmap pagetable TRAPFRAME 1 False s) (\<lambda>s.
    uvmfree pagetable sz s))"

definition freeproc :: "nat \<Rightarrow> 'a kcore_scheme \<Rightarrow> 'a kcore_scheme res" where
  "freeproc p s =
    and_then (let tf = p_trapframe (procs s p) in if tf \<noteq> 0 then kfree tf s else Ok s) (\<lambda>s.
    let s = upd_proc p (\<lambda>x. x\<lparr>p_trapframe := 0\<rparr>) s; pt = p_pagetable (procs s p) in
    and_then (if pt \<noteq> 0 then proc_freepagetable pt (p_sz (procs s p)) s else Ok s) (\<lambda>s.
    Ok (upd_proc p (\<lambda>x. x\<lparr>p_pagetable := 0, p_sz := 0, p_pid := 0, p_parent := None,
          p_name := (p_name x)(0 := 0), p_chan := None, p_killed := False, p_xstate := 0,
          p_state := UNUSED\<rparr>) s)))"

definition allocproc :: "'a kcore_scheme \<Rightarrow> (nat option \<times> 'a kcore_scheme) res" where
  "allocproc s =
    (case List.find (\<lambda>p. p_state (procs s p) = UNUSED) [0..<NPROC] of
       None \<Rightarrow> Ok (None, s)
     | Some p \<Rightarrow>
         let (pid, s) = allocpid s;
             s = upd_proc p (\<lambda>x. x\<lparr>p_pid := pid, p_state := USED\<rparr>) s;
             (tf, s) = kalloc s;
             s = upd_proc p (\<lambda>x. x\<lparr>p_trapframe := tf\<rparr>) s
         in if tf = 0 then and_then (freeproc p s) (\<lambda>s. Ok (None, s))
         else and_then (proc_pagetable p s) (\<lambda>(pt, s).
           let s = upd_proc p (\<lambda>x. x\<lparr>p_pagetable := pt\<rparr>) s in
           if pt = 0 then and_then (freeproc p s) (\<lambda>s. Ok (None, s))
           else Ok (Some p, upd_proc p (\<lambda>x. x\<lparr>p_ctx_forkret := True, p_ctx_sp := p_kstack x + PGSIZE\<rparr>) s)))"

definition initcode :: "byte list" where
  "initcode =
    [0x17, 0x05, 0x00, 0x00, 0x13, 0x05, 0x45, 0x02,
     0x97, 0x05, 0x00, 0x00, 0x93, 0x85, 0x35, 0x02,
     0x93, 0x08, 0x70, 0x00, 0x73, 0x00, 0x00, 0x00,
     0x93, 0x08, 0x20, 0x00, 0x73, 0x00, 0x00, 0x00,
     0xef, 0xf0, 0x9f, 0xff, 0x2f, 0x69, 0x6e, 0x69,
     0x74, 0x00, 0x00, 0x24, 0x00, 0x00, 0x00, 0x00,
     0x00, 0x00, 0x00, 0x00]"

text \<open>A string constant as a C array.\<close>

definition carray_of :: "byte list \<Rightarrow> carray" where
  "carray_of bs = (\<lambda>i. if i < length bs then bs ! i else 0)"

definition userinit :: "'a file_state_scheme \<Rightarrow> 'a file_state_scheme res" where
  "userinit s =
    and_then (allocproc s) (\<lambda>(q, s).
    let s = s\<lparr>initproc := q\<rparr> in
    case q of
      None \<Rightarrow> Panic ''null dereference''
    | Some p \<Rightarrow>
        and_then (uvmfirst (p_pagetable (procs s p)) initcode s) (\<lambda>s.
        let s = upd_proc p (\<lambda>x. x\<lparr>p_sz := PGSIZE\<rparr>) s;
            s = tf_set p Epc 0 s;
            s = tf_set p Reg_sp PGSIZE s;
            s = upd_proc p (\<lambda>x. x\<lparr>p_name := safestrcpy (p_name x) (carray_of (bytes_of ''initcode'')) 16\<rparr>) s
        in and_then (namei [slash] s) (\<lambda>(cwd, s).
             Ok (upd_proc p (\<lambda>x. x\<lparr>p_cwd := cwd, p_state := RUNNABLE\<rparr>) s))))"

section \<open>Operations of the running process\<close>

definition growproc :: "int \<Rightarrow> 'a kcore_scheme \<Rightarrow> (int \<times> 'a kcore_scheme) res" where
  "growproc n s =
    (let p = curp s; sz = p_sz (myproc s); pt = p_pagetable (myproc s) in
     if n > 0 then
       and_then (uvmalloc pt sz (sz + word_of_int n) PTE_W s) (\<lambda>(sz, s).
       if sz = 0 then Ok (-1, s) else Ok (0, upd_proc p (\<lambda>x. x\<lparr>p_sz := sz\<rparr>) s))
     else if n < 0 then
       and_then (uvmdealloc pt sz (sz + word_of_int n) s) (\<lambda>(sz, s).
       Ok (0, upd_proc p (\<lambda>x. x\<lparr>p_sz := sz\<rparr>) s))
     else Ok (0, upd_proc p (\<lambda>x. x\<lparr>p_sz := sz\<rparr>) s))"

definition dup_files :: "nat \<Rightarrow> nat \<Rightarrow> 'a file_state_scheme \<Rightarrow> 'a file_state_scheme res" where
  "dup_files p np s =
    for_each (\<lambda>i s. case p_ofile (procs s p) i of
        None \<Rightarrow> Ok s
      | Some f \<Rightarrow> and_then (filedup f s) (\<lambda>s.
          Ok (upd_proc np (\<lambda>x. x\<lparr>p_ofile := (p_ofile x)(i := Some f)\<rparr>) s))) [0..<NOFILE] s"

definition fork :: "'a file_state_scheme \<Rightarrow> (int \<times> 'a file_state_scheme) res" where
  "fork s =
    (let p = curp s in
     and_then (allocproc s) (\<lambda>(q, s).
     case q of
       None \<Rightarrow> Ok (-1, s)
     | Some np \<Rightarrow>
         and_then (uvmcopy (p_pagetable (procs s p)) (p_pagetable (procs s np)) (p_sz (procs s p)) s) (\<lambda>(r, s).
         if r < 0 then and_then (freeproc np s) (\<lambda>s. Ok (-1, s))
         else
           let s = upd_proc np (\<lambda>x. x\<lparr>p_sz := p_sz (procs s p)\<rparr>) s;
               s = s\<lparr>mem := mem_put (p_trapframe (procs s np)) (mem_get (p_trapframe (procs s p)) 288 (mem s)) (mem s)\<rparr>;
               s = tf_set np (Reg_a 0) 0 s
           in and_then (dup_files p np s) (\<lambda>s.
           case p_cwd (procs s p) of
             None \<Rightarrow> Panic ''null dereference''
           | Some cwd \<Rightarrow>
               let (c, s) = idup cwd s;
                   s = upd_proc np (\<lambda>x. x\<lparr>p_cwd := Some c, p_name := safestrcpy (p_name x) (p_name (procs s p)) 16\<rparr>) s;
                   pid = p_pid (procs s np)
               in Ok (pid, upd_proc np (\<lambda>x. x\<lparr>p_parent := Some p, p_state := RUNNABLE\<rparr>) s)))))"

definition wakeup_proc :: "nat option \<Rightarrow> 'a kcore_scheme \<Rightarrow> 'a kcore_scheme" where
  "wakeup_proc q s = (case q of None \<Rightarrow> s | Some p \<Rightarrow> wakeup (ProcChan p) s)"

definition reparent_one :: "nat \<Rightarrow> nat \<Rightarrow> 'a kcore_scheme \<Rightarrow> 'a kcore_scheme" where
  "reparent_one p pp s =
    (if p_parent (procs s pp) = Some p
     then wakeup_proc (initproc s) (upd_proc pp (\<lambda>x. x\<lparr>p_parent := initproc s\<rparr>) s) else s)"

definition reparent :: "nat \<Rightarrow> 'a kcore_scheme \<Rightarrow> 'a kcore_scheme" where
  "reparent p s = fold (reparent_one p) [0..<NPROC] s"

text \<open>\<open>sched\<close> gives the CPU back to the scheduler; of its tests the one on the process state is
  here, those on the spin locks held are in the theory \<open>SpinLock\<close>.\<close>

definition sched :: "'a kcore_scheme \<Rightarrow> 'a kcore_scheme res" where
  "sched s = (if p_state (myproc s) = RUNNING then Panic ''sched running'' else Ok (s\<lparr>curp := NPROC\<rparr>))"

definition close_files :: "nat \<Rightarrow> 'a file_state_scheme \<Rightarrow> 'a file_state_scheme res" where
  "close_files p s =
    for_each (\<lambda>fd s. case p_ofile (procs s p) fd of
        None \<Rightarrow> Ok s
      | Some f \<Rightarrow> and_then (fileclose f s) (\<lambda>s.
          Ok (upd_proc p (\<lambda>x. x\<lparr>p_ofile := (p_ofile x)(fd := None)\<rparr>) s))) [0..<NOFILE] s"

definition exit :: "int \<Rightarrow> 'a file_state_scheme \<Rightarrow> 'a file_state_scheme res" where
  "exit status s =
    (let p = curp s in
     if initproc s = Some p then Panic ''init exiting''
     else
       and_then (close_files p s) (\<lambda>s.
       and_then (begin_op s) (\<lambda>s.
       case p_cwd (procs s p) of
         None \<Rightarrow> Panic ''null dereference''
       | Some cwd \<Rightarrow>
           and_then (iput cwd s) (\<lambda>s.
           and_then (end_op s) (\<lambda>s.
           let s = upd_proc p (\<lambda>x. x\<lparr>p_cwd := None\<rparr>) s;
               s = reparent p s;
               s = wakeup_proc (p_parent (procs s p)) s;
               s = upd_proc p (\<lambda>x. x\<lparr>p_xstate := status, p_state := ZOMBIE\<rparr>) s
           in sched s)))))"

definition wait :: "u64 \<Rightarrow> 'a kcore_scheme \<Rightarrow> (wait \<times> 'a kcore_scheme) res" where
  "wait addr s =
    (let p = curp s in
     case List.find (\<lambda>pp. p_parent (procs s pp) = Some p \<and> p_state (procs s pp) = ZOMBIE) [0..<NPROC] of
       Some pp \<Rightarrow>
         let pid = p_pid (procs s pp) in
         and_then (if addr \<noteq> 0
                   then copyout (p_pagetable (procs s p)) addr (le_bytes 4 (word_of_int (p_xstate (procs s pp)) :: u32)) s
                   else Ok (0, s)) (\<lambda>(r, s).
           if r < 0 then Ok (Ret (-1), s)
           else and_then (freeproc pp s) (\<lambda>s. Ok (Ret pid, s)))
     | None \<Rightarrow>
         if (\<forall>pp \<in> set [0..<NPROC]. p_parent (procs s pp) \<noteq> Some p) \<or> p_killed (procs s p)
         then Ok (Ret (-1), s)
         else Ok (Sleep (ProcChan p) 0, s))"

section \<open>Scheduling\<close>

text \<open>One look of the scheduler's loop at the process \<open>p\<close>, up to the switch to it.\<close>

definition scheduler_look :: "nat \<Rightarrow> 'a kcore_scheme \<Rightarrow> 'a kcore_scheme" where
  "scheduler_look p s =
    (if p_state (procs s p) = RUNNABLE then (upd_proc p (\<lambda>x. x\<lparr>p_state := RUNNING\<rparr>) s)\<lparr>curp := p\<rparr> else s)"

definition yield :: "'a kcore_scheme \<Rightarrow> 'a kcore_scheme res" where
  "yield s = sched (upd_proc (curp s) (\<lambda>x. x\<lparr>p_state := RUNNABLE\<rparr>) s)"

text \<open>The first half of \<open>sleep\<close>, up to the switch, and the second, after the process runs
  again.\<close>

definition sleep :: "chan \<Rightarrow> 'a kcore_scheme \<Rightarrow> 'a kcore_scheme res" where
  "sleep c s = sched (upd_proc (curp s) (\<lambda>x. x\<lparr>p_chan := Some c, p_state := SLEEPING\<rparr>) s)"

definition sleep_resume :: "'a kcore_scheme \<Rightarrow> 'a kcore_scheme" where
  "sleep_resume s = upd_proc (curp s) (\<lambda>x. x\<lparr>p_chan := None\<rparr>) s"

definition kill :: "int \<Rightarrow> 'a kcore_scheme \<Rightarrow> int \<times> 'a kcore_scheme" where
  "kill pid s =
    (case List.find (\<lambda>p. p_pid (procs s p) = pid) [0..<NPROC] of
       None \<Rightarrow> (-1, s)
     | Some p \<Rightarrow>
         (0, upd_proc p (\<lambda>x. x\<lparr>p_killed := True, p_state := (if p_state x = SLEEPING then RUNNABLE else p_state x)\<rparr>) s))"

definition setkilled :: "nat \<Rightarrow> 'a kcore_scheme \<Rightarrow> 'a kcore_scheme" where
  "setkilled p s = upd_proc p (\<lambda>x. x\<lparr>p_killed := True\<rparr>) s"

definition killed :: "nat \<Rightarrow> 'a kcore_scheme \<Rightarrow> bool" where
  "killed p s = p_killed (procs s p)"

end
