(* ===== verification/Exec.thy ===== *)
theory Exec
  imports Proc
begin

text \<open>
  System call arguments, the fetching half of \<^verbatim>\<open>kernel/syscall.c\<close>, and \<^verbatim>\<open>kernel/exec.c\<close>.
  A string fetched from user memory is the list of the bytes written to the kernel's buffer,
  terminator included. While \<^verbatim>\<open>exec\<close> runs, its ELF header is the first 64 bytes of
  \<open>locals\<close> and its program header the 56 bytes after them.
\<close>

section \<open>Fetching arguments\<close>

definition fetchaddr :: "u64 \<Rightarrow> 'a kcore_scheme \<Rightarrow> (int \<times> u64) res" where
  "fetchaddr addr s =
    (let p = myproc s in
     if addr \<ge> p_sz p \<or> addr + 8 > p_sz p then Ok (-1, 0)
     else and_then (copyin (p_pagetable p) addr 8 s) (\<lambda>(r, bs).
       if r \<noteq> 0 then Ok (-1, 0) else Ok (0, le_word bs)))"

definition fetchstr :: "u64 \<Rightarrow> nat \<Rightarrow> 'a kcore_scheme \<Rightarrow> (int \<times> byte list) res" where
  "fetchstr addr max_len s =
    and_then (copyinstr (p_pagetable (myproc s)) addr max_len s) (\<lambda>(r, bs).
      if r < 0 then Ok (-1, bs) else Ok (int (length (takeWhile (\<lambda>c. c \<noteq> 0) bs)), bs))"

definition argraw :: "nat \<Rightarrow> 'a kcore_scheme \<Rightarrow> u64 res" where
  "argraw n s = (if n < 6 then Ok (tf_get (curp s) (Reg_a n) s) else Panic ''argraw'')"

definition argint :: "nat \<Rightarrow> 'a kcore_scheme \<Rightarrow> int res" where
  "argint n s = and_then (argraw n s) (\<lambda>w. Ok (sint (ucast w :: u32)))"

definition argaddr :: "nat \<Rightarrow> 'a kcore_scheme \<Rightarrow> u64 res" where
  "argaddr n s = argraw n s"

definition argstr :: "nat \<Rightarrow> nat \<Rightarrow> 'a kcore_scheme \<Rightarrow> (int \<times> byte list) res" where
  "argstr n max_len s = and_then (argaddr n s) (\<lambda>addr. fetchstr addr max_len s)"

section \<open>Loading a program\<close>

definition flags2perm :: "u32 \<Rightarrow> u64" where
  "flags2perm flags =
    (let perm = (if flags AND 1 \<noteq> 0 then PTE_X else 0)
     in if flags AND 2 \<noteq> 0 then perm OR PTE_W else perm)"

definition loadseg_step ::
  "u64 \<Rightarrow> u64 \<Rightarrow> nat \<Rightarrow> u32 \<Rightarrow> u32 \<Rightarrow> u32 \<times> 'a fs_state_scheme \<Rightarrow>
   (u32 \<times> 'a fs_state_scheme, int \<times> 'a fs_state_scheme) ctl res" where
  "loadseg_step pagetable va ip offset sz = (\<lambda>(i, s).
    if \<not> i < sz then Ok (Done (0, s))
    else
      let pa = walkaddr pagetable (va + ucast i) s in
      if pa = 0 then Panic ''loadseg: address should exist''
      else
        let n = (if sz - i < 4096 then sz - i else 4096) in
        and_then (readi ip (Kern pa) (offset + i) n s) (\<lambda>(r, s).
          if word_of_int r \<noteq> n then Ok (Done (-1, s)) else Ok (Next (i + 4096, s))))"

definition loadseg ::
  "u64 \<Rightarrow> u64 \<Rightarrow> nat \<Rightarrow> u32 \<Rightarrow> u32 \<Rightarrow> 'a fs_state_scheme \<Rightarrow> (int \<times> 'a fs_state_scheme) res" where
  "loadseg pagetable va ip offset sz s =
    loop (unat sz div 4096 + 2) (loadseg_step pagetable va ip offset sz) (0, s)"

abbreviation (input) ELF_MAGIC :: u32 where "ELF_MAGIC \<equiv> 0x464C457F"

record elfhdr =
  elf_magic :: u32
  elf_entry :: u64
  elf_phoff :: u64
  elf_phnum :: u16

definition get_elfhdr :: "'a kcore_scheme \<Rightarrow> elfhdr" where
  "get_elfhdr s =
    \<lparr>elf_magic = le_word (get_bytes (locals s) 0 4), elf_entry = le_word (get_bytes (locals s) 24 8),
     elf_phoff = le_word (get_bytes (locals s) 32 8), elf_phnum = le_word (get_bytes (locals s) 56 2)\<rparr>"

record proghdr =
  ph_type :: u32
  ph_flags :: u32
  ph_off :: u64
  ph_vaddr :: u64
  ph_filesz :: u64
  ph_memsz :: u64

definition get_proghdr :: "'a kcore_scheme \<Rightarrow> proghdr" where
  "get_proghdr s =
    \<lparr>ph_type = le_word (get_bytes (locals s) 64 4), ph_flags = le_word (get_bytes (locals s) 68 4),
     ph_off = le_word (get_bytes (locals s) 72 8), ph_vaddr = le_word (get_bytes (locals s) 80 8),
     ph_filesz = le_word (get_bytes (locals s) 96 8), ph_memsz = le_word (get_bytes (locals s) 104 8)\<rparr>"

text \<open>One program header. The loop leaves with whether all segments are loaded.\<close>

definition exec_load_step ::
  "u64 \<Rightarrow> nat \<Rightarrow> nat \<Rightarrow> nat \<times> u32 \<times> u64 \<times> 'a fs_state_scheme \<Rightarrow>
   (nat \<times> u32 \<times> u64 \<times> 'a fs_state_scheme, bool \<times> u64 \<times> 'a fs_state_scheme) ctl res" where
  "exec_load_step pagetable ip phnum = (\<lambda>(i, off, sz, s).
    if \<not> i < phnum then Ok (Done (True, sz, s))
    else and_then (readi ip (Local 64) off 56 s) (\<lambda>(r, s).
      let ph = get_proghdr s in
      if r \<noteq> 56 then Ok (Done (False, sz, s))
      else if ph_type ph \<noteq> 1 then Ok (Next (Suc i, off + 56, sz, s))
      else if ph_memsz ph < ph_filesz ph then Ok (Done (False, sz, s))
      else if ph_vaddr ph + ph_memsz ph < ph_vaddr ph then Ok (Done (False, sz, s))
      else if ph_vaddr ph mod PGSIZE \<noteq> 0 then Ok (Done (False, sz, s))
      else and_then (uvmalloc pagetable sz (ph_vaddr ph + ph_memsz ph) (flags2perm (ph_flags ph)) s) (\<lambda>(sz1, s).
        if sz1 = 0 then Ok (Done (False, sz, s))
        else and_then (loadseg pagetable (ph_vaddr ph) ip (ucast (ph_off ph)) (ucast (ph_filesz ph)) s) (\<lambda>(r, s).
          if r < 0 then Ok (Done (False, sz1, s)) else Ok (Next (Suc i, off + 56, sz1, s))))))"

text \<open>The characters of the kernel string at \<open>a\<close>, when it ends.\<close>

definition kstr :: "u64 \<Rightarrow> 'a kcore_scheme \<Rightarrow> byte list option" where
  "kstr a s = map_option (\<lambda>n. mem_get a n (mem s)) (strlen (\<lambda>i. mem s (a + of_nat i)))"

definition exec_args_step ::
  "u64 \<Rightarrow> u64 \<Rightarrow> (nat \<Rightarrow> u64) \<Rightarrow> nat \<times> u64 \<times> u64 list \<times> 'a kcore_scheme \<Rightarrow>
   (nat \<times> u64 \<times> u64 list \<times> 'a kcore_scheme, bool \<times> nat \<times> u64 \<times> u64 list \<times> 'a kcore_scheme) ctl res" where
  "exec_args_step pagetable stackbase argv = (\<lambda>(argc, sp, ustack, s).
    if argv argc = 0 then Ok (Done (True, argc, sp, ustack, s))
    else if argc \<ge> MAXARG then Ok (Done (False, argc, sp, ustack, s))
    else case kstr (argv argc) s of
        None \<Rightarrow> Diverge
      | Some str \<Rightarrow>
          let sp = sp - of_nat (length str + 1); sp = sp - sp mod 16 in
          if sp < stackbase then Ok (Done (False, argc, sp, ustack, s))
          else and_then (copyout pagetable sp (str @ [0]) s) (\<lambda>(r, s).
            if r < 0 then Ok (Done (False, argc, sp, ustack, s))
            else Ok (Next (Suc argc, sp, ustack @ [sp], s))))"

definition last_elem :: "byte list \<Rightarrow> byte list" where
  "last_elem path = rev (takeWhile (\<lambda>c. c \<noteq> slash) (rev path))"

text \<open>The label \<^verbatim>\<open>bad\<close>, while the inode is still locked and after it has been released.\<close>

definition exec_bad :: "u64 \<Rightarrow> u64 \<Rightarrow> nat option \<Rightarrow> 'a fs_state_scheme \<Rightarrow> (int \<times> 'a fs_state_scheme) res" where
  "exec_bad pagetable sz ip s =
    and_then (if pagetable \<noteq> 0 then proc_freepagetable pagetable sz s else Ok s) (\<lambda>s.
    and_then (case ip of None \<Rightarrow> Ok s | Some ip \<Rightarrow> and_then (iunlockput ip s) (\<lambda>s. end_op s)) (\<lambda>s.
    Ok (-1, s)))"

text \<open>The second half of \<open>exec\<close>: the user stack and the switch to the new image.
  \<^verbatim>\<open>ustack\<close> has \<open>MAXARG\<close> entries.\<close>

definition exec_stack ::
  "byte list \<Rightarrow> (nat \<Rightarrow> u64) \<Rightarrow> u64 \<Rightarrow> u64 \<Rightarrow> u64 \<Rightarrow> 'a fs_state_scheme \<Rightarrow> (int \<times> 'a fs_state_scheme) res" where
  "exec_stack path argv pagetable entry sz s =
    (let p = curp s; oldsz = p_sz (procs s p); sz = PGROUNDUP sz in
     and_then (uvmalloc pagetable sz (sz + 2 * PGSIZE) PTE_W s) (\<lambda>(sz1, s).
     if sz1 = 0 then exec_bad pagetable sz None s
     else
       let sz = sz1 in
       and_then (uvmclear pagetable (sz - 2 * PGSIZE) s) (\<lambda>s.
       let stackbase = sz - PGSIZE in
       and_then (loop (Suc (Suc MAXARG)) (exec_args_step pagetable stackbase argv) (0, sz, [], s)) (\<lambda>(ok, argc, sp, ustack, s).
       if \<not> ok then exec_bad pagetable sz None s
       else if argc \<ge> MAXARG then Panic ''write beyond ustack''
       else
         let sp = sp - of_nat ((argc + 1) * 8); sp = sp - sp mod 16 in
         if sp < stackbase then exec_bad pagetable sz None s
         else and_then (copyout pagetable sp (concat (map (le_bytes 8) (ustack @ [0]))) s) (\<lambda>(r, s).
           if r < 0 then exec_bad pagetable sz None s
           else
             let s = tf_set p (Reg_a 1) sp s;
                 s = upd_proc p (\<lambda>x. x\<lparr>p_name := safestrcpy (p_name x) (carray_of (last_elem path)) 16\<rparr>) s;
                 oldpagetable = p_pagetable (procs s p);
                 s = upd_proc p (\<lambda>x. x\<lparr>p_pagetable := pagetable, p_sz := sz\<rparr>) s;
                 s = tf_set p Epc entry s;
                 s = tf_set p Reg_sp sp s
             in and_then (proc_freepagetable oldpagetable oldsz s) (\<lambda>s. Ok (int argc, s)))))))"

definition exec :: "byte list \<Rightarrow> (nat \<Rightarrow> u64) \<Rightarrow> 'a fs_state_scheme \<Rightarrow> (int \<times> 'a fs_state_scheme) res" where
  "exec path argv s =
    and_then (begin_op s) (\<lambda>s.
    and_then (namei path s) (\<lambda>(q, s).
    case q of
      None \<Rightarrow> and_then (end_op s) (\<lambda>s. Ok (-1, s))
    | Some ip \<Rightarrow>
        and_then (ilock (Some ip) s) (\<lambda>s.
        and_then (readi ip (Local 0) 0 64 s) (\<lambda>(r, s).
        let elf = get_elfhdr s in
        if r \<noteq> 64 then exec_bad 0 0 (Some ip) s
        else if elf_magic elf \<noteq> ELF_MAGIC then exec_bad 0 0 (Some ip) s
        else and_then (proc_pagetable (curp s) s) (\<lambda>(pagetable, s).
          if pagetable = 0 then exec_bad 0 0 (Some ip) s
          else
            let phnum = unat (elf_phnum elf) in
            and_then (loop (Suc phnum) (exec_load_step pagetable ip phnum) (0, ucast (elf_phoff elf), 0, s)) (\<lambda>(ok, sz, s).
            if \<not> ok then exec_bad pagetable sz (Some ip) s
            else
              and_then (iunlockput ip s) (\<lambda>s.
              and_then (end_op s) (\<lambda>s.
              exec_stack path argv pagetable (elf_entry elf) sz s))))))))"

end
