(* ===== verification/Sysfile.thy ===== *)
theory Sysfile
  imports Exec
begin

text \<open>
  The system calls, \<^verbatim>\<open>kernel/sysfile.c\<close> and \<^verbatim>\<open>kernel/sysproc.c\<close>, and the dispatch of
  \<^verbatim>\<open>kernel/syscall.c\<close>. A system call returns a 64-bit value, or goes to sleep with part
  of its work done, or is \<^verbatim>\<open>exit\<close>, which does not return.
\<close>

datatype sysret = SRet u64 | SSleep chan int | SExit

definition ret :: "int \<Rightarrow> 's \<Rightarrow> (sysret \<times> 's) res" where
  "ret v s = Ok (SRet (word_of_int v), s)"

fun of_wait :: "wait \<Rightarrow> sysret" where
  "of_wait (Ret v) = SRet (word_of_int v)"
| "of_wait (Sleep c k) = SSleep c k"

definition path_of :: "byte list \<Rightarrow> byte list" where
  "path_of bs = takeWhile (\<lambda>c. c \<noteq> 0) bs"

section \<open>File descriptors\<close>

definition argfd :: "nat \<Rightarrow> 'a kcore_scheme \<Rightarrow> (nat \<times> nat) option res" where
  "argfd n s =
    and_then (argint n s) (\<lambda>fd.
      if fd < 0 \<or> fd \<ge> int NOFILE then Ok None
      else case p_ofile (myproc s) (nat fd) of None \<Rightarrow> Ok None | Some f \<Rightarrow> Ok (Some (nat fd, f)))"

definition set_ofile :: "nat \<Rightarrow> nat option \<Rightarrow> 'a kcore_scheme \<Rightarrow> 'a kcore_scheme" where
  "set_ofile fd f s = upd_proc (curp s) (\<lambda>x. x\<lparr>p_ofile := (p_ofile x)(fd := f)\<rparr>) s"

definition fdalloc :: "nat \<Rightarrow> 'a kcore_scheme \<Rightarrow> nat option \<times> 'a kcore_scheme" where
  "fdalloc f s =
    (case List.find (\<lambda>fd. p_ofile (myproc s) fd = None) [0..<NOFILE] of
       None \<Rightarrow> (None, s)
     | Some fd \<Rightarrow> (Some fd, set_ofile fd (Some f) s))"

definition sys_dup :: "'a file_state_scheme \<Rightarrow> (sysret \<times> 'a file_state_scheme) res" where
  "sys_dup s =
    and_then (argfd 0 s) (\<lambda>a. case a of None \<Rightarrow> ret (-1) s | Some (_, f) \<Rightarrow>
      (case fdalloc f s of
         (None, s) \<Rightarrow> ret (-1) s
       | (Some fd, s) \<Rightarrow> and_then (filedup f s) (\<lambda>s. ret (int fd) s)))"

definition sys_read :: "'a file_state_scheme \<Rightarrow> (sysret \<times> 'a file_state_scheme) res" where
  "sys_read s =
    and_then (argaddr 1 s) (\<lambda>p. and_then (argint 2 s) (\<lambda>n.
    and_then (argfd 0 s) (\<lambda>a. case a of None \<Rightarrow> ret (-1) s | Some (_, f) \<Rightarrow>
      and_then (fileread f p n s) (\<lambda>(w, s). Ok (of_wait w, s)))))"

definition sys_write :: "'a file_state_scheme \<Rightarrow> (sysret \<times> 'a file_state_scheme) res" where
  "sys_write s =
    and_then (argaddr 1 s) (\<lambda>p. and_then (argint 2 s) (\<lambda>n.
    and_then (argfd 0 s) (\<lambda>a. case a of None \<Rightarrow> ret (-1) s | Some (_, f) \<Rightarrow>
      and_then (filewrite f p n s) (\<lambda>(w, s). Ok (of_wait w, s)))))"

definition sys_close :: "'a file_state_scheme \<Rightarrow> (sysret \<times> 'a file_state_scheme) res" where
  "sys_close s =
    and_then (argfd 0 s) (\<lambda>a. case a of None \<Rightarrow> ret (-1) s | Some (fd, f) \<Rightarrow>
      and_then (fileclose f (set_ofile fd None s)) (\<lambda>s. ret 0 s))"

definition sys_fstat :: "'a file_state_scheme \<Rightarrow> (sysret \<times> 'a file_state_scheme) res" where
  "sys_fstat s =
    and_then (argaddr 1 s) (\<lambda>st.
    and_then (argfd 0 s) (\<lambda>a. case a of None \<Rightarrow> ret (-1) s | Some (_, f) \<Rightarrow>
      and_then (filestat f st s) (\<lambda>(r, s). ret r s)))"

section \<open>Links and directories\<close>

definition upd_nlink :: "nat \<Rightarrow> (u16 \<Rightarrow> u16) \<Rightarrow> 'a fs_state_scheme \<Rightarrow> 'a fs_state_scheme" where
  "upd_nlink ip f = upd_inode ip (\<lambda>x. x\<lparr>i_nlink := f (i_nlink x)\<rparr>)"

definition end_ret :: "int \<Rightarrow> 'a logst_scheme \<Rightarrow> (sysret \<times> 'a logst_scheme) res" where
  "end_ret v s = and_then (end_op s) (\<lambda>s. ret v s)"

definition link_bad :: "nat \<Rightarrow> 'a fs_state_scheme \<Rightarrow> (sysret \<times> 'a fs_state_scheme) res" where
  "link_bad ip s =
    and_then (ilock (Some ip) s) (\<lambda>s.
    and_then (iupdate ip (upd_nlink ip (\<lambda>n. n - 1) s)) (\<lambda>s.
    and_then (iunlockput ip s) (\<lambda>s. end_ret (-1) s)))"

definition sys_link :: "'a fs_state_scheme \<Rightarrow> (sysret \<times> 'a fs_state_scheme) res" where
  "sys_link s =
    and_then (argstr 0 MAXPATH s) (\<lambda>(r, old_path). if r < 0 then ret (-1) s else
    and_then (argstr 1 MAXPATH s) (\<lambda>(r, new_path). if r < 0 then ret (-1) s else
    and_then (begin_op s) (\<lambda>s.
    and_then (namei (path_of old_path) s) (\<lambda>(q, s).
    case q of None \<Rightarrow> end_ret (-1) s | Some ip \<Rightarrow>
    and_then (ilock (Some ip) s) (\<lambda>s.
    if i_type (itable s ip) = T_DIR then and_then (iunlockput ip s) (\<lambda>s. end_ret (-1) s)
    else
      and_then (iupdate ip (upd_nlink ip (\<lambda>n. n + 1) s)) (\<lambda>s.
      and_then (iunlock (Some ip) s) (\<lambda>s.
      and_then (nameiparent (path_of new_path) (\<lambda>_. 0) s) (\<lambda>(q, name, s).
      case q of None \<Rightarrow> link_bad ip s | Some dp \<Rightarrow>
      and_then (ilock (Some dp) s) (\<lambda>s.
      and_then (if i_dev (itable s dp) \<noteq> i_dev (itable s ip) then Ok (-1, s)
                else dirlink dp name (i_inum (itable s ip)) s) (\<lambda>(r, s).
      if r < 0 then and_then (iunlockput dp s) (\<lambda>s. link_bad ip s)
      else
        and_then (iunlockput dp s) (\<lambda>s.
        and_then (iput ip s) (\<lambda>s. end_ret 0 s))))))))))))"

definition isdirempty_step ::
  "nat \<Rightarrow> u32 \<times> 'a fs_state_scheme \<Rightarrow> (u32 \<times> 'a fs_state_scheme, bool \<times> 'a fs_state_scheme) ctl res" where
  "isdirempty_step dp = (\<lambda>(off, s).
    if \<not> off < i_size (itable s dp) then Ok (Done (True, s))
    else and_then (readi dp (Local 0) off 16 s) (\<lambda>(r, s).
      if r \<noteq> 16 then Panic ''isdirempty: readi''
      else if de_inum s \<noteq> 0 then Ok (Done (False, s)) else Ok (Next (off + 16, s))))"

definition isdirempty :: "nat \<Rightarrow> 'a fs_state_scheme \<Rightarrow> (bool \<times> 'a fs_state_scheme) res" where
  "isdirempty dp s = loop (unat (i_size (itable s dp)) div 16 + 2) (isdirempty_step dp) (32, s)"

abbreviation (input) dot :: carray where "dot \<equiv> carray_of [46]"
abbreviation (input) dotdot :: carray where "dotdot \<equiv> carray_of [46, 46]"

definition unlink_bad :: "nat \<Rightarrow> 'a fs_state_scheme \<Rightarrow> (sysret \<times> 'a fs_state_scheme) res" where
  "unlink_bad dp s = and_then (iunlockput dp s) (\<lambda>s. end_ret (-1) s)"

definition sys_unlink :: "'a fs_state_scheme \<Rightarrow> (sysret \<times> 'a fs_state_scheme) res" where
  "sys_unlink s =
    and_then (argstr 0 MAXPATH s) (\<lambda>(r, path). if r < 0 then ret (-1) s else
    and_then (begin_op s) (\<lambda>s.
    and_then (nameiparent (path_of path) (\<lambda>_. 0) s) (\<lambda>(q, name, s).
    case q of None \<Rightarrow> end_ret (-1) s | Some dp \<Rightarrow>
    and_then (ilock (Some dp) s) (\<lambda>s.
    if namecmp name dot = 0 \<or> namecmp name dotdot = 0 then unlink_bad dp s
    else and_then (dirlookup dp name s) (\<lambda>(f, s).
    case f of None \<Rightarrow> unlink_bad dp s | Some (ip, off) \<Rightarrow>
    and_then (ilock (Some ip) s) (\<lambda>s.
    if sint (i_nlink (itable s ip)) < 1 then Panic ''unlink: nlink < 1''
    else
      and_then (if i_type (itable s ip) = T_DIR then isdirempty ip s else Ok (True, s)) (\<lambda>(e, s).
      if \<not> e then and_then (iunlockput ip s) (\<lambda>s. unlink_bad dp s)
      else
        let s = s\<lparr>locals := put_bytes (locals s) 0 (replicate 16 0)\<rparr> in
        and_then (writei dp (Local 0) off 16 s) (\<lambda>(r, s).
        if r \<noteq> 16 then Panic ''unlink: writei''
        else
          and_then (if i_type (itable s ip) = T_DIR then iupdate dp (upd_nlink dp (\<lambda>n. n - 1) s) else Ok s) (\<lambda>s.
          and_then (iunlockput dp s) (\<lambda>s.
          and_then (iupdate ip (upd_nlink ip (\<lambda>n. n - 1) s)) (\<lambda>s.
          and_then (iunlockput ip s) (\<lambda>s. end_ret 0 s))))))))))))"

text \<open>\<open>create\<close> returns the inode locked.\<close>

definition create_fail :: "nat \<Rightarrow> nat \<Rightarrow> 'a fs_state_scheme \<Rightarrow> (nat option \<times> 'a fs_state_scheme) res" where
  "create_fail ip dp s =
    and_then (iupdate ip (upd_nlink ip (\<lambda>_. 0) s)) (\<lambda>s.
    and_then (iunlockput ip s) (\<lambda>s.
    and_then (iunlockput dp s) (\<lambda>s. Ok (None, s))))"

definition create ::
  "byte list \<Rightarrow> u16 \<Rightarrow> u16 \<Rightarrow> u16 \<Rightarrow> 'a fs_state_scheme \<Rightarrow> (nat option \<times> 'a fs_state_scheme) res" where
  "create path ty major minor s =
    and_then (nameiparent path (\<lambda>_. 0) s) (\<lambda>(q, name, s).
    case q of None \<Rightarrow> Ok (None, s) | Some dp \<Rightarrow>
    and_then (ilock (Some dp) s) (\<lambda>s.
    and_then (dirlookup dp name s) (\<lambda>(f, s).
    case f of
      Some (ip, _) \<Rightarrow>
        and_then (iunlockput dp s) (\<lambda>s.
        and_then (ilock (Some ip) s) (\<lambda>s.
        if ty = T_FILE \<and> (i_type (itable s ip) = T_FILE \<or> i_type (itable s ip) = T_DEVICE) then Ok (Some ip, s)
        else and_then (iunlockput ip s) (\<lambda>s. Ok (None, s))))
    | None \<Rightarrow>
        and_then (ialloc (i_dev (itable s dp)) ty s) (\<lambda>(q, s).
        case q of None \<Rightarrow> and_then (iunlockput dp s) (\<lambda>s. Ok (None, s)) | Some ip \<Rightarrow>
        and_then (ilock (Some ip) s) (\<lambda>s.
        let s = upd_inode ip (\<lambda>x. x\<lparr>i_major := major, i_minor := minor, i_nlink := 1\<rparr>) s in
        and_then (iupdate ip s) (\<lambda>s.
        and_then (if ty = T_DIR then
                    and_then (dirlink ip dot (i_inum (itable s ip)) s) (\<lambda>(r, s).
                      if r < 0 then Ok (r, s) else dirlink ip dotdot (i_inum (itable s dp)) s)
                  else Ok (0, s)) (\<lambda>(r, s).
        if r < 0 then create_fail ip dp s
        else and_then (dirlink dp name (i_inum (itable s ip)) s) (\<lambda>(r, s).
          if r < 0 then create_fail ip dp s
          else
            and_then (if ty = T_DIR then iupdate dp (upd_nlink dp (\<lambda>n. n + 1) s) else Ok s) (\<lambda>s.
            and_then (iunlockput dp s) (\<lambda>s. Ok (Some ip, s)))))))))))"

abbreviation (input) O_WRONLY :: u32 where "O_WRONLY \<equiv> 1"
abbreviation (input) O_RDWR :: u32 where "O_RDWR \<equiv> 2"
abbreviation (input) O_CREATE :: u32 where "O_CREATE \<equiv> 0x200"
abbreviation (input) O_TRUNC :: u32 where "O_TRUNC \<equiv> 0x400"

definition open_fail :: "nat \<Rightarrow> 'a fs_state_scheme \<Rightarrow> (sysret \<times> 'a fs_state_scheme) res" where
  "open_fail ip s = and_then (iunlockput ip s) (\<lambda>s. end_ret (-1) s)"

text \<open>\<open>sys_open\<close> from the point where the inode is found and locked.\<close>

definition open_inode :: "u32 \<Rightarrow> nat \<Rightarrow> 'a file_state_scheme \<Rightarrow> (sysret \<times> 'a file_state_scheme) res" where
  "open_inode omode ip s =
    (let x = itable s ip in
     if i_type x = T_DEVICE \<and> (sint (i_major x) < 0 \<or> sint (i_major x) \<ge> int NDEV) then open_fail ip s
     else case filealloc s of
       (None, s) \<Rightarrow> open_fail ip s
     | (Some f, s) \<Rightarrow>
       (case fdalloc f s of
          (None, s) \<Rightarrow> and_then (fileclose f s) (\<lambda>s. open_fail ip s)
        | (Some fd, s) \<Rightarrow>
            let s = (if i_type x = T_DEVICE
                     then upd_file f (\<lambda>y. y\<lparr>f_type := FD_DEVICE, f_major := i_major x\<rparr>) s
                     else upd_file f (\<lambda>y. y\<lparr>f_type := FD_INODE, f_off := 0\<rparr>) s);
                s = upd_file f (\<lambda>y. y\<lparr>f_ip := ip, f_readable := (omode AND O_WRONLY = 0),
                      f_writable := (omode AND O_WRONLY \<noteq> 0 \<or> omode AND O_RDWR \<noteq> 0)\<rparr>) s
            in and_then (if omode AND O_TRUNC \<noteq> 0 \<and> i_type x = T_FILE then itrunc ip s else Ok s) (\<lambda>s.
               and_then (iunlock (Some ip) s) (\<lambda>s. end_ret (int fd) s))))"

definition sys_open :: "'a file_state_scheme \<Rightarrow> (sysret \<times> 'a file_state_scheme) res" where
  "sys_open s =
    and_then (argint 1 s) (\<lambda>m. let omode = (word_of_int m :: u32) in
    and_then (argstr 0 MAXPATH s) (\<lambda>(n, path). if n < 0 then ret (-1) s else
    and_then (begin_op s) (\<lambda>s.
      if omode AND O_CREATE \<noteq> 0 then
        and_then (create (path_of path) T_FILE 0 0 s) (\<lambda>(q, s).
        case q of None \<Rightarrow> end_ret (-1) s | Some ip \<Rightarrow> open_inode omode ip s)
      else
        and_then (namei (path_of path) s) (\<lambda>(q, s).
        case q of None \<Rightarrow> end_ret (-1) s | Some ip \<Rightarrow>
        and_then (ilock (Some ip) s) (\<lambda>s.
        if i_type (itable s ip) = T_DIR \<and> omode \<noteq> 0 then open_fail ip s
        else open_inode omode ip s)))))"

definition sys_mkdir :: "'a fs_state_scheme \<Rightarrow> (sysret \<times> 'a fs_state_scheme) res" where
  "sys_mkdir s =
    and_then (begin_op s) (\<lambda>s.
    and_then (argstr 0 MAXPATH s) (\<lambda>(r, path). if r < 0 then end_ret (-1) s else
    and_then (create (path_of path) T_DIR 0 0 s) (\<lambda>(q, s).
    case q of None \<Rightarrow> end_ret (-1) s | Some ip \<Rightarrow> and_then (iunlockput ip s) (\<lambda>s. end_ret 0 s))))"

definition sys_mknod :: "'a fs_state_scheme \<Rightarrow> (sysret \<times> 'a fs_state_scheme) res" where
  "sys_mknod s =
    and_then (begin_op s) (\<lambda>s.
    and_then (argint 1 s) (\<lambda>major. and_then (argint 2 s) (\<lambda>minor.
    and_then (argstr 0 MAXPATH s) (\<lambda>(r, path). if r < 0 then end_ret (-1) s else
    and_then (create (path_of path) T_DEVICE (word_of_int major) (word_of_int minor) s) (\<lambda>(q, s).
    case q of None \<Rightarrow> end_ret (-1) s | Some ip \<Rightarrow> and_then (iunlockput ip s) (\<lambda>s. end_ret 0 s))))))"

definition sys_chdir :: "'a fs_state_scheme \<Rightarrow> (sysret \<times> 'a fs_state_scheme) res" where
  "sys_chdir s =
    and_then (begin_op s) (\<lambda>s.
    and_then (argstr 0 MAXPATH s) (\<lambda>(r, path). if r < 0 then end_ret (-1) s else
    and_then (namei (path_of path) s) (\<lambda>(q, s).
    case q of None \<Rightarrow> end_ret (-1) s | Some ip \<Rightarrow>
    and_then (ilock (Some ip) s) (\<lambda>s.
    if i_type (itable s ip) \<noteq> T_DIR then and_then (iunlockput ip s) (\<lambda>s. end_ret (-1) s)
    else and_then (iunlock (Some ip) s) (\<lambda>s.
      case p_cwd (myproc s) of None \<Rightarrow> Panic ''null dereference'' | Some cwd \<Rightarrow>
      and_then (iput cwd s) (\<lambda>s.
      and_then (end_op s) (\<lambda>s. ret 0 (upd_proc (curp s) (\<lambda>x. x\<lparr>p_cwd := Some ip\<rparr>) s))))))))"

section \<open>exec and pipe\<close>

text \<open>One turn of the loop of \<open>sys_exec\<close> that copies the argument strings to kernel pages.\<close>

definition sys_exec_step ::
  "u64 \<Rightarrow> nat \<times> (nat \<Rightarrow> u64) \<times> 'a kcore_scheme \<Rightarrow>
   (nat \<times> (nat \<Rightarrow> u64) \<times> 'a kcore_scheme, bool \<times> (nat \<Rightarrow> u64) \<times> 'a kcore_scheme) ctl res" where
  "sys_exec_step uargv = (\<lambda>(i, argv, s).
    if i \<ge> MAXARG then Ok (Done (False, argv, s))
    else and_then (fetchaddr (uargv + of_nat (8 * i)) s) (\<lambda>(r, uarg).
      if r < 0 then Ok (Done (False, argv, s))
      else if uarg = 0 then Ok (Done (True, argv(i := 0), s))
      else
        let (a, s) = kalloc s; argv = argv(i := a) in
        if a = 0 then Ok (Done (False, argv, s))
        else and_then (fetchstr uarg 4096 s) (\<lambda>(r, bs).
          let s = s\<lparr>mem := mem_put a bs (mem s)\<rparr> in
          if r < 0 then Ok (Done (False, argv, s)) else Ok (Next (Suc i, argv, s)))))"

definition free_argv :: "(nat \<Rightarrow> u64) \<Rightarrow> 'a kcore_scheme \<Rightarrow> 'a kcore_scheme res" where
  "free_argv argv s = for_each (\<lambda>i s. kfree (argv i) s) (takeWhile (\<lambda>i. argv i \<noteq> 0) [0..<MAXARG]) s"

definition sys_exec :: "'a fs_state_scheme \<Rightarrow> (sysret \<times> 'a fs_state_scheme) res" where
  "sys_exec s =
    and_then (argaddr 1 s) (\<lambda>uargv.
    and_then (argstr 0 MAXPATH s) (\<lambda>(r, path). if r < 0 then ret (-1) s else
    and_then (loop (Suc (Suc MAXARG)) (sys_exec_step uargv) (0, (\<lambda>_. 0), s)) (\<lambda>(ok, argv, s).
      if ok then and_then (exec (path_of path) argv s) (\<lambda>(v, s). and_then (free_argv argv s) (\<lambda>s. ret v s))
      else and_then (free_argv argv s) (\<lambda>s. ret (-1) s))))"

definition sys_pipe :: "'a file_state_scheme \<Rightarrow> (sysret \<times> 'a file_state_scheme) res" where
  "sys_pipe s =
    and_then (argaddr 0 s) (\<lambda>fdarray.
    and_then (pipealloc s) (\<lambda>(a, s).
    case a of None \<Rightarrow> ret (-1) s | Some (rfl, wfl) \<Rightarrow>
    let close_both = (\<lambda>s. and_then (fileclose rfl s) (\<lambda>s. and_then (fileclose wfl s) (\<lambda>s. ret (-1) s))) in
    (case fdalloc rfl s of
      (None, s) \<Rightarrow> close_both s
    | (Some fd0, s) \<Rightarrow>
      (case fdalloc wfl s of
         (None, s) \<Rightarrow> close_both (set_ofile fd0 None s)
       | (Some fd1, s) \<Rightarrow>
           and_then (copyout (p_pagetable (myproc s)) fdarray (le_bytes 4 (of_nat fd0 :: u32)) s) (\<lambda>(r, s).
           and_then (if r < 0 then Ok (r, s)
                     else copyout (p_pagetable (myproc s)) (fdarray + 4) (le_bytes 4 (of_nat fd1 :: u32)) s) (\<lambda>(r, s).
             if r < 0 then close_both (set_ofile fd1 None (set_ofile fd0 None s)) else ret 0 s))))))"

section \<open>Process system calls\<close>

definition sys_exit :: "'a file_state_scheme \<Rightarrow> (sysret \<times> 'a file_state_scheme) res" where
  "sys_exit s = and_then (argint 0 s) (\<lambda>n. and_then (exit n s) (\<lambda>s. Ok (SExit, s)))"

definition sys_getpid :: "'a kcore_scheme \<Rightarrow> (sysret \<times> 'a kcore_scheme) res" where
  "sys_getpid s = ret (p_pid (myproc s)) s"

definition sys_fork :: "'a file_state_scheme \<Rightarrow> (sysret \<times> 'a file_state_scheme) res" where
  "sys_fork s = and_then (fork s) (\<lambda>(v, s). ret v s)"

definition sys_wait :: "'a kcore_scheme \<Rightarrow> (sysret \<times> 'a kcore_scheme) res" where
  "sys_wait s = and_then (argaddr 0 s) (\<lambda>p. and_then (wait p s) (\<lambda>(w, s). Ok (of_wait w, s)))"

definition sys_sbrk :: "'a kcore_scheme \<Rightarrow> (sysret \<times> 'a kcore_scheme) res" where
  "sys_sbrk s =
    and_then (argint 0 s) (\<lambda>n.
    let addr = p_sz (myproc s) in
    and_then (growproc n s) (\<lambda>(r, s). if r < 0 then ret (-1) s else Ok (SRet addr, s)))"

definition sys_sleep_from :: "u32 \<Rightarrow> 'a dev_state_scheme \<Rightarrow> (sysret \<times> 'a dev_state_scheme) res" where
  "sys_sleep_from ticks0 s =
    and_then (argint 0 s) (\<lambda>n.
      if ticks s - ticks0 < word_of_int n then
        (if killed (curp s) s then ret (-1) s else Ok (SSleep TicksChan (uint ticks0), s))
      else ret 0 s)"

definition sys_sleep :: "'a dev_state_scheme \<Rightarrow> (sysret \<times> 'a dev_state_scheme) res" where
  "sys_sleep s = sys_sleep_from (ticks s) s"

definition sys_kill :: "'a kcore_scheme \<Rightarrow> (sysret \<times> 'a kcore_scheme) res" where
  "sys_kill s = and_then (argint 0 s) (\<lambda>pid. let (r, s) = kill pid s in ret r s)"

definition sys_uptime :: "'a dev_state_scheme \<Rightarrow> (sysret \<times> 'a dev_state_scheme) res" where
  "sys_uptime s = Ok (SRet (ucast (ticks s)), s)"

section \<open>Dispatch\<close>

text \<open>The table of \<^verbatim>\<open>syscall.c\<close>, by the numbers of \<^verbatim>\<open>syscall.h\<close>.\<close>

definition syscalls :: "int \<Rightarrow> ('a file_state_scheme \<Rightarrow> (sysret \<times> 'a file_state_scheme) res) option" where
  "syscalls num =
    (if num = 1 then Some sys_fork else if num = 2 then Some sys_exit
     else if num = 3 then Some sys_wait else if num = 4 then Some sys_pipe
     else if num = 5 then Some sys_read else if num = 6 then Some sys_kill
     else if num = 7 then Some sys_exec else if num = 8 then Some sys_fstat
     else if num = 9 then Some sys_chdir else if num = 10 then Some sys_dup
     else if num = 11 then Some sys_getpid else if num = 12 then Some sys_sbrk
     else if num = 13 then Some sys_sleep else if num = 14 then Some sys_uptime
     else if num = 15 then Some sys_open else if num = 16 then Some sys_write
     else if num = 17 then Some sys_mknod else if num = 18 then Some sys_unlink
     else if num = 19 then Some sys_link else if num = 20 then Some sys_mkdir
     else if num = 21 then Some sys_close else None)"

text \<open>The value a call returns goes to register a0 of the process that made it; for a call that
  sleeps or exits there is none yet.\<close>

definition syscall :: "'a file_state_scheme \<Rightarrow> (sysret \<times> 'a file_state_scheme) res" where
  "syscall s =
    (let p = curp s; num = sint (ucast (tf_get p (Reg_a 7) s) :: u32) in
     case (if num > 0 then syscalls num else None) of
       Some f \<Rightarrow>
         and_then (f s) (\<lambda>(r, s).
           case r of SRet v \<Rightarrow> Ok (SRet v, tf_set p (Reg_a 0) v s) | _ \<Rightarrow> Ok (r, s))
     | None \<Rightarrow>
         and_then (printf (Some (bytes_of ''%d %s: unknown sys call %d\<newline>''))
           [VInt (word_of_int (p_pid (procs s p))), VStr (Some (cname (p_name (procs s p)) 16)),
            VInt (word_of_int num)] s) (\<lambda>s.
         Ok (SRet (-1), tf_set p (Reg_a 0) (-1) s)))"

end
