(* ===== verification/Virtio.thy ===== *)
theory Virtio
  imports KState
begin

text \<open>
  The disk driver, \<^verbatim>\<open>kernel/virtio_disk.c\<close>, at the level of its descriptors and rings. The
  driver's memory is the record \<open>vdisk\<close>; an address it hands to the device is a value of
  \<open>vaddr\<close>. A request runs in two halves around the sleep for its completion: \<open>disk_submit\<close>
  makes the chain of three descriptors and publishes it, \<open>disk_finish\<close> runs when the flag
  of the buffer is clear and frees the chain. The device is outside the program: the
  relation \<open>vstep\<close> lets it complete any chain that has been published, in any order.
  The buffer cache takes one request from start to end as one atomic transfer
  (\<open>virtio_disk_rw\<close> of the theory \<open>Bio\<close>).
\<close>

abbreviation (input) NUM :: nat where "NUM \<equiv> 8"

datatype vaddr = NoAddr | ReqAddr nat | DataAddr nat | StatusAddr nat

record virtq_desc =
  vd_addr :: vaddr
  vd_len :: u32
  vd_flags :: u16
  vd_next :: u16

record virtio_blk_req =
  vr_type :: u32
  vr_sector :: u64

record vdisk =
  v_desc :: "nat \<Rightarrow> virtq_desc"
  v_avail_idx :: u16
  v_avail_ring :: "nat \<Rightarrow> u16"
  v_used_dev_idx :: u16
  v_used_ring :: "nat \<Rightarrow> u32"
  v_free :: "nat \<Rightarrow> bool"
  v_used_idx :: u16
  v_info_b :: "nat \<Rightarrow> nat option"
  v_info_status :: "nat \<Rightarrow> byte"
  v_ops :: "nat \<Rightarrow> virtio_blk_req"
  v_bdisk :: "nat \<Rightarrow> bool"

type_synonym 'a vstate = "vdisk \<times> 'a kcore_scheme"

definition set_desc :: "nat \<Rightarrow> virtq_desc \<Rightarrow> vdisk \<Rightarrow> vdisk" where
  "set_desc i x d = d\<lparr>v_desc := (v_desc d)(i := x)\<rparr>"

definition zero_desc :: virtq_desc where
  "zero_desc = \<lparr>vd_addr = NoAddr, vd_len = 0, vd_flags = 0, vd_next = 0\<rparr>"

definition ring_idx :: "u16 \<Rightarrow> nat" where
  "ring_idx i = unat (i mod 8)"

section \<open>The driver\<close>

definition alloc_desc :: "vdisk \<Rightarrow> nat option \<times> vdisk" where
  "alloc_desc d =
    (case List.find (v_free d) [0..<NUM] of
       None \<Rightarrow> (None, d)
     | Some i \<Rightarrow> (Some i, d\<lparr>v_free := (v_free d)(i := False)\<rparr>))"

definition free_desc :: "nat \<Rightarrow> 'a vstate \<Rightarrow> 'a vstate res" where
  "free_desc i = (\<lambda>(d, s).
    if i \<ge> NUM then Panic ''free_desc 1''
    else if v_free d i then Panic ''free_desc 2''
    else Ok ((set_desc i zero_desc d)\<lparr>v_free := (v_free d)(i := True)\<rparr>, wakeup DiskChan s))"

text \<open>A chain is at most \<open>NUM\<close> long: freeing a descriptor twice panics.\<close>

definition free_chain_step :: "nat \<times> 'a vstate \<Rightarrow> (nat \<times> 'a vstate, 'a vstate) ctl res" where
  "free_chain_step = (\<lambda>(i, d, s).
    let flag = vd_flags (v_desc d i); nxt = unat (vd_next (v_desc d i)) in
    and_then (free_desc i (d, s)) (\<lambda>(d, s).
      if flag AND 1 \<noteq> 0 then Ok (Next (nxt, d, s)) else Ok (Done (d, s))))"

definition free_chain :: "nat \<Rightarrow> 'a vstate \<Rightarrow> 'a vstate res" where
  "free_chain i ds = loop (NUM + 2) free_chain_step (i, ds)"

definition alloc3_desc :: "'a vstate \<Rightarrow> ((nat \<times> nat \<times> nat) option \<times> 'a vstate) res" where
  "alloc3_desc = (\<lambda>(d, s).
    case alloc_desc d of
      (None, d) \<Rightarrow> Ok (None, d, s)
    | (Some i0, d) \<Rightarrow>
      (case alloc_desc d of
         (None, d) \<Rightarrow> and_then (free_desc i0 (d, s)) (\<lambda>ds. Ok (None, ds))
       | (Some i1, d) \<Rightarrow>
         (case alloc_desc d of
            (None, d) \<Rightarrow>
              and_then (free_desc i0 (d, s)) (\<lambda>ds.
              and_then (free_desc i1 ds) (\<lambda>ds. Ok (None, ds)))
          | (Some i2, d) \<Rightarrow> Ok (Some (i0, i1, i2), d, s))))"

text \<open>The body of \<^verbatim>\<open>virtio_disk_rw\<close> once it has its descriptors, up to the wait.\<close>

definition disk_publish :: "nat \<Rightarrow> u32 \<Rightarrow> bool \<Rightarrow> nat \<Rightarrow> nat \<Rightarrow> nat \<Rightarrow> vdisk \<Rightarrow> vdisk" where
  "disk_publish b blockno write i0 i1 i2 d =
    (let sector = ucast (blockno * 2);
         d = d\<lparr>v_ops := (v_ops d)(i0 := \<lparr>vr_type = (if write then 1 else 0), vr_sector = sector\<rparr>)\<rparr>;
         d = set_desc i0 \<lparr>vd_addr = ReqAddr i0, vd_len = 16, vd_flags = 1, vd_next = of_nat i1\<rparr> d;
         d = set_desc i1 \<lparr>vd_addr = DataAddr b, vd_len = 1024,
               vd_flags = (if write then 0 else 2) OR 1, vd_next = of_nat i2\<rparr> d;
         d = d\<lparr>v_info_status := (v_info_status d)(i0 := 0xff)\<rparr>;
         d = set_desc i2 \<lparr>vd_addr = StatusAddr i0, vd_len = 1, vd_flags = 2, vd_next = 0\<rparr> d;
         d = d\<lparr>v_bdisk := (v_bdisk d)(b := True), v_info_b := (v_info_b d)(i0 := Some b)\<rparr>;
         d = d\<lparr>v_avail_ring := (v_avail_ring d)(ring_idx (v_avail_idx d) := of_nat i0)\<rparr>
     in d\<lparr>v_avail_idx := v_avail_idx d + 1\<rparr>)"

text \<open>The result is the head of the chain, \<open>None\<close> when there are not three free descriptors and
  the caller sleeps until there are.\<close>

definition disk_submit :: "nat \<Rightarrow> u32 \<Rightarrow> bool \<Rightarrow> 'a vstate \<Rightarrow> (nat option \<times> 'a vstate) res" where
  "disk_submit b blockno write ds =
    and_then (alloc3_desc ds) (\<lambda>(idx, d, s).
      case idx of
        None \<Rightarrow> Ok (None, d, s)
      | Some (i0, i1, i2) \<Rightarrow> Ok (Some i0, disk_publish b blockno write i0 i1 i2 d, s))"

definition disk_finish :: "nat \<Rightarrow> nat \<Rightarrow> 'a vstate \<Rightarrow> 'a vstate res" where
  "disk_finish b i0 = (\<lambda>(d, s).
    if v_bdisk d b then Blocked (BufIOChan b)
    else free_chain i0 (d\<lparr>v_info_b := (v_info_b d)(i0 := None)\<rparr>, s))"

definition disk_intr_step :: "'a vstate \<Rightarrow> ('a vstate, 'a vstate) ctl res" where
  "disk_intr_step = (\<lambda>(d, s).
    if v_used_idx d = v_used_dev_idx d then Ok (Done (d, s))
    else
      let i = unat (v_used_ring d (ring_idx (v_used_idx d))) in
      if v_info_status d i \<noteq> 0 then Panic ''virtio_disk_intr status''
      else case v_info_b d i of
          None \<Rightarrow> Panic ''null dereference''
        | Some b \<Rightarrow>
            Ok (Next (d\<lparr>v_bdisk := (v_bdisk d)(b := False), v_used_idx := v_used_idx d + 1\<rparr>,
                      wakeup (BufIOChan b) s)))"

definition virtio_disk_intr :: "'a vstate \<Rightarrow> 'a vstate res" where
  "virtio_disk_intr = (\<lambda>(d, s). loop (Suc (unat (v_used_dev_idx d - v_used_idx d))) disk_intr_step (d, s))"

end
