(* ===== verification/Trap.thy ===== *)
theory Trap
  imports Sysfile Virtio
begin

text \<open>
  Traps, \<^verbatim>\<open>kernel/trap.c\<close>, and the interrupt controller, \<^verbatim>\<open>kernel/plic.c\<close>. The control and
  status registers the handlers read at a trap, the answer of the interrupt controller and the
  addresses the linker assigns are the record \<open>trap_regs\<close>. \<open>usertrap\<close> runs from the entry in
  the kernel to the return to user space, or to the point where the process gives up the CPU.
\<close>

record trap_regs =
  r_scause :: u64
  r_sepc :: u64
  r_sstatus :: u64
  r_stval :: u64
  r_satp :: u64
  r_tp :: u64
  plic_irq :: u32
  usertrap_addr :: u64

record kernel = file_state +
  vdisk :: vdisk
  sip :: u64
  plic_mem :: "nat \<Rightarrow> u32"

section \<open>The interrupt controller\<close>

abbreviation (input) UART0_IRQ :: nat where "UART0_IRQ \<equiv> 10"
abbreviation (input) VIRTIO0_IRQ :: nat where "VIRTIO0_IRQ \<equiv> 1"

text \<open>Registers by their offset from \<^verbatim>\<open>PLIC\<close>.\<close>

definition plic_write :: "nat \<Rightarrow> u32 \<Rightarrow> 'a kernel_scheme \<Rightarrow> 'a kernel_scheme" where
  "plic_write off v s = s\<lparr>plic_mem := (plic_mem s)(off := v)\<rparr>"

definition PLIC_SENABLE :: "nat \<Rightarrow> nat" where "PLIC_SENABLE hart = 0x2080 + hart * 0x100"
definition PLIC_SPRIORITY :: "nat \<Rightarrow> nat" where "PLIC_SPRIORITY hart = 0x201000 + hart * 0x2000"
definition PLIC_SCLAIM :: "nat \<Rightarrow> nat" where "PLIC_SCLAIM hart = 0x201004 + hart * 0x2000"

definition plicinit :: "'a kernel_scheme \<Rightarrow> 'a kernel_scheme" where
  "plicinit s = plic_write (VIRTIO0_IRQ * 4) 1 (plic_write (UART0_IRQ * 4) 1 s)"

definition plicinithart :: "nat \<Rightarrow> 'a kernel_scheme \<Rightarrow> 'a kernel_scheme" where
  "plicinithart hart s =
    plic_write (PLIC_SPRIORITY hart) 0
      (plic_write (PLIC_SENABLE hart) (push_bit UART0_IRQ 1 OR push_bit VIRTIO0_IRQ 1) s)"

text \<open>Reading the claim register has an answer of the controller's choice.\<close>

definition plic_claim :: "trap_regs \<Rightarrow> int" where
  "plic_claim r = sint (plic_irq r)"

definition plic_complete :: "nat \<Rightarrow> int \<Rightarrow> 'a kernel_scheme \<Rightarrow> 'a kernel_scheme" where
  "plic_complete hart irq s = plic_write (PLIC_SCLAIM hart) (word_of_int irq) s"

section \<open>Interrupts\<close>

definition disk_intr :: "'a kernel_scheme \<Rightarrow> 'a kernel_scheme res" where
  "disk_intr s = and_then (virtio_disk_intr (vdisk s, s)) (\<lambda>(d, s). Ok (s\<lparr>vdisk := d\<rparr>))"

definition devintr :: "trap_regs \<Rightarrow> 'a kernel_scheme \<Rightarrow> (nat \<times> 'a kernel_scheme) res" where
  "devintr r s =
    (let scause = r_scause r in
     if scause AND 0x8000000000000000 \<noteq> 0 \<and> scause AND 0xff = 9 then
       let irq = plic_claim r in
       and_then (if irq = int UART0_IRQ then uartintr s
                 else if irq = int VIRTIO0_IRQ then disk_intr s
                 else if irq \<noteq> 0 then
                   printf (Some (bytes_of ''unexpected interrupt irq=%d\<newline>'')) [VInt (word_of_int irq)] s
                 else Ok s) (\<lambda>s.
       Ok (1, if irq \<noteq> 0 then plic_complete (unat (r_tp r)) irq s else s))
     else if scause = 0x8000000000000001 then
       let s = (if r_tp r = 0 then clockintr s else s)
       in Ok (2, s\<lparr>sip := sip s AND NOT 2\<rparr>)
     else Ok (0, s))"

section \<open>Traps from user space\<close>

abbreviation (input) SSTATUS_SPP :: u64 where "SSTATUS_SPP \<equiv> 0x100"
abbreviation (input) SSTATUS_SPIE :: u64 where "SSTATUS_SPIE \<equiv> 0x20"

definition MAKE_SATP :: "u64 \<Rightarrow> u64" where
  "MAKE_SATP pagetable = 0x8000000000000000 OR drop_bit 12 pagetable"

text \<open>How a trap ends: with a return to user space at \<open>sepc\<close> with the registers \<open>sstatus\<close> and
  \<open>satp\<close>, or with the process asleep, exited, or put back in the run queue.\<close>

datatype trap_end =
    ToUser (ue_sepc: u64) (ue_sstatus: u64) (ue_satp: u64)
  | Slept chan int | Exited | Yielded

definition usertrapret :: "trap_regs \<Rightarrow> 'a kcore_scheme \<Rightarrow> trap_end \<times> 'a kcore_scheme" where
  "usertrapret r s =
    (let p = curp s;
         s = tf_set p Kernel_satp (r_satp r) s;
         s = tf_set p Kernel_sp (p_kstack (procs s p) + PGSIZE) s;
         s = tf_set p Kernel_trap (usertrap_addr r) s;
         s = tf_set p Kernel_hartid (r_tp r) s;
         x = (r_sstatus r AND NOT SSTATUS_SPP) OR SSTATUS_SPIE
     in (ToUser (tf_get p Epc s) x (MAKE_SATP (p_pagetable (procs s p))), s))"

text \<open>The end of \<open>usertrap\<close>, after the cause has been handled.\<close>

definition usertrap_exit :: "nat \<Rightarrow> trap_regs \<Rightarrow> 'a kernel_scheme \<Rightarrow> (trap_end \<times> 'a kernel_scheme) res" where
  "usertrap_exit which_dev r s =
    (if killed (curp s) s then and_then (exit (-1) s) (\<lambda>s. Ok (Exited, s))
     else if which_dev = 2 then and_then (yield s) (\<lambda>s. Ok (Yielded, s))
     else Ok (usertrapret r s))"

definition usertrap :: "trap_regs \<Rightarrow> 'a kernel_scheme \<Rightarrow> (trap_end \<times> 'a kernel_scheme) res" where
  "usertrap r s =
    (if r_sstatus r AND SSTATUS_SPP \<noteq> 0 then Panic ''usertrap: not from user mode''
     else
       let p = curp s; s = tf_set p Epc (r_sepc r) s in
       if r_scause r = 8 then
         (if killed p s then and_then (exit (-1) s) (\<lambda>s. Ok (Exited, s))
          else
            let s = tf_set p Epc (tf_get p Epc s + 4) s in
            and_then (syscall s) (\<lambda>(v, s).
              case v of
                SRet _ \<Rightarrow> usertrap_exit 0 r s
              | SSleep c k \<Rightarrow> Ok (Slept c k, s)
              | SExit \<Rightarrow> Ok (Exited, s)))
       else and_then (devintr r s) (\<lambda>(which_dev, s).
         if which_dev \<noteq> 0 then usertrap_exit which_dev r s
         else
           and_then (printf (Some (bytes_of ''usertrap(): unexpected scause %p pid=%d\<newline>''))
             [VPtr (r_scause r), VInt (word_of_int (p_pid (procs s p)))] s) (\<lambda>s.
           and_then (printf (Some (bytes_of ''            sepc=%p stval=%p\<newline>''))
             [VPtr (r_sepc r), VPtr (r_stval r)] s) (\<lambda>s.
           usertrap_exit 0 r (setkilled p s)))))"

text \<open>A trap in the kernel: the result is whether the running process gives up the CPU; the
  registers \<^verbatim>\<open>sepc\<close> and \<^verbatim>\<open>sstatus\<close> are restored from their saved values.\<close>

definition kerneltrap :: "trap_regs \<Rightarrow> 'a kernel_scheme \<Rightarrow> (bool \<times> u64 \<times> u64 \<times> 'a kernel_scheme) res" where
  "kerneltrap r s =
    (if r_sstatus r AND SSTATUS_SPP = 0 then Panic ''kerneltrap: not from supervisor mode''
     else if r_sstatus r AND 2 \<noteq> 0 then Panic ''kerneltrap: interrupts enabled''
     else and_then (devintr r s) (\<lambda>(which_dev, s).
       if which_dev = 0 then
         and_then (printf (Some (bytes_of ''scause %p\<newline>'')) [VPtr (r_scause r)] s) (\<lambda>s.
         and_then (printf (Some (bytes_of ''sepc=%p stval=%p\<newline>'')) [VPtr (r_sepc r), VPtr (r_stval r)] s) (\<lambda>s.
         Panic ''kerneltrap''))
       else if which_dev = 2 \<and> curp s < NPROC \<and> p_state (myproc s) = RUNNING then
         and_then (yield s) (\<lambda>s. Ok (True, r_sepc r, r_sstatus r, s))
       else Ok (False, r_sepc r, r_sstatus r, s)))"

text \<open>The first thing a new process runs: the file system is set up by the first of them.\<close>

definition forkret :: "bool \<Rightarrow> trap_regs \<Rightarrow> 'a kernel_scheme \<Rightarrow> (trap_end \<times> 'a kernel_scheme) res" where
  "forkret is_first r s =
    and_then (if is_first then fsinit ROOTDEV s else Ok s) (\<lambda>s. Ok (usertrapret r s))"

end
