(* ===== verification/ProcFrame.thy ===== *)
theory ProcFrame
  imports Trap
begin

text \<open>
  What the kernel below the process system does to the process table. The memory system keeps
  any property of the process table, the running process, the process counter and the first
  process (\<open>memory_contract\<close>). Such a property is a
  \<open>process_contract\<close> when waking sleepers and changing the fields of a process other than its
  state, channel, identity and parent keep it; every operation of the memory system, the buffer
  cache, the log, the file system, the devices, pipes, files and program loading then keeps it.
\<close>

section \<open>Partial correctness of results\<close>

text \<open>\<open>ensures P r\<close>: if the function returned, its result satisfies \<open>P\<close>.\<close>

definition ensures :: "('a \<Rightarrow> bool) \<Rightarrow> 'a res \<Rightarrow> bool" where
  "ensures P r \<longleftrightarrow> (\<forall>x. r = Ok x \<longrightarrow> P x)"

primrec of_ctl :: "('s \<Rightarrow> bool) \<Rightarrow> ('r \<Rightarrow> bool) \<Rightarrow> ('s, 'r) ctl \<Rightarrow> bool" where
  "of_ctl I Q (Next s) = I s"
| "of_ctl I Q (Done r) = Q r"

lemma ensures_simps [simp]:
  "ensures P (Ok x) = P x" "ensures P (Panic m)" "ensures P (Blocked ch)" "ensures P Diverge"
  by (auto simp: ensures_def)

lemma ensuresD: "ensures P r \<Longrightarrow> r = Ok x \<Longrightarrow> P x"
  by (simp add: ensures_def)

lemma ensures_and_then:
  assumes "ensures Q r" "\<And>x. Q x \<Longrightarrow> ensures P (f x)"
  shows "ensures P (and_then r f)"
  using assms by (cases r) auto

lemma ensures_loop:
  assumes "I s" "\<And>s. I s \<Longrightarrow> ensures (of_ctl I Q) (body s)"
  shows "ensures Q (loop n body s)"
proof -
  have "Q r" if "loop n body s = Ok r" for r
    using that assms(1) by (rule loop_returned) (use assms(2) in \<open>fastforce simp: ensures_def\<close>)+
  then show ?thesis by (simp add: ensures_def)
qed

lemma ensures_for_each:
  assumes "I s" "\<And>i s. i \<in> set xs \<Longrightarrow> I s \<Longrightarrow> ensures I (f i s)"
  shows "ensures I (for_each f xs s)"
  using assms
proof (induction xs arbitrary: s)
  case (Cons x xs)
  show ?case
    by (simp, rule ensures_and_then, rule Cons.prems(2)) (use Cons in auto)
qed simp

lemma ensures_fold:
  assumes "I s" "\<And>i s. I s \<Longrightarrow> I (f i s)"
  shows "I (fold f xs s)"
  using assms by (induction xs arbitrary: s) auto

text \<open>Structural rules, for the branches a function of the model is made of.\<close>

lemma ensures_if: "(b \<Longrightarrow> ensures P x) \<Longrightarrow> (\<not> b \<Longrightarrow> ensures P y) \<Longrightarrow> ensures P (if b then x else y)"
  by simp

lemma ensures_case_option:
  "ensures P x \<Longrightarrow> (\<And>v. ensures P (f v)) \<Longrightarrow> ensures P (case_option x f w)"
  by (cases w) auto

lemma ensures_case_prod: "(\<And>a b. ensures P (f a b)) \<Longrightarrow> ensures P (case_prod f w)"
  by (cases w) auto

lemma ensures_let: "(\<And>v. ensures P (f v)) \<Longrightarrow> ensures P (Let x f)"
  by simp

lemma ensures_any: "(\<And>x. ensures P (f x)) \<Longrightarrow> ensures P (and_then r f)"
  by (cases r) auto

lemma case_ftype:
  "ensures P a \<Longrightarrow> ensures P b \<Longrightarrow> ensures P c \<Longrightarrow> ensures P d \<Longrightarrow> ensures P (case_ftype a b c d w)"
  by (cases w) auto

lemma ensures_case_list:
  "(w = [] \<Longrightarrow> ensures P a) \<Longrightarrow> (\<And>x xs. w = x # xs \<Longrightarrow> ensures P (f x xs)) \<Longrightarrow> ensures P (case_list a f w)"
  by (cases w) auto

lemma ensures_case_va:
  "(\<And>v. ensures P (f v)) \<Longrightarrow> (\<And>v. ensures P (g v)) \<Longrightarrow> (\<And>v. ensures P (h v)) \<Longrightarrow> ensures P (case_va_arg f g h w)"
  by (cases w) auto

lemma ensures_case_ctl:
  "of_ctl I Q w \<Longrightarrow> (\<And>s. I s \<Longrightarrow> ensures P (f s)) \<Longrightarrow> (\<And>r. Q r \<Longrightarrow> ensures P (g r)) \<Longrightarrow>
    ensures P (case_ctl f g w)"
  by (cases w) auto

section \<open>Process contracts\<close>

text \<open>What \<open>wakeup\<close> does to the table.\<close>

definition wake :: "chan \<Rightarrow> nat \<Rightarrow> (nat \<Rightarrow> proc) \<Rightarrow> nat \<Rightarrow> proc" where
  "wake c cur ps = (\<lambda>i. if i < NPROC \<and> i \<noteq> cur \<and> p_state (ps i) = SLEEPING \<and> p_chan (ps i) = Some c
     then (ps i)\<lparr>p_state := RUNNABLE\<rparr> else ps i)"

lemma procs_wakeup [simp]: "procs (wakeup c s) = wake c (curp s) (procs s)"
  by (simp add: wakeup_def wake_def Let_def fun_eq_iff)

lemma upd_proc_frame [simp]:
  "procs (upd_proc p f s) = (procs s)(p := f (procs s p))" "curp (upd_proc p f s) = curp s"
  "nextpid (upd_proc p f s) = nextpid s" "initproc (upd_proc p f s) = initproc s"
  by (simp_all add: upd_proc_def)

definition same_id :: "proc \<Rightarrow> proc \<Rightarrow> bool" where
  "same_id x y \<longleftrightarrow> p_state x = p_state y \<and> p_chan x = p_chan y \<and> p_pid x = p_pid y \<and> p_parent x = p_parent y"

type_synonym proc_pred = "(nat \<Rightarrow> proc) \<Rightarrow> nat \<Rightarrow> int \<Rightarrow> nat option \<Rightarrow> bool"

abbreviation (input) st :: "proc_pred \<Rightarrow> 'a kcore_scheme \<Rightarrow> bool" where
  "st K s \<equiv> K (procs s) (curp s) (nextpid s) (initproc s)"

text \<open>The same of the last component of a tuple.\<close>

abbreviation (input) st1 :: "proc_pred \<Rightarrow> 'x \<times> 'a kcore_scheme \<Rightarrow> bool" where
  "st1 K \<equiv> \<lambda>(_, s). st K s"

abbreviation (input) st2 :: "proc_pred \<Rightarrow> 'x \<times> 'y \<times> 'a kcore_scheme \<Rightarrow> bool" where
  "st2 K \<equiv> \<lambda>(_, _, s). st K s"

abbreviation (input) st3 :: "proc_pred \<Rightarrow> 'x \<times> 'y \<times> 'z \<times> 'a kcore_scheme \<Rightarrow> bool" where
  "st3 K \<equiv> \<lambda>(_, _, _, s). st K s"

abbreviation (input) st4 :: "proc_pred \<Rightarrow> 'x \<times> 'y \<times> 'z \<times> 'w \<times> 'a kcore_scheme \<Rightarrow> bool" where
  "st4 K \<equiv> \<lambda>(_, _, _, _, s). st K s"

named_theorems keeps_op \<open>operations that keep a process contract\<close>
named_theorems keeps_simp \<open>state updates outside the process table\<close>

locale memory_contract =
  fixes K :: "(nat \<Rightarrow> proc) \<Rightarrow> nat \<Rightarrow> int \<Rightarrow> nat option \<Rightarrow> bool"
begin

lemma then_st:
  fixes r :: "'a kcore_scheme res"
  assumes "ensures (st K) r" "\<And>s. st K s \<Longrightarrow> ensures P (f s)"
  shows "ensures P (and_then r f)"
  using assms by (rule ensures_and_then)

lemma then_st1:
  fixes r :: "('x \<times> 'a kcore_scheme) res"
  assumes "ensures (st1 K) r" "\<And>x s. st K s \<Longrightarrow> ensures P (f x s)"
  shows "ensures P (and_then r (case_prod f))"
  using assms by (cases r) auto

lemma then_st2:
  fixes r :: "('x \<times> 'y \<times> 'a kcore_scheme) res"
  assumes "ensures (st2 K) r" "\<And>x y s. st K s \<Longrightarrow> ensures P (f x y s)"
  shows "ensures P (and_then r (\<lambda>(x, y, s). f x y s))"
  using assms by (cases r) auto

lemma then_st4:
  fixes r :: "('x \<times> 'y \<times> 'z \<times> 'w \<times> 'a kcore_scheme) res"
  assumes "ensures (st4 K) r" "\<And>x y z w s. st K s \<Longrightarrow> ensures P (f x y z w s)"
  shows "ensures P (and_then r (\<lambda>(x, y, z, w, s). f x y z w s))"
  using assms by (cases r) auto

lemma let_st:
  fixes x :: "'a kcore_scheme"
  assumes "st K x" "\<And>s. st K s \<Longrightarrow> ensures P (f s)"
  shows "ensures P (Let x f)"
  using assms by simp

lemma let_st1:
  fixes x :: "'x \<times> 'a kcore_scheme"
  assumes "st1 K x" "\<And>x s. st K s \<Longrightarrow> ensures P (f x s)"
  shows "ensures P (Let x (case_prod f))"
  using assms by (cases x) auto

lemma case_st1:
  fixes x :: "'x \<times> 'a kcore_scheme"
  assumes "st1 K x" "\<And>x s. st K s \<Longrightarrow> ensures P (f x s)"
  shows "ensures P (case_prod f x)"
  using assms by (cases x) auto

lemma loop_st:
  fixes s :: "'a kcore_scheme"
  assumes "st K s" "\<And>s. st K s \<Longrightarrow> ensures (of_ctl (st K) Q) (body s)"
  shows "ensures Q (loop n body s)"
  by (rule ensures_loop[where I = "st K"]) (use assms in auto)

lemma loop_st1:
  fixes s :: "'a kcore_scheme"
  assumes "st K s" "\<And>x s. st K s \<Longrightarrow> ensures (of_ctl (st1 K) Q) (body (x, s))"
  shows "ensures Q (loop n body (x, s))"
  by (rule ensures_loop[where I = "st1 K"]) (use assms in auto)

lemma loop_st2:
  fixes s :: "'a kcore_scheme"
  assumes "st K s" "\<And>x y s. st K s \<Longrightarrow> ensures (of_ctl (st2 K) Q) (body (x, y, s))"
  shows "ensures Q (loop n body (x, y, s))"
  by (rule ensures_loop[where I = "st2 K"]) (use assms in auto)

lemma loop_st3:
  fixes s :: "'a kcore_scheme"
  assumes "st K s" "\<And>x y z s. st K s \<Longrightarrow> ensures (of_ctl (st3 K) Q) (body (x, y, z, s))"
  shows "ensures Q (loop n body (x, y, z, s))"
  by (rule ensures_loop[where I = "st3 K"]) (use assms in auto)

lemma for_each_st:
  fixes s :: "'a kcore_scheme"
  assumes "st K s" "\<And>i s. st K s \<Longrightarrow> ensures (st K) (f i s)"
  shows "ensures (st K) (for_each f xs s)"
  by (rule ensures_for_each) (use assms in auto)

lemmas vc_st = then_st then_st1 then_st2 then_st4 let_st let_st1 case_st1
  loop_st loop_st1 loop_st2 loop_st3 for_each_st

lemmas vc = vc_st ensures_if ensures_case_option

lemma ok_st1:
  fixes x :: "'x \<times> 'a kcore_scheme"
  shows "st1 K x \<Longrightarrow> ensures (st1 K) (Ok x)"
  by simp

lemmas vc_any = ok_st1 ensures_let ensures_any ensures_case_prod

section \<open>Memory\<close>

lemma keeps_kfree [keeps_op]: "st K s \<Longrightarrow> ensures (st K) (kfree a s)"
  by (unfold kfree_def prod.case) (rule vc keeps_op | (simp add: keeps_simp; fail) | rule vc_any)+

lemma keeps_kalloc [keeps_op]: "st K s \<Longrightarrow> st1 K (kalloc s)"
  by (simp add: keeps_simp kalloc_def Let_def split: prod.splits option.splits)

lemma keeps_freerange_loop [keeps_op]: "st K s \<Longrightarrow> ensures (st K) (freerange_loop a b s)"
proof (induction a b s rule: freerange_loop.induct)
  case (1 p e s)
  have "ensures (st K) (and_then (kfree p s) (freerange_loop (p + 4096) e))" if "p + 4096 \<le> e"
  proof (cases "kfree p s")
    case (Ok t)
    then show ?thesis using 1(1)[OF that Ok] keeps_kfree[OF 1(2), of p] by simp
  qed simp_all
  then show ?case using 1(2) by (subst freerange_loop.simps) simp
qed

lemma keeps_freerange [keeps_op]: "st K s \<Longrightarrow> ensures (st K) (freerange a b s)"
  by (unfold freerange_def prod.case) (rule vc keeps_op | (simp add: keeps_simp; fail) | rule vc_any)+

lemma keeps_kinit [keeps_op]: "st K s \<Longrightarrow> ensures (st K) (kinit s)"
  by (unfold kinit_def prod.case) (rule vc keeps_op | (simp add: keeps_simp; fail) | rule vc_any)+

lemma keeps_walk_level [keeps_op]: "st K s \<Longrightarrow> st1 K (walk_level a b d e s)"
  using keeps_kalloc[of s] by (auto simp: walk_level_def Let_def split: prod.splits)

lemma keeps_walk [keeps_op]: "st K s \<Longrightarrow> ensures (st1 K) (walk a b d s)"
  by (unfold walk_def prod.case) (rule vc keeps_op | (simp add: keeps_simp; fail) | rule vc_any)+

lemma keeps_mappages_step [keeps_op]: "st K s \<Longrightarrow> ensures (of_ctl (st2 K) (st1 K)) (mappages_step a b d (x, y, s))"
  by (unfold mappages_step_def prod.case) (rule vc keeps_op | (simp add: keeps_simp; fail) | rule vc_any)+

lemma keeps_mappages [keeps_op]: "st K s \<Longrightarrow> ensures (st1 K) (mappages a b d e g s)"
  by (unfold mappages_def prod.case) (rule vc keeps_op | (simp add: keeps_simp; fail) | rule vc_any)+

lemma keeps_kvmmap [keeps_op]: "st K s \<Longrightarrow> ensures (st K) (kvmmap a b d e g s)"
  by (unfold kvmmap_def prod.case) (rule vc keeps_op | (simp add: keeps_simp; fail) | rule vc_any)+

lemma keeps_proc_mapstacks [keeps_op]: "st K s \<Longrightarrow> ensures (st K) (proc_mapstacks a s)"
  by (unfold proc_mapstacks_def prod.case) (rule vc keeps_op | (simp add: keeps_simp; fail) | rule vc_any)+

lemma keeps_kvmmake [keeps_op]: "st K s \<Longrightarrow> ensures (st1 K) (kvmmake s)"
  by (unfold kvmmake_def prod.case) (rule vc keeps_op | (simp add: keeps_simp; fail) | rule vc_any)+

lemma keeps_kvminit [keeps_op]: "st K s \<Longrightarrow> ensures (st K) (kvminit s)"
  by (unfold kvminit_def prod.case) (rule vc keeps_op | (simp add: keeps_simp; fail) | rule vc_any)+

lemma keeps_uvmunmap_step [keeps_op]: "st K s \<Longrightarrow> ensures (of_ctl (st1 K) (st K)) (uvmunmap_step a b d (x, s))"
  by (unfold uvmunmap_step_def prod.case) (rule vc keeps_op | (simp add: keeps_simp; fail) | rule vc_any)+

lemma keeps_uvmunmap [keeps_op]: "st K s \<Longrightarrow> ensures (st K) (uvmunmap a b d e s)"
  by (unfold uvmunmap_def prod.case) (rule vc keeps_op | (simp add: keeps_simp; fail) | rule vc_any)+

lemma keeps_uvmcreate [keeps_op]: "st K s \<Longrightarrow> st1 K (uvmcreate s)"
  using keeps_kalloc[of s] by (auto simp: uvmcreate_def Let_def split: prod.splits)

lemma keeps_uvmfirst [keeps_op]: "st K s \<Longrightarrow> ensures (st K) (uvmfirst a b s)"
  by (unfold uvmfirst_def prod.case) (rule vc keeps_op | (simp add: keeps_simp; fail) | rule vc_any)+

lemma keeps_uvmdealloc [keeps_op]: "st K s \<Longrightarrow> ensures (st1 K) (uvmdealloc a b d s)"
  by (unfold uvmdealloc_def prod.case) (rule vc keeps_op | (simp add: keeps_simp; fail) | rule vc_any)+

lemma keeps_uvmalloc_step [keeps_op]: "st K s \<Longrightarrow> ensures (of_ctl (st1 K) (st1 K)) (uvmalloc_step a b d e (x, s))"
  by (unfold uvmalloc_step_def prod.case) (rule vc keeps_op | (simp add: keeps_simp; fail) | rule vc_any)+

lemma keeps_uvmalloc [keeps_op]: "st K s \<Longrightarrow> ensures (st1 K) (uvmalloc a b d e s)"
  by (unfold uvmalloc_def prod.case) (rule vc keeps_op | (simp add: keeps_simp; fail) | rule vc_any)+

lemma keeps_freewalk [keeps_op]: "st K s \<Longrightarrow> ensures (st K) (freewalk a b s)"
proof (induction a arbitrary: b s)
  case (Suc n)
  show ?case
    by (subst freewalk.simps) (rule vc keeps_op Suc.IH Suc.prems | (simp; fail) | rule vc_any)+
qed simp

lemma keeps_uvmfree [keeps_op]: "st K s \<Longrightarrow> ensures (st K) (uvmfree a b s)"
  by (unfold uvmfree_def prod.case) (rule vc keeps_op | (simp add: keeps_simp; fail) | rule vc_any)+

lemma keeps_uvmcopy_step [keeps_op]: "st K s \<Longrightarrow> ensures (of_ctl (st1 K) (st1 K)) (uvmcopy_step a b d (x, s))"
  by (unfold uvmcopy_step_def prod.case) (rule vc keeps_op | (simp add: keeps_simp; fail) | rule vc_any)+

lemma keeps_uvmcopy [keeps_op]: "st K s \<Longrightarrow> ensures (st1 K) (uvmcopy a b d s)"
  by (unfold uvmcopy_def prod.case) (rule vc keeps_op | (simp add: keeps_simp; fail) | rule vc_any)+

lemma keeps_uvmclear [keeps_op]: "st K s \<Longrightarrow> ensures (st K) (uvmclear a b s)"
  by (unfold uvmclear_def prod.case) (rule vc keeps_op | (simp add: keeps_simp; fail) | rule vc_any)+

lemma keeps_copyout_step [keeps_op]: "st K s \<Longrightarrow> ensures (of_ctl (st2 K) (st1 K)) (copyout_step a (x, y, s))"
  by (unfold copyout_step_def prod.case) (rule vc keeps_op | (simp add: keeps_simp; fail) | rule vc_any)+

lemma keeps_copyout [keeps_op]: "st K s \<Longrightarrow> ensures (st1 K) (copyout a b d s)"
  by (unfold copyout_def prod.case) (rule vc keeps_op | (simp add: keeps_simp; fail) | rule vc_any)+

lemma keeps_proc_pagetable [keeps_op]: "st K s \<Longrightarrow> ensures (st1 K) (proc_pagetable a s)"
  by (unfold proc_pagetable_def prod.case) (rule vc keeps_op | (simp add: keeps_simp; fail) | rule vc_any)+

lemma keeps_proc_freepagetable [keeps_op]: "st K s \<Longrightarrow> ensures (st K) (proc_freepagetable a b s)"
  by (unfold proc_freepagetable_def prod.case) (rule vc keeps_op | (simp add: keeps_simp; fail) | rule vc_any)+

end

text \<open>Above it, processes are woken and their other fields change.\<close>

locale process_contract = memory_contract +
  assumes keep_wake: "K ps cur n i \<Longrightarrow> K (wake c cur ps) cur n i"
    and keep_fields: "K ps cur n i \<Longrightarrow> same_id x (ps p) \<Longrightarrow> K (ps(p := x)) cur n i"
begin

lemmas keep_more [keeps_simp] = keep_wake keep_fields same_id_def

section \<open>Buffer cache and log\<close>

lemmas keeps_bio_defs [keeps_simp] = upd_buf_def upd_buf_lock_def link_head_def disk_rw_def
  bpin_def bunpin_def set_data_def acquiresleep_def releasesleep_def Let_def

lemma keeps_binit_loop [keeps_op]: "st K s \<Longrightarrow> st K (binit_loop a s)"
  by (induction a arbitrary: s) (simp_all add: keeps_simp)

lemma keeps_binit [keeps_op]: "st K s \<Longrightarrow> st K (binit s)"
  by (unfold binit_def) (rule keeps_op, simp)

lemma keeps_bget [keeps_op]: "st K s \<Longrightarrow> ensures (st1 K) (bget a b s)"
  by (unfold bget_def prod.case) (rule vc keeps_op | (simp add: keeps_simp; fail) | rule vc_any)+

lemma keeps_bread [keeps_op]: "st K s \<Longrightarrow> ensures (st1 K) (bread a b s)"
  by (unfold bread_def prod.case) (rule vc keeps_op | (simp add: keeps_simp; fail) | rule vc_any)+

lemma keeps_bwrite [keeps_op]: "st K s \<Longrightarrow> ensures (st K) (bwrite a s)"
  by (unfold bwrite_def prod.case) (rule vc keeps_op | (simp add: keeps_simp; fail) | rule vc_any)+

lemma keeps_brelse [keeps_op]: "st K s \<Longrightarrow> ensures (st K) (brelse a s)"
  by (unfold brelse_def prod.case) (rule vc keeps_op | (simp add: keeps_simp; fail) | rule vc_any)+

lemma keeps_install_one [keeps_op]: "st K s \<Longrightarrow> ensures (st K) (install_one a b s)"
  by (unfold install_one_def prod.case) (rule vc keeps_op | (simp add: keeps_simp; fail) | rule vc_any)+

lemma keeps_install_trans [keeps_op]: "st K s \<Longrightarrow> ensures (st K) (install_trans a s)"
  by (unfold install_trans_def prod.case) (rule vc keeps_op | (simp add: keeps_simp; fail) | rule vc_any)+

lemma keeps_read_head [keeps_op]: "st K s \<Longrightarrow> ensures (st K) (read_head s)"
  by (unfold read_head_def prod.case) (rule vc keeps_op | (simp add: keeps_simp; fail) | rule vc_any)+

lemma keeps_write_head [keeps_op]: "st K s \<Longrightarrow> ensures (st K) (write_head s)"
  by (unfold write_head_def prod.case) (rule vc keeps_op | (simp add: keeps_simp; fail) | rule vc_any)+

lemma keeps_recover_from_log [keeps_op]: "st K s \<Longrightarrow> ensures (st K) (recover_from_log s)"
  by (unfold recover_from_log_def prod.case) (rule vc keeps_op | (simp add: keeps_simp; fail) | rule vc_any)+

lemma keeps_initlog [keeps_op]: "st K s \<Longrightarrow> ensures (st K) (initlog a b d s)"
  by (unfold initlog_def prod.case) (rule vc keeps_op | (simp add: keeps_simp; fail) | rule vc_any)+

lemma keeps_begin_op [keeps_op]: "st K s \<Longrightarrow> ensures (st K) (begin_op s)"
  by (unfold begin_op_def prod.case) (rule vc keeps_op | (simp add: keeps_simp; fail) | rule vc_any)+

lemma keeps_write_log_one [keeps_op]: "st K s \<Longrightarrow> ensures (st K) (write_log_one a s)"
  by (unfold write_log_one_def prod.case) (rule vc keeps_op | (simp add: keeps_simp; fail) | rule vc_any)+

lemma keeps_write_log [keeps_op]: "st K s \<Longrightarrow> ensures (st K) (write_log s)"
  by (unfold write_log_def prod.case) (rule vc keeps_op | (simp add: keeps_simp; fail) | rule vc_any)+

lemma keeps_commit [keeps_op]: "st K s \<Longrightarrow> ensures (st K) (commit s)"
  by (unfold commit_def prod.case) (rule vc keeps_op | (simp add: keeps_simp; fail) | rule vc_any)+

lemma keeps_end_op [keeps_op]: "st K s \<Longrightarrow> ensures (st K) (end_op s)"
  by (unfold end_op_def prod.case) (rule vc keeps_op | (simp add: keeps_simp; fail) | rule vc_any)+

lemma keeps_log_write [keeps_op]: "st K s \<Longrightarrow> ensures (st K) (log_write a s)"
  by (unfold log_write_def prod.case) (rule vc keeps_op | (simp add: keeps_simp; fail) | rule vc_any)+

section \<open>File system\<close>

lemmas keeps_fs_defs [keeps_simp] = upd_inode_def upd_inode_lock_def set_addr_def set_de_def

lemma keeps_either_copyout [keeps_op]: "st K s \<Longrightarrow> ensures (st1 K) (either_copyout a b s)"
  by (cases a) (simp_all add: keeps_op)

lemma keeps_readsb [keeps_op]: "st K s \<Longrightarrow> ensures (st K) (readsb a s)"
  by (unfold readsb_def prod.case) (rule vc keeps_op | (simp add: keeps_simp; fail) | rule vc_any)+

lemma keeps_fsinit [keeps_op]: "st K s \<Longrightarrow> ensures (st K) (fsinit a s)"
  by (unfold fsinit_def prod.case) (rule vc keeps_op | (simp add: keeps_simp; fail) | rule vc_any)+

lemma keeps_bzero [keeps_op]: "st K s \<Longrightarrow> ensures (st K) (bzero a b s)"
  by (unfold bzero_def prod.case) (rule vc keeps_op | (simp add: keeps_simp; fail) | rule vc_any)+

lemma keeps_balloc_step [keeps_op]: "st K s \<Longrightarrow> ensures (of_ctl (st1 K) (st1 K)) (balloc_step a (x, s))"
  by (unfold balloc_step_def prod.case) (rule vc keeps_op | (simp add: keeps_simp; fail) | rule vc_any)+

lemma keeps_balloc [keeps_op]: "st K s \<Longrightarrow> ensures (st1 K) (balloc a s)"
  by (unfold balloc_def prod.case) (rule vc keeps_op | (simp add: keeps_simp; fail) | rule vc_any)+

lemma keeps_bfree [keeps_op]: "st K s \<Longrightarrow> ensures (st K) (bfree a b s)"
  by (unfold bfree_def prod.case) (rule vc keeps_op | (simp add: keeps_simp; fail) | rule vc_any)+

lemma keeps_iinit [keeps_op]: "st K s \<Longrightarrow> st K (iinit s)"
  by (simp add: keeps_simp iinit_def Let_def split: prod.splits option.splits)

lemma keeps_iget [keeps_op]: "st K s \<Longrightarrow> ensures (st1 K) (iget a b s)"
  by (unfold iget_def prod.case) (rule vc keeps_op | (simp add: keeps_simp; fail) | rule vc_any)+

lemma keeps_ialloc_step [keeps_op]: "st K s \<Longrightarrow> ensures (of_ctl (st1 K) (st1 K)) (ialloc_step a b (x, s))"
  by (unfold ialloc_step_def prod.case) (rule vc keeps_op | (simp add: keeps_simp; fail) | rule vc_any)+

lemma keeps_ialloc [keeps_op]: "st K s \<Longrightarrow> ensures (st1 K) (ialloc a b s)"
  by (unfold ialloc_def prod.case) (rule vc keeps_op | (simp add: keeps_simp; fail) | rule vc_any)+

lemma keeps_iupdate [keeps_op]: "st K s \<Longrightarrow> ensures (st K) (iupdate a s)"
  by (unfold iupdate_def prod.case) (rule vc keeps_op | (simp add: keeps_simp; fail) | rule vc_any)+

lemma keeps_idup [keeps_op]: "st K s \<Longrightarrow> st1 K (idup a s)"
  by (simp add: keeps_simp idup_def Let_def split: prod.splits option.splits)

lemma keeps_ilock [keeps_op]: "st K s \<Longrightarrow> ensures (st K) (ilock a s)"
  by (unfold ilock_def prod.case) (rule vc keeps_op | (simp add: keeps_simp; fail) | rule vc_any)+

lemma keeps_iunlock [keeps_op]: "st K s \<Longrightarrow> ensures (st K) (iunlock a s)"
  by (unfold iunlock_def prod.case) (rule vc keeps_op | (simp add: keeps_simp; fail) | rule vc_any)+

lemma keeps_bmap_indirect [keeps_op]: "st K s \<Longrightarrow> ensures (st1 K) (bmap_indirect a b d e s)"
  by (unfold bmap_indirect_def prod.case) (rule vc keeps_op | (simp add: keeps_simp; fail) | rule vc_any)+

lemma keeps_bmap [keeps_op]: "st K s \<Longrightarrow> ensures (st1 K) (bmap a b s)"
  by (unfold bmap_def prod.case) (rule vc keeps_op | (simp add: keeps_simp; fail) | rule vc_any)+

lemma keeps_free_listed [keeps_op]: "st K s \<Longrightarrow> ensures (st K) (free_listed a b s)"
  by (unfold free_listed_def prod.case) (rule vc keeps_op | (simp add: keeps_simp; fail) | rule vc_any)+

lemma keeps_itrunc [keeps_op]: "st K s \<Longrightarrow> ensures (st K) (itrunc a s)"
  by (unfold itrunc_def prod.case) (rule vc keeps_op | (simp add: keeps_simp; fail) | rule vc_any)+

lemma keeps_iput [keeps_op]: "st K s \<Longrightarrow> ensures (st K) (iput a s)"
  by (unfold iput_def prod.case) (rule vc keeps_op | (simp add: keeps_simp; fail) | rule vc_any)+

lemma keeps_iunlockput [keeps_op]: "st K s \<Longrightarrow> ensures (st K) (iunlockput a s)"
  by (unfold iunlockput_def prod.case) (rule vc keeps_op | (simp add: keeps_simp; fail) | rule vc_any)+

lemma keeps_readi_step [keeps_op]: "st K s \<Longrightarrow> ensures (of_ctl (st3 K) (st1 K)) (readi_step a b (x, y, z, s))"
  by (unfold readi_step_def prod.case) (rule vc keeps_op | (simp add: keeps_simp; fail) | rule vc_any)+

lemma keeps_readi [keeps_op]: "st K s \<Longrightarrow> ensures (st1 K) (readi a b d e s)"
  by (unfold readi_def prod.case) (rule vc keeps_op | (simp add: keeps_simp; fail) | rule vc_any)+

lemma keeps_writei_step [keeps_op]: "st K s \<Longrightarrow> ensures (of_ctl (st3 K) (st2 K)) (writei_step a b (x, y, z, s))"
  by (unfold writei_step_def prod.case) (rule vc keeps_op | (simp add: keeps_simp; fail) | rule vc_any)+

lemma keeps_writei [keeps_op]: "st K s \<Longrightarrow> ensures (st1 K) (writei a b d e s)"
  by (unfold writei_def prod.case) (rule vc keeps_op | (simp add: keeps_simp; fail) | rule vc_any)+

lemma keeps_dirlookup_step [keeps_op]: "st K s \<Longrightarrow> ensures (of_ctl (st1 K) (st1 K)) (dirlookup_step a b (x, s))"
  by (unfold dirlookup_step_def prod.case) (rule vc keeps_op | (simp add: keeps_simp; fail) | rule vc_any)+

lemma keeps_dirlookup [keeps_op]: "st K s \<Longrightarrow> ensures (st1 K) (dirlookup a b s)"
  by (unfold dirlookup_def prod.case) (rule vc keeps_op | (simp add: keeps_simp; fail) | rule vc_any)+

lemma keeps_dirlink_step [keeps_op]: "st K s \<Longrightarrow> ensures (of_ctl (st1 K) (st1 K)) (dirlink_step a (x, s))"
  by (unfold dirlink_step_def prod.case) (rule vc keeps_op | (simp add: keeps_simp; fail) | rule vc_any)+

lemma keeps_dirlink [keeps_op]: "st K s \<Longrightarrow> ensures (st1 K) (dirlink a b d s)"
  by (unfold dirlink_def prod.case) (rule vc keeps_op | (simp add: keeps_simp; fail) | rule vc_any)+

lemma keeps_namex_step [keeps_op]: "st K s \<Longrightarrow> ensures (of_ctl (st3 K) (st2 K)) (namex_step a (x, y, z, s))"
  by (unfold namex_step_def prod.case) (rule vc keeps_op | (simp add: keeps_simp; fail) | rule vc_any)+

lemma keeps_namex [keeps_op]: "st K s \<Longrightarrow> ensures (st2 K) (namex a b d s)"
  by (unfold namex_def prod.case) (rule vc keeps_op | (simp add: keeps_simp; fail) | rule vc_any)+

lemma keeps_namei [keeps_op]: "st K s \<Longrightarrow> ensures (st1 K) (namei a s)"
  by (unfold namei_def prod.case) (rule vc keeps_op | (simp add: keeps_simp; fail) | rule vc_any)+

lemma keeps_nameiparent [keeps_op]: "st K s \<Longrightarrow> ensures (st2 K) (nameiparent a b s)"
  by (unfold nameiparent_def prod.case) (rule vc keeps_op | (simp add: keeps_simp; fail) | rule vc_any)+

section \<open>Devices\<close>

lemmas keeps_dev_defs [keeps_simp] = WriteReg_def write_thr_def

lemma keeps_uartinit [keeps_op]: "st K s \<Longrightarrow> st K (uartinit s)"
  by (simp add: keeps_simp uartinit_def Let_def split: prod.splits option.splits)

lemma keeps_uartstart_step [keeps_op]: "st K s \<Longrightarrow> ensures (of_ctl (st K) (st K)) (uartstart_step s)"
  by (unfold uartstart_step_def prod.case) (rule vc keeps_op | (simp add: keeps_simp; fail) | rule vc_any)+

lemma keeps_uartstart [keeps_op]: "st K s \<Longrightarrow> ensures (st K) (uartstart s)"
  by (unfold uartstart_def prod.case) (rule vc keeps_op | (simp add: keeps_simp; fail) | rule vc_any)+

lemma keeps_uartputc [keeps_op]: "st K s \<Longrightarrow> ensures (st K) (uartputc a s)"
  by (unfold uartputc_def prod.case) (rule vc keeps_op | (simp add: keeps_simp; fail) | rule vc_any)+

lemma keeps_uartputc_sync [keeps_op]: "st K s \<Longrightarrow> ensures (st K) (uartputc_sync a s)"
  by (unfold uartputc_sync_def prod.case) (rule vc keeps_op | (simp add: keeps_simp; fail) | rule vc_any)+

lemma keeps_uartgetc [keeps_op]: "st K s \<Longrightarrow> st1 K (uartgetc s)"
  by (simp add: uartgetc_def split: list.splits)

lemma keeps_consputc [keeps_op]: "st K s \<Longrightarrow> ensures (st K) (consputc a s)"
  by (unfold consputc_def prod.case) (rule vc keeps_op | (simp add: keeps_simp; fail) | rule vc_any)+

lemma keeps_putchars [keeps_op]: "st K s \<Longrightarrow> ensures (st K) (putchars a s)"
  by (unfold putchars_def prod.case) (rule vc keeps_op | (simp add: keeps_simp; fail) | rule vc_any)+

lemma keeps_printint [keeps_op]: "st K s \<Longrightarrow> ensures (st K) (printint a b d s)"
  by (unfold printint_def prod.case) (rule vc keeps_op | (simp add: keeps_simp; fail) | rule vc_any)+

lemma keeps_printptr [keeps_op]: "st K s \<Longrightarrow> ensures (st K) (printptr a s)"
  by (unfold printptr_def prod.case) (rule vc keeps_op | (simp add: keeps_simp; fail) | rule vc_any)+

lemma keeps_printf_chars [keeps_op]: "st K s \<Longrightarrow> ensures (st K) (printf_chars a b s)"
proof (induction a arbitrary: b s rule: length_induct)
  case (1 fs)
  have IH: "st K s \<Longrightarrow> ensures (st K) (printf_chars gs ap s)" if "length gs < length fs" for gs ap and s :: "'a dev_state_scheme"
    using 1(1) that by blast
  show ?case
  proof (cases fs)
    case (Cons c fmt)
    show ?thesis
      unfolding Cons printf_chars.simps
      by (rule vc keeps_op IH ensures_case_list ensures_case_va | (simp add: Cons 1(2); fail))+
  qed (use 1 in simp)
qed

lemma keeps_printf [keeps_op]: "st K s \<Longrightarrow> ensures (st K) (printf a b s)"
  by (unfold printf_def prod.case) (rule vc keeps_op | (simp add: keeps_simp; fail) | rule vc_any)+

lemma keeps_consolewrite_step [keeps_op]: "st K s \<Longrightarrow> ensures (of_ctl (st1 K) (st1 K)) (consolewrite_step a b (x, s))"
  using keeps_uartputc[of s]
  by (unfold consolewrite_step_def prod.case)
    (rule vc | (simp; fail) | rule vc_any | (simp add: ensures_def split: res.split; fail))+

lemma keeps_consolewrite_from [keeps_op]: "st K s \<Longrightarrow> ensures (st1 K) (consolewrite_from a b d s)"
  by (unfold consolewrite_from_def prod.case) (rule vc keeps_op | (simp add: keeps_simp; fail) | rule vc_any)+

lemma keeps_consolewrite [keeps_op]: "st K s \<Longrightarrow> ensures (st1 K) (consolewrite a b s)"
  by (unfold consolewrite_def prod.case) (rule vc keeps_op | (simp add: keeps_simp; fail) | rule vc_any)+

lemma keeps_consoleread_step [keeps_op]: "st K s \<Longrightarrow> ensures (of_ctl (st2 K) (st1 K)) (consoleread_step a (x, y, s))"
  by (unfold consoleread_step_def prod.case) (rule vc keeps_op | (simp add: keeps_simp; fail) | rule vc_any)+

lemma keeps_consoleread_from [keeps_op]: "st K s \<Longrightarrow> ensures (st1 K) (consoleread_from a b d s)"
  by (unfold consoleread_from_def prod.case) (rule vc keeps_op | (simp add: keeps_simp; fail) | rule vc_any)+

lemma keeps_consoleread [keeps_op]: "st K s \<Longrightarrow> ensures (st1 K) (consoleread a b s)"
  by (unfold consoleread_def prod.case) (rule vc keeps_op | (simp add: keeps_simp; fail) | rule vc_any)+

lemma keeps_procdump [keeps_op]: "st K s \<Longrightarrow> ensures (st K) (procdump s)"
  by (unfold procdump_def prod.case) (rule vc keeps_op | (simp add: keeps_simp; fail) | rule vc_any)+

lemma keeps_kill_line_step [keeps_op]: "st K s \<Longrightarrow> ensures (of_ctl (st K) (st K)) (kill_line_step s)"
  by (unfold kill_line_step_def prod.case) (rule vc keeps_op | (simp add: keeps_simp; fail) | rule vc_any)+

lemma keeps_consoleintr [keeps_op]: "st K s \<Longrightarrow> ensures (st K) (consoleintr a s)"
  by (unfold consoleintr_def prod.case) (rule vc keeps_op | (simp add: keeps_simp; fail) | rule vc_any)+

lemma keeps_uartintr_step [keeps_op]: "st K s \<Longrightarrow> ensures (of_ctl (st K) (st K)) (uartintr_step s)"
  by (unfold uartintr_step_def prod.case) (rule vc keeps_op | (simp add: keeps_simp; fail) | rule vc_any)+

lemma keeps_uartintr [keeps_op]: "st K s \<Longrightarrow> ensures (st K) (uartintr s)"
  by (unfold uartintr_def prod.case) (rule vc keeps_op | (simp add: keeps_simp; fail) | rule vc_any)+

lemma keeps_consoleinit [keeps_op]: "st K s \<Longrightarrow> st K (consoleinit s)"
  using keeps_uartinit[of s] by (simp add: consoleinit_def)

lemma keeps_clockintr [keeps_op]: "st K s \<Longrightarrow> st K (clockintr s)"
  by (simp add: keeps_simp clockintr_def Let_def split: prod.splits option.splits)

section \<open>Files and pipes\<close>

lemmas keeps_file_defs [keeps_simp] = upd_file_def upd_pipe_def

lemma keeps_pipeclose [keeps_op]: "st K s \<Longrightarrow> ensures (st K) (pipeclose a b s)"
  by (unfold pipeclose_def prod.case) (rule vc keeps_op | (simp add: keeps_simp; fail) | rule vc_any)+

lemma keeps_pipewrite_step [keeps_op]: "st K s \<Longrightarrow> ensures (of_ctl (st1 K) (st1 K)) (pipewrite_step a b d (x, s))"
  by (unfold pipewrite_step_def prod.case) (rule vc keeps_op | (simp add: keeps_simp; fail) | rule vc_any)+

lemma keeps_pipewrite_from [keeps_op]: "st K s \<Longrightarrow> ensures (st1 K) (pipewrite_from a b d e s)"
  by (unfold pipewrite_from_def prod.case) (rule vc keeps_op | (simp add: keeps_simp; fail) | rule vc_any)+

lemma keeps_pipewrite [keeps_op]: "st K s \<Longrightarrow> ensures (st1 K) (pipewrite a b d s)"
  by (unfold pipewrite_def prod.case) (rule vc keeps_op | (simp add: keeps_simp; fail) | rule vc_any)+

lemma keeps_piperead_step [keeps_op]: "st K s \<Longrightarrow> ensures (of_ctl (st1 K) (st1 K)) (piperead_step a b d (x, s))"
  by (unfold piperead_step_def prod.case) (rule vc keeps_op | (simp add: keeps_simp; fail) | rule vc_any)+

lemma keeps_piperead [keeps_op]: "st K s \<Longrightarrow> ensures (st1 K) (piperead a b d s)"
  by (unfold piperead_def prod.case) (rule vc keeps_op | (simp add: keeps_simp; fail) | rule vc_any)+

lemma keeps_filealloc [keeps_op]: "st K s \<Longrightarrow> st1 K (filealloc s)"
  by (simp add: keeps_simp filealloc_def Let_def split: prod.splits option.splits)

lemma keeps_filedup [keeps_op]: "st K s \<Longrightarrow> ensures (st K) (filedup a s)"
  by (unfold filedup_def prod.case) (rule vc keeps_op | (simp add: keeps_simp; fail) | rule vc_any)+

lemma keeps_fileclose [keeps_op]: "st K s \<Longrightarrow> ensures (st K) (fileclose a s)"
  by (unfold fileclose_def prod.case) (rule vc keeps_op | (simp add: keeps_simp; fail) | rule vc_any)+

lemma keeps_pipealloc [keeps_op]: "st K s \<Longrightarrow> ensures (st1 K) (pipealloc s)"
  by (unfold pipealloc_def prod.case) (rule vc keeps_op | (simp add: keeps_simp; fail) | rule vc_any)+

lemma keeps_filestat [keeps_op]: "st K s \<Longrightarrow> ensures (st1 K) (filestat a b s)"
  by (unfold filestat_def prod.case) (rule vc keeps_op | (simp add: keeps_simp; fail) | rule vc_any)+

lemma keeps_fileread [keeps_op]: "st K s \<Longrightarrow> ensures (st1 K) (fileread a b d s)"
  by (unfold fileread_def prod.case, rule vc_any)
    (rule vc keeps_op case_ftype | (simp add: keeps_simp; fail) | rule vc_any)+

lemma keeps_filewrite_step [keeps_op]: "st K s \<Longrightarrow> ensures (of_ctl (st1 K) (st1 K)) (filewrite_step a b d (x, s))"
  by (unfold filewrite_step_def prod.case) (rule vc keeps_op | (simp add: keeps_simp; fail) | rule vc_any)+

lemma keeps_filewrite [keeps_op]: "st K s \<Longrightarrow> ensures (st1 K) (filewrite a b d s)"
  by (unfold filewrite_def prod.case, rule vc_any)
    (rule vc keeps_op case_ftype | (simp add: keeps_simp; fail) | rule vc_any)+

section \<open>Memory of the running process\<close>

lemmas keeps_proc_defs [keeps_simp] = tf_set_def setkilled_def

lemma keeps_growproc [keeps_op]: "st K s \<Longrightarrow> ensures (st1 K) (growproc a s)"
  by (unfold growproc_def prod.case) (rule vc keeps_op | (simp add: keeps_simp; fail) | rule vc_any)+

section \<open>Program loading\<close>

lemma keeps_loadseg_step [keeps_op]: "st K s \<Longrightarrow> ensures (of_ctl (st1 K) (st1 K)) (loadseg_step a b d e g (x, s))"
  by (unfold loadseg_step_def prod.case) (rule vc keeps_op | (simp add: keeps_simp; fail) | rule vc_any)+

lemma keeps_loadseg [keeps_op]: "st K s \<Longrightarrow> ensures (st1 K) (loadseg a b d e g s)"
  by (unfold loadseg_def prod.case) (rule vc keeps_op | (simp add: keeps_simp; fail) | rule vc_any)+

lemma keeps_exec_load_step [keeps_op]: "st K s \<Longrightarrow> ensures (of_ctl (st3 K) (st2 K)) (exec_load_step a b d (x, y, z, s))"
  by (unfold exec_load_step_def prod.case) (rule vc keeps_op | (simp add: keeps_simp; fail) | rule vc_any)+

lemma keeps_exec_args_step [keeps_op]: "st K s \<Longrightarrow> ensures (of_ctl (st3 K) (st4 K)) (exec_args_step a b d (x, y, z, s))"
  by (unfold exec_args_step_def prod.case) (rule vc keeps_op | (simp add: keeps_simp; fail) | rule vc_any)+

lemma keeps_exec_bad [keeps_op]: "st K s \<Longrightarrow> ensures (st1 K) (exec_bad a b d s)"
  by (unfold exec_bad_def prod.case) (rule vc keeps_op | (simp add: keeps_simp; fail) | rule vc_any)+

lemma keeps_exec_stack [keeps_op]: "st K s \<Longrightarrow> ensures (st1 K) (exec_stack a b d e g s)"
  by (unfold exec_stack_def prod.case) (rule vc keeps_op | (simp add: keeps_simp; fail) | rule vc_any)+

lemma keeps_exec [keeps_op]: "st K s \<Longrightarrow> ensures (st1 K) (exec a b s)"
  by (unfold exec_def prod.case) (rule vc keeps_op | (simp add: keeps_simp; fail) | rule vc_any)+

section \<open>System calls\<close>

lemmas keeps_sys_defs [keeps_simp] = set_ofile_def upd_nlink_def ret_def

lemma keeps_fdalloc [keeps_op]: "st K s \<Longrightarrow> st1 K (fdalloc a s)"
  by (simp add: keeps_simp fdalloc_def Let_def split: prod.splits option.splits)

lemma keeps_sys_dup [keeps_op]: "st K s \<Longrightarrow> ensures (st1 K) (sys_dup s)"
  by (unfold sys_dup_def prod.case) (rule vc keeps_op | (simp add: keeps_simp; fail) | rule vc_any)+

lemma keeps_sys_read [keeps_op]: "st K s \<Longrightarrow> ensures (st1 K) (sys_read s)"
  by (unfold sys_read_def prod.case) (rule vc keeps_op | (simp add: keeps_simp; fail) | rule vc_any)+

lemma keeps_sys_write [keeps_op]: "st K s \<Longrightarrow> ensures (st1 K) (sys_write s)"
  by (unfold sys_write_def prod.case) (rule vc keeps_op | (simp add: keeps_simp; fail) | rule vc_any)+

lemma keeps_sys_close [keeps_op]: "st K s \<Longrightarrow> ensures (st1 K) (sys_close s)"
  by (unfold sys_close_def prod.case) (rule vc keeps_op | (simp add: keeps_simp; fail) | rule vc_any)+

lemma keeps_sys_fstat [keeps_op]: "st K s \<Longrightarrow> ensures (st1 K) (sys_fstat s)"
  by (unfold sys_fstat_def prod.case) (rule vc keeps_op | (simp add: keeps_simp; fail) | rule vc_any)+

lemma keeps_end_ret [keeps_op]: "st K s \<Longrightarrow> ensures (st1 K) (end_ret a s)"
  by (unfold end_ret_def prod.case) (rule vc keeps_op | (simp add: keeps_simp; fail) | rule vc_any)+

lemma keeps_link_bad [keeps_op]: "st K s \<Longrightarrow> ensures (st1 K) (link_bad a s)"
  by (unfold link_bad_def prod.case) (rule vc keeps_op | (simp add: keeps_simp; fail) | rule vc_any)+

lemma keeps_sys_link [keeps_op]: "st K s \<Longrightarrow> ensures (st1 K) (sys_link s)"
  by (unfold sys_link_def prod.case) (rule vc keeps_op | (simp add: keeps_simp; fail) | rule vc_any)+

lemma keeps_isdirempty_step [keeps_op]: "st K s \<Longrightarrow> ensures (of_ctl (st1 K) (st1 K)) (isdirempty_step a (x, s))"
  by (unfold isdirempty_step_def prod.case) (rule vc keeps_op | (simp add: keeps_simp; fail) | rule vc_any)+

lemma keeps_isdirempty [keeps_op]: "st K s \<Longrightarrow> ensures (st1 K) (isdirempty a s)"
  by (unfold isdirempty_def prod.case) (rule vc keeps_op | (simp add: keeps_simp; fail) | rule vc_any)+

lemma keeps_unlink_bad [keeps_op]: "st K s \<Longrightarrow> ensures (st1 K) (unlink_bad a s)"
  by (unfold unlink_bad_def prod.case) (rule vc keeps_op | (simp add: keeps_simp; fail) | rule vc_any)+

lemma keeps_sys_unlink [keeps_op]: "st K s \<Longrightarrow> ensures (st1 K) (sys_unlink s)"
  by (unfold sys_unlink_def prod.case) (rule vc keeps_op | (simp add: keeps_simp; fail) | rule vc_any)+

lemma keeps_create_fail [keeps_op]: "st K s \<Longrightarrow> ensures (st1 K) (create_fail a b s)"
  by (unfold create_fail_def prod.case) (rule vc keeps_op | (simp add: keeps_simp; fail) | rule vc_any)+

lemma keeps_create [keeps_op]: "st K s \<Longrightarrow> ensures (st1 K) (create a b d e s)"
  by (unfold create_def prod.case) (rule vc keeps_op | (simp add: keeps_simp; fail) | rule vc_any)+

lemma keeps_open_fail [keeps_op]: "st K s \<Longrightarrow> ensures (st1 K) (open_fail a s)"
  by (unfold open_fail_def prod.case) (rule vc keeps_op | (simp add: keeps_simp; fail) | rule vc_any)+

lemma keeps_open_inode [keeps_op]: "st K s \<Longrightarrow> ensures (st1 K) (open_inode a b s)"
  by (unfold open_inode_def prod.case) (rule vc keeps_op | (simp add: keeps_simp; fail) | rule vc_any)+

lemma keeps_sys_open [keeps_op]: "st K s \<Longrightarrow> ensures (st1 K) (sys_open s)"
  by (unfold sys_open_def prod.case) (rule vc keeps_op | (simp add: keeps_simp; fail) | rule vc_any)+

lemma keeps_sys_mkdir [keeps_op]: "st K s \<Longrightarrow> ensures (st1 K) (sys_mkdir s)"
  by (unfold sys_mkdir_def prod.case) (rule vc keeps_op | (simp add: keeps_simp; fail) | rule vc_any)+

lemma keeps_sys_mknod [keeps_op]: "st K s \<Longrightarrow> ensures (st1 K) (sys_mknod s)"
  by (unfold sys_mknod_def prod.case) (rule vc keeps_op | (simp add: keeps_simp; fail) | rule vc_any)+

lemma keeps_sys_chdir [keeps_op]: "st K s \<Longrightarrow> ensures (st1 K) (sys_chdir s)"
  by (unfold sys_chdir_def prod.case) (rule vc keeps_op | (simp add: keeps_simp; fail) | rule vc_any)+

lemma keeps_sys_exec_step [keeps_op]: "st K s \<Longrightarrow> ensures (of_ctl (st2 K) (st2 K)) (sys_exec_step a (x, y, s))"
  by (unfold sys_exec_step_def prod.case) (rule vc keeps_op | (simp add: keeps_simp; fail) | rule vc_any)+

lemma keeps_free_argv [keeps_op]: "st K s \<Longrightarrow> ensures (st K) (free_argv a s)"
  by (unfold free_argv_def prod.case) (rule vc keeps_op | (simp add: keeps_simp; fail) | rule vc_any)+

lemma keeps_sys_exec [keeps_op]: "st K s \<Longrightarrow> ensures (st1 K) (sys_exec s)"
  by (unfold sys_exec_def prod.case) (rule vc keeps_op | (simp add: keeps_simp; fail) | rule vc_any)+

lemma keeps_sys_pipe [keeps_op]: "st K s \<Longrightarrow> ensures (st1 K) (sys_pipe s)"
  by (unfold sys_pipe_def Let_def prod.case) (rule vc keeps_op | (simp add: keeps_simp; fail) | rule vc_any)+

lemma keeps_sys_getpid [keeps_op]: "st K s \<Longrightarrow> ensures (st1 K) (sys_getpid s)"
  by (unfold sys_getpid_def prod.case) (rule vc keeps_op | (simp add: keeps_simp; fail) | rule vc_any)+

lemma keeps_sys_sbrk [keeps_op]: "st K s \<Longrightarrow> ensures (st1 K) (sys_sbrk s)"
  by (unfold sys_sbrk_def prod.case) (rule vc keeps_op | (simp add: keeps_simp; fail) | rule vc_any)+

lemma keeps_sys_sleep_from [keeps_op]: "st K s \<Longrightarrow> ensures (st1 K) (sys_sleep_from a s)"
  by (unfold sys_sleep_from_def prod.case) (rule vc keeps_op | (simp add: keeps_simp; fail) | rule vc_any)+

lemma keeps_sys_sleep [keeps_op]: "st K s \<Longrightarrow> ensures (st1 K) (sys_sleep s)"
  by (unfold sys_sleep_def prod.case) (rule vc keeps_op | (simp add: keeps_simp; fail) | rule vc_any)+

lemma keeps_sys_uptime [keeps_op]: "st K s \<Longrightarrow> ensures (st1 K) (sys_uptime s)"
  by (unfold sys_uptime_def prod.case) (rule vc keeps_op | (simp add: keeps_simp; fail) | rule vc_any)+

lemma keeps_dup_files [keeps_op]: "st K s \<Longrightarrow> ensures (st K) (dup_files a b s)"
  by (unfold dup_files_def) (rule vc keeps_op | (simp add: keeps_simp; fail) | rule vc_any)+

lemma keeps_close_files [keeps_op]: "st K s \<Longrightarrow> ensures (st K) (close_files a s)"
  by (unfold close_files_def) (rule vc keeps_op | (simp add: keeps_simp; fail) | rule vc_any)+

section \<open>Interrupts\<close>

lemmas keeps_trap_defs [keeps_simp] = plic_write_def plic_complete_def

lemma keeps_disk_intr_step [keeps_op]: "st K s \<Longrightarrow> ensures (of_ctl (st1 K) (st1 K)) (disk_intr_step (x, s))"
  by (unfold disk_intr_step_def prod.case) (rule vc keeps_op | (simp add: keeps_simp; fail) | rule vc_any)+

lemma keeps_virtio_disk_intr [keeps_op]: "st K s \<Longrightarrow> ensures (st1 K) (virtio_disk_intr (x, s))"
  by (unfold virtio_disk_intr_def prod.case) (rule vc keeps_op | (simp add: keeps_simp; fail) | rule vc_any)+

lemma keeps_disk_intr [keeps_op]: "st K s \<Longrightarrow> ensures (st K) (disk_intr s)"
  by (unfold disk_intr_def) (rule vc keeps_op | (simp add: keeps_simp; fail) | rule vc_any)+

lemma keeps_devintr [keeps_op]: "st K s \<Longrightarrow> ensures (st1 K) (devintr r s)"
  by (unfold devintr_def) (rule vc keeps_op | (simp add: keeps_simp clockintr_def; fail) | rule vc_any)+

lemma keeps_usertrapret [keeps_op]: "st K s \<Longrightarrow> st1 K (usertrapret r s)"
  by (simp add: usertrapret_def Let_def keeps_simp)

end

end
