(* ===== verification/Lifecycle.thy ===== *)
theory Lifecycle
  imports ProcFrame
begin

text \<open>
  The life cycle of processes, abstractly: a transition system on the process table, the running
  process (\<open>NPROC\<close> for none), the process counter and the first process, with one rule per thing
  the kernel may do to them. The theory \<open>ProcInv\<close> shows that every step of the kernel is a
  sequence of these transitions; here are the invariants they keep.
\<close>

type_synonym ptab = "(nat \<Rightarrow> proc) \<times> nat \<times> int \<times> nat option"

abbreviation (input) ptab_of :: "'a kcore_scheme \<Rightarrow> ptab" where
  "ptab_of s \<equiv> (procs s, curp s, nextpid s, initproc s)"

text \<open>A process that has run or may run and has not exited.\<close>

definition alive :: "procstate \<Rightarrow> bool" where
  "alive x \<longleftrightarrow> x \<in> {SLEEPING, RUNNABLE, RUNNING}"

lemma alive_simps [simp]:
  "alive SLEEPING" "alive RUNNABLE" "alive RUNNING" "\<not> alive UNUSED" "\<not> alive USED" "\<not> alive ZOMBIE"
  by (simp_all add: alive_def)

inductive ptrans :: "ptab \<Rightarrow> ptab \<Rightarrow> bool" where
  wake: "ptrans (ps, cur, n, i) (wake c cur ps, cur, n, i)"
| fields: "same_id x (ps p) \<Longrightarrow> ptrans (ps, cur, n, i) (ps(p := x), cur, n, i)"
| alloc: "p < NPROC \<Longrightarrow> p_state (ps p) = UNUSED \<Longrightarrow> p_state x = USED \<Longrightarrow> p_pid x = n \<Longrightarrow>
    p_parent x = p_parent (ps p) \<Longrightarrow> ptrans (ps, cur, n, i) (ps(p := x), cur, n + 1, i)"
| free: "p < NPROC \<Longrightarrow> p_state (ps p) \<in> {USED, ZOMBIE} \<Longrightarrow> p_state x = UNUSED \<Longrightarrow> p_pid x = 0 \<Longrightarrow>
    p_parent x = None \<Longrightarrow> ptrans (ps, cur, n, i) (ps(p := x), cur, n, i)"
| start: "p < NPROC \<Longrightarrow> p_state (ps p) = USED \<Longrightarrow> p_state x = RUNNABLE \<Longrightarrow> p_pid x = p_pid (ps p) \<Longrightarrow>
    cur < NPROC \<Longrightarrow> p_parent x = Some cur \<Longrightarrow> ptrans (ps, cur, n, i) (ps(p := x), cur, n, i)"
| first: "p < NPROC \<Longrightarrow> p_state (ps p) = USED \<Longrightarrow> p_state x = RUNNABLE \<Longrightarrow> p_pid x = p_pid (ps p) \<Longrightarrow>
    p_parent x = p_parent (ps p) \<Longrightarrow> i = None \<Longrightarrow> ptrans (ps, cur, n, i) (ps(p := x), cur, n, Some p)"
| rouse: "p_state (ps p) = SLEEPING \<Longrightarrow> p_state x = RUNNABLE \<Longrightarrow> p_pid x = p_pid (ps p) \<Longrightarrow>
    p_parent x = p_parent (ps p) \<Longrightarrow> ptrans (ps, cur, n, i) (ps(p := x), cur, n, i)"
| unchan: "ptrans (ps, cur, n, i) (ps(cur := (ps cur)\<lparr>p_chan := None\<rparr>), cur, n, i)"
| leave: "cur < NPROC \<Longrightarrow> p_state x \<in> {RUNNABLE, SLEEPING} \<Longrightarrow> p_pid x = p_pid (ps cur) \<Longrightarrow>
    p_parent x = p_parent (ps cur) \<Longrightarrow> ptrans (ps, cur, n, i) (ps(cur := x), NPROC, n, i)"
| die: "cur < NPROC \<Longrightarrow> i \<noteq> Some cur \<Longrightarrow> p_state x = ZOMBIE \<Longrightarrow> p_pid x = p_pid (ps cur) \<Longrightarrow>
    p_parent x = p_parent (ps cur) \<Longrightarrow>
    \<forall>j < NPROC. p_parent (ps j) \<noteq> Some cur \<Longrightarrow> ptrans (ps, cur, n, i) (ps(cur := x), NPROC, n, i)"
| adopted: "p < NPROC \<Longrightarrow> cur < NPROC \<Longrightarrow> i \<noteq> Some cur \<Longrightarrow> p_parent (ps p) = Some cur \<Longrightarrow>
    ptrans (ps, cur, n, i) (ps(p := (ps p)\<lparr>p_parent := i\<rparr>), cur, n, i)"

text \<open>The scheduler gives the CPU to a runnable process.\<close>

inductive pswitch :: "ptab \<Rightarrow> ptab \<Rightarrow> bool" where
  enter: "p < NPROC \<Longrightarrow> p_state (ps p) = RUNNABLE \<Longrightarrow> p_state x = RUNNING \<Longrightarrow> p_pid x = p_pid (ps p) \<Longrightarrow>
    p_parent x = p_parent (ps p) \<Longrightarrow> pswitch (ps, NPROC, n, i) (ps(p := x), p, n, i)"

text \<open>The invariant: the identifiers of processes are positive, different and below the counter;
  the running process is the one in state \<open>RUNNING\<close>; every process but the first has a parent
  that has not exited.\<close>

definition parent_ok :: "(nat \<Rightarrow> proc) \<Rightarrow> nat option \<Rightarrow> nat \<Rightarrow> bool" where
  "parent_ok ps i j \<longleftrightarrow> (case p_parent (ps j) of
      None \<Rightarrow> p_state (ps j) \<in> {UNUSED, USED} \<or> i = Some j
    | Some q \<Rightarrow> q < NPROC \<and> alive (p_state (ps q)) \<and> p_state (ps j) \<notin> {UNUSED, USED})"

definition ptable :: "(nat \<Rightarrow> proc) \<Rightarrow> nat \<Rightarrow> int \<Rightarrow> nat option \<Rightarrow> bool" where
  "ptable ps cur n i \<longleftrightarrow> 0 < n \<and> cur \<le> NPROC \<and>
    (\<forall>j < NPROC. 0 \<le> p_pid (ps j) \<and> p_pid (ps j) < n \<and> (p_pid (ps j) = 0 \<longleftrightarrow> p_state (ps j) = UNUSED)) \<and>
    (\<forall>j < NPROC. \<forall>k < NPROC. p_pid (ps j) = p_pid (ps k) \<longrightarrow> p_pid (ps j) = 0 \<or> j = k) \<and>
    (\<forall>j < NPROC. p_state (ps j) = RUNNING \<longleftrightarrow> j = cur) \<and>
    (\<forall>j < NPROC. parent_ok ps i j) \<and>
    (case i of None \<Rightarrow> \<forall>j < NPROC. p_state (ps j) \<in> {UNUSED, USED}
      | Some q \<Rightarrow> q < NPROC \<and> alive (p_state (ps q)))"

lemma ptableD:
  assumes "ptable ps cur n i" "j < NPROC"
  shows ptable_pid: "0 \<le> p_pid (ps j)" "p_pid (ps j) < n" "p_pid (ps j) = 0 \<longleftrightarrow> p_state (ps j) = UNUSED"
    and ptable_distinct: "k < NPROC \<Longrightarrow> p_pid (ps j) = p_pid (ps k) \<Longrightarrow> p_pid (ps j) = 0 \<or> j = k"
    and ptable_running: "p_state (ps j) = RUNNING \<longleftrightarrow> j = cur"
    and ptable_parent: "parent_ok ps i j"
  using assms unfolding ptable_def by blast+

lemma ptable_init:
  assumes "ptable ps cur n i"
  shows "0 < n" "cur \<le> NPROC" "i = Some q \<Longrightarrow> q < NPROC \<and> alive (p_state (ps q))"
    "i = None \<Longrightarrow> j < NPROC \<Longrightarrow> p_state (ps j) \<in> {UNUSED, USED}"
  using assms unfolding ptable_def by auto

text \<open>One slot of the table changes, and with it the running process, the counter and the first
  process.\<close>

lemma ptable_upd:
  assumes t: "ptable ps cur n i" and p: "p < NPROC"
    and pid: "p_pid x \<in> {0, p_pid (ps p)} \<and> n' = n \<or> p_pid x = n \<and> n' = n + 1"
      "p_pid x = 0 \<longleftrightarrow> p_state x = UNUSED"
    and run: "cur' \<le> NPROC" "p_state x = RUNNING \<longleftrightarrow> p = cur'" "\<And>j. j < NPROC \<Longrightarrow> j \<noteq> p \<Longrightarrow> j = cur \<longleftrightarrow> j = cur'"
    and par: "parent_ok (ps(p := x)) i' p"
    and alive: "alive (p_state x) \<or> (\<forall>j < NPROC. j \<noteq> p \<longrightarrow> p_parent (ps j) \<noteq> Some p)"
    and init: "i' = i \<and> (i = Some p \<longrightarrow> alive (p_state x)) \<and> (i = None \<longrightarrow> p_state x \<in> {UNUSED, USED}) \<or>
      i = None \<and> i' = Some p \<and> alive (p_state x)"
  shows "ptable (ps(p := x)) cur' n' i'"
  unfolding ptable_def
proof (intro conjI allI impI)
  note pids = ptable_pid[OF t] and dist = ptable_distinct[OF t] and n = ptable_init(1)[OF t]
    and cur = ptable_running[OF t] and parent = ptable_parent[OF t] and i = ptable_init(3,4)[OF t]
  show "0 < n'" using n pid by auto
  show "cur' \<le> NPROC" by fact
  fix j k assume j: "j < NPROC"
  show "0 \<le> p_pid ((ps(p := x)) j)" "p_pid ((ps(p := x)) j) < n'"
    "p_pid ((ps(p := x)) j) = 0 \<longleftrightarrow> p_state ((ps(p := x)) j) = UNUSED"
    using pids[OF j] pids[OF p] n pid by (auto split: if_splits)
  show "p_state ((ps(p := x)) j) = RUNNING \<longleftrightarrow> j = cur'"
    using cur[OF j] run j by (cases "j = p") auto
  show "parent_ok (ps(p := x)) i' j"
  proof (cases "j = p")
    case False
    then show ?thesis using parent[OF j] alive init i(2)[OF _ j] j by (auto simp: parent_ok_def split: option.splits)
  qed (use par in simp)
  show "p_pid ((ps(p := x)) j) = 0 \<or> j = k" if "k < NPROC" "p_pid ((ps(p := x)) j) = p_pid ((ps(p := x)) k)"
    using dist[OF j that(1)] dist[OF p that(1)] dist[OF p j] that(2) pid pids(2)[OF j] pids(2)[OF that(1)]
    by (auto split: if_splits)
next
  show "case i' of None \<Rightarrow> \<forall>j < NPROC. p_state ((ps(p := x)) j) \<in> {UNUSED, USED}
      | Some q \<Rightarrow> q < NPROC \<and> alive (p_state ((ps(p := x)) q))"
    using t init p unfolding ptable_def by (auto split: option.splits)
qed

text \<open>A process that is not alive has no children and is not the first one.\<close>

lemma ptable_childless:
  assumes "ptable ps cur n i" "\<not> alive (p_state (ps p))"
  shows "j < NPROC \<Longrightarrow> p_parent (ps j) \<noteq> Some p" "i \<noteq> Some p"
  using ptable_parent[OF assms(1), of j] ptable_init(3)[OF assms(1)] assms(2) by (auto simp: parent_ok_def)

lemma ptable_cong:
  assumes t: "ptable ps cur n i"
    and same: "\<And>j. j < NPROC \<Longrightarrow> p_pid (ps' j) = p_pid (ps j) \<and> p_parent (ps' j) = p_parent (ps j) \<and>
      (p_state (ps' j) = p_state (ps j) \<or> p_state (ps j) = SLEEPING \<and> p_state (ps' j) = RUNNABLE)"
  shows "ptable ps' cur n i"
  unfolding ptable_def
proof (intro conjI allI impI)
  have alive: "alive (p_state (ps' j)) = alive (p_state (ps j))" "p_state (ps' j) = UNUSED \<longleftrightarrow> p_state (ps j) = UNUSED"
    "p_state (ps' j) = USED \<longleftrightarrow> p_state (ps j) = USED" "p_state (ps' j) = RUNNING \<longleftrightarrow> p_state (ps j) = RUNNING"
    if "j < NPROC" for j
    using same[OF that] by (auto simp: alive_def)
  show "0 < n" "cur \<le> NPROC" using ptable_init[OF t] by auto
  show "case i of None \<Rightarrow> \<forall>j < NPROC. p_state (ps' j) \<in> {UNUSED, USED}
      | Some q \<Rightarrow> q < NPROC \<and> alive (p_state (ps' q))"
    using ptable_init(3,4)[OF t] alive by (cases i) auto
  fix j k assume j: "j < NPROC"
  show "0 \<le> p_pid (ps' j)" "p_pid (ps' j) < n" "p_pid (ps' j) = 0 \<longleftrightarrow> p_state (ps' j) = UNUSED"
    "p_state (ps' j) = RUNNING \<longleftrightarrow> j = cur"
    using ptable_pid[OF t j] ptable_running[OF t j] same[OF j] alive[OF j] by simp_all
  show "parent_ok ps' i j"
    using ptable_parent[OF t j] same[OF j] alive alive[OF j] by (cases "p_parent (ps j)") (simp_all add: parent_ok_def)
  show "p_pid (ps' j) = 0 \<or> j = k" if "k < NPROC" "p_pid (ps' j) = p_pid (ps' k)"
    using ptable_distinct[OF t j that(1)] that same[OF j] same[OF that(1)] by simp
qed

text \<open>The update of one slot, with what the invariant says of it.\<close>

lemma ptable_slot:
  assumes t: "ptable ps cur n i" and p: "p < NPROC"
    and upd: "\<lbrakk>p_pid (ps p) = 0 \<longleftrightarrow> p_state (ps p) = UNUSED; p_state (ps p) = RUNNING \<longleftrightarrow> p = cur; parent_ok ps i p;
        \<not> alive (p_state (ps p)) \<Longrightarrow> i \<noteq> Some p; i = None \<Longrightarrow> p_state (ps p) \<in> {UNUSED, USED}; 0 < n\<rbrakk> \<Longrightarrow>
      (p_pid x \<in> {0, p_pid (ps p)} \<and> n' = n \<or> p_pid x = n \<and> n' = n + 1) \<and> (p_pid x = 0 \<longleftrightarrow> p_state x = UNUSED) \<and>
      (cur' = cur \<or> cur' = p \<and> cur = NPROC \<or> cur' = NPROC \<and> cur = p) \<and> (p_state x = RUNNING \<longleftrightarrow> p = cur') \<and>
      parent_ok (ps(p := x)) i' p \<and>
      (alive (p_state x) \<or> \<not> alive (p_state (ps p)) \<or> (\<forall>j < NPROC. p_parent (ps j) \<noteq> Some p)) \<and>
      (i' = i \<and> (i = Some p \<longrightarrow> alive (p_state x)) \<and> (i = None \<longrightarrow> p_state x \<in> {UNUSED, USED}) \<or>
        i = None \<and> i' = Some p \<and> alive (p_state x))"
  shows "ptable (ps(p := x)) cur' n' i'"
proof -
  note * = upd[OF ptable_pid(3)[OF t p] ptable_running[OF t p] ptable_parent[OF t p]
      ptable_childless(2)[OF t] ptable_init(4)[OF t _ p] ptable_init(1)[OF t]]
  show ?thesis
  proof (rule ptable_upd[OF t p])
    show "cur' \<le> NPROC" "j < NPROC \<Longrightarrow> j \<noteq> p \<Longrightarrow> j = cur \<longleftrightarrow> j = cur'" for j
      using * ptable_init(2)[OF t] p by auto
    show "alive (p_state x) \<or> (\<forall>j < NPROC. j \<noteq> p \<longrightarrow> p_parent (ps j) \<noteq> Some p)"
      using * ptable_childless(1)[OF t, of p] by blast
  qed (use * in blast)+
qed

lemma ptrans_ptable:
  assumes "ptrans (ps, cur, n, i) (ps', cur', n', i')" and t: "ptable ps cur n i"
  shows "ptable ps' cur' n' i'"
  using assms(1)
proof cases
  case (wake c)
  show ?thesis unfolding wake using t by (rule ptable_cong) (simp add: wake_def)
next
  case (fields x p)
  show ?thesis unfolding fields using t by (rule ptable_cong) (use fields in \<open>simp add: same_id_def\<close>)
next
  case (alloc p x)
  show ?thesis unfolding alloc
    by (rule ptable_slot[OF t]) (use alloc in \<open>auto simp: parent_ok_def split: option.splits\<close>)
next
  case (free p x)
  show ?thesis unfolding free
    by (rule ptable_slot[OF t]) (use free in \<open>auto simp: parent_ok_def split: option.splits\<close>)
next
  case (start p x)
  show ?thesis unfolding start
    by (rule ptable_slot[OF t]) (use start ptable_running[OF t, of cur] ptable_init(4)[OF t, of cur] in \<open>auto simp: parent_ok_def split: option.splits\<close>)
next
  case (first p x)
  show ?thesis unfolding first
    by (rule ptable_slot[OF t]) (use first in \<open>auto simp: parent_ok_def split: option.splits\<close>)
next
  case (rouse p x)
  show ?thesis unfolding rouse using t by (rule ptable_cong) (use rouse in simp)
next
  case unchan
  show ?thesis unfolding unchan using t by (rule ptable_cong) (use unchan in simp)
next
  case (leave x)
  show ?thesis unfolding leave
    by (rule ptable_slot[OF t]) (use leave in \<open>auto simp: parent_ok_def split: option.splits\<close>)
next
  case (die x)
  show ?thesis unfolding die
    by (rule ptable_slot[OF t]) (use die in \<open>auto simp: parent_ok_def split: option.splits\<close>)
next
  case (adopted p)
  obtain q where "i = Some q" "q < NPROC" "alive (p_state (ps q))"
    using ptable_init(3)[OF t] ptable_init(4)[OF t _ adopted(6)] ptable_running[OF t adopted(6)] by (cases i) auto
  then show ?thesis unfolding adopted
    by (intro ptable_slot[OF t]) (use adopted in \<open>auto simp: parent_ok_def\<close>)
qed

lemma pswitch_ptable:
  assumes "pswitch (ps, cur, n, i) (ps', cur', n', i')" and t: "ptable ps cur n i"
  shows "ptable ps' cur' n' i'"
  using assms(1)
proof cases
  case (enter x)
  show ?thesis unfolding enter
    by (rule ptable_slot[OF t]) (use enter in \<open>auto simp: parent_ok_def split: option.splits\<close>)
qed

text \<open>A runnable process stays so until the scheduler runs it.\<close>

lemma ptrans_runnable:
  assumes "ptrans (ps, cur, n, i) (ps', cur', n', i')" "ptable ps cur n i"
    and "j < NPROC" "p_state (ps j) = RUNNABLE"
  shows "p_state (ps' j) = RUNNABLE"
  using assms(1) assms(3,4) ptable_running[OF assms(2,3)]
  by cases (auto simp: wake_def same_id_def)

section \<open>Sequences of transitions\<close>

definition becomes :: "ptab \<Rightarrow> (nat \<Rightarrow> proc) \<Rightarrow> nat \<Rightarrow> int \<Rightarrow> nat option \<Rightarrow> bool" where
  "becomes t ps cur n i \<longleftrightarrow> ptrans\<^sup>*\<^sup>* t (ps, cur, n, i)"

lemma becomes_refl [simp]: "becomes (ps, cur, n, i) ps cur n i"
  by (simp add: becomes_def)

lemma becomes_step: "becomes t ps cur n i \<Longrightarrow> ptrans (ps, cur, n, i) (ps', cur', n', i') \<Longrightarrow> becomes t ps' cur' n' i'"
  unfolding becomes_def by (rule rtranclp.rtrancl_into_rtrancl)

lemma becomes_trans:
  "becomes t ps cur n i \<Longrightarrow> becomes (ps, cur, n, i) ps' cur' n' i' \<Longrightarrow> becomes t ps' cur' n' i'"
  unfolding becomes_def by (rule rtranclp_trans)

lemma becomes_ptable:
  assumes "becomes (ps, cur, n, i) ps' cur' n' i'" "ptable ps cur n i"
  shows "ptable ps' cur' n' i' \<and> (\<forall>j < NPROC. p_state (ps j) = RUNNABLE \<longrightarrow> p_state (ps' j) = RUNNABLE)"
proof -
  have "case u of (ps', cur', n', i') \<Rightarrow> ptable ps' cur' n' i' \<and> (\<forall>j < NPROC. p_state (ps j) = RUNNABLE \<longrightarrow> p_state (ps' j) = RUNNABLE)"
    if "ptrans\<^sup>*\<^sup>* (ps, cur, n, i) u" for u
    using that
  proof (induction rule: rtranclp_induct)
    case (step y z)
    obtain ps1 cur1 n1 i1 ps2 cur2 n2 i2 where yz: "y = (ps1, cur1, n1, i1)" "z = (ps2, cur2, n2, i2)"
      by (cases y, cases z)
    show ?case
      using step ptrans_ptable[of ps1 cur1 n1 i1 ps2 cur2 n2 i2] ptrans_runnable[of ps1 cur1 n1 i1 ps2 cur2 n2 i2]
      by (simp add: yz)
  qed (use assms(2) in simp)
  from this[of "(ps', cur', n', i')"] show ?thesis using assms(1) by (simp add: becomes_def)
qed

text \<open>The contract of the operations that do not create, switch or end processes: the running
  process and the first one stay, and so do the processes \<open>U\<close> that are being created or freed.\<close>

definition at_work :: "ptab \<Rightarrow> nat \<Rightarrow> nat option \<Rightarrow> (nat \<times> procstate) set \<Rightarrow> (nat \<Rightarrow> proc) \<Rightarrow> nat \<Rightarrow> int \<Rightarrow> nat option \<Rightarrow> bool" where
  "at_work t c i0 U ps cur n i \<longleftrightarrow> becomes t ps cur n i \<and> cur = c \<and> i = i0 \<and>
    (\<forall>(u, w) \<in> U. w \<noteq> SLEEPING \<and> p_state (ps u) = w)"

interpretation aw: process_contract "at_work t c i0 U" for t c i0 U
proof unfold_locales
  fix ps cur n i ch
  assume "at_work t c i0 U ps cur n i"
  then show "at_work t c i0 U (wake ch cur ps) cur n i"
    using becomes_step[OF _ ptrans.wake, of t ps cur n i ch] unfolding at_work_def
    by (elim conjE, intro conjI) (auto simp: wake_def)
next
  fix ps cur n i x p
  assume "at_work t c i0 U ps cur n i" "same_id x (ps p)"
  then show "at_work t c i0 U (ps(p := x)) cur n i"
    using becomes_step[OF _ ptrans.fields, of t ps cur n i x p] unfolding at_work_def
    by (elim conjE, intro conjI) (auto simp: same_id_def)
qed

text \<open>While the first process is created, it is already the first process and not yet runnable.\<close>

definition booting :: "ptab \<Rightarrow> nat \<Rightarrow> nat \<Rightarrow> (nat \<Rightarrow> proc) \<Rightarrow> nat \<Rightarrow> int \<Rightarrow> nat option \<Rightarrow> bool" where
  "booting t c p ps cur n i \<longleftrightarrow> at_work t c None {(p, USED)} ps cur n None \<and> i = Some p"

interpretation bo: process_contract "booting t c p" for t c p
  by unfold_locales (auto simp: booting_def intro: aw.keep_wake aw.keep_fields)

end
