(* ===== verification/ProcInv.thy ===== *)
theory ProcInv
  imports Lifecycle
begin

text \<open>
  The process system implements the life cycle of \<open>Lifecycle\<close>: every operation of
  \<^verbatim>\<open>kernel/proc.c\<close>, every system call and every trap changes the process table by a sequence
  of its transitions.
\<close>

abbreviation (input) working :: "ptab \<Rightarrow> nat \<Rightarrow> nat option \<Rightarrow> (nat \<times> procstate) set \<Rightarrow> 'a kcore_scheme \<Rightarrow> bool" where
  "working t c i0 U s \<equiv> st (at_work t c i0 U) s"

lemma at_workD: "at_work t c i0 U ps cur n i \<Longrightarrow> becomes t ps cur n i \<and> cur = c \<and> i = i0"
  unfolding at_work_def by (elim conjE) simp

lemma at_work_state: "at_work t c i0 U ps cur n i \<Longrightarrow> (u, w) \<in> U \<Longrightarrow> p_state (ps u) = w"
  unfolding at_work_def by auto

lemma at_work_add:
  "at_work t c i0 {} ps cur n i \<Longrightarrow> p_state (ps u) = w \<Longrightarrow> w \<noteq> SLEEPING \<Longrightarrow> at_work t c i0 {(u, w)} ps cur n i"
  unfolding at_work_def by (elim conjE) simp

lemma at_work_drop: "at_work t c i0 U ps cur n i \<Longrightarrow> at_work t c i0 {} ps cur n i"
  unfolding at_work_def by (elim conjE) simp

lemma at_work_step:
  assumes "at_work t c i0 U ps cur n i" "ptrans (ps, cur, n, i) (ps', cur', n', i')"
    and "\<forall>(u, w) \<in> V. w \<noteq> SLEEPING \<and> p_state (ps' u) = w"
  shows "at_work t cur' i' V ps' cur' n' i'"
  using assms(1,3) becomes_step[OF _ assms(2), of t] unfolding at_work_def by (elim conjE) simp

lemma at_work_refl: "at_work (ps, cur, n, i) cur i {} ps cur n i"
  by (simp add: at_work_def)

lemma ensures_case_option_eq:
  "(w = None \<Longrightarrow> ensures P x) \<Longrightarrow> (\<And>v. w = Some v \<Longrightarrow> ensures P (f v)) \<Longrightarrow> ensures P (case_option x f w)"
  by (cases w) auto

section \<open>Creating and freeing processes\<close>

lemma freeproc_frees:
  assumes "working t c i0 U s" "(p, w) \<in> U" "w \<in> {USED, ZOMBIE}" "p < NPROC"
  shows "ensures (working t c i0 {}) (freeproc p s)"
proof -
  have last: "working t c i0 {} (upd_proc p (\<lambda>x. x\<lparr>p_pagetable := 0, p_sz := 0, p_pid := 0, p_parent := None,
      p_name := (p_name x)(0 := 0), p_chan := None, p_killed := False, p_xstate := 0, p_state := UNUSED\<rparr>) s)"
    if w: "working t c i0 U s" for s :: "'a kcore_scheme"
    using at_workD[OF w] at_work_step[OF w ptrans.free[OF assms(4)], where V = "{}"] at_work_state[OF w assms(2)] assms(3)
    by simp
  show ?thesis
    unfolding freeproc_def
    by (rule aw.vc_st[where t = t and c = c and ?i0.0 = i0 and U = "U"] ensures_if keeps_op
        | (simp only: ensures_simps, rule last, assumption)
        | (simp add: assms(1) aw.keep_fields same_id_def; fail) | rule ensures_let)+
qed

lemma freeproc_then:
  assumes "working t c i0 U s" "(p, w) \<in> U" "w \<in> {USED, ZOMBIE}" "p < NPROC"
    and "\<And>s. working t c i0 {} s \<Longrightarrow> ensures P (f s)"
  shows "ensures P (and_then (freeproc p s) f)"
  using freeproc_frees[OF assms(1-4)] assms(5) by (rule ensures_and_then)

definition made :: "ptab \<Rightarrow> nat \<Rightarrow> nat option \<Rightarrow> nat option \<times> 'a kcore_scheme \<Rightarrow> bool" where
  "made t c i0 = (\<lambda>(q, s). case q of None \<Rightarrow> working t c i0 {} s | Some p \<Rightarrow> p < NPROC \<and> working t c i0 {(p, USED)} s)"

lemma allocproc_made:
  assumes "working t c i0 {} s"
  shows "ensures (made t c i0) (allocproc s)"
proof (cases "List.find (\<lambda>p. p_state (procs s p) = UNUSED) [0..<NPROC]")
  case (Some p)
  then have p: "p < NPROC" "p_state (procs s p) = UNUSED" by (auto simp: find_Some_iff)
  let ?U = "{(p, USED)}"
  define s1 where "s1 = upd_proc p (\<lambda>x. x\<lparr>p_pid := nextpid s, p_state := USED\<rparr>) (s\<lparr>nextpid := nextpid s + 1\<rparr>)"
  have s1: "working t c i0 ?U s1"
    using at_workD[OF assms] at_work_step[OF assms ptrans.alloc[where ps = "procs s", OF p], where V = ?U] by (simp add: s1_def)
  note free = freeproc_then[where t = t and c = c and ?i0.0 = i0 and U = ?U and w = USED]
  show ?thesis
    unfolding allocproc_def Some option.case allocpid_def Let_def prod.case s1_def[symmetric]
    by (rule free aw.vc_st[where t = t and c = c and ?i0.0 = i0 and U = "?U"] ensures_if keeps_op
        | (simp add: s1 made_def p aw.keep_fields same_id_def; fail))+
qed (use assms in \<open>simp add: allocproc_def made_def\<close>)

lemma made_then:
  assumes "working t c i0 {} s" "\<And>s. working t c i0 {} s \<Longrightarrow> ensures P (f None s)"
    and "\<And>p s. p < NPROC \<Longrightarrow> working t c i0 {(p, USED)} s \<Longrightarrow> ensures P (f (Some p) s)"
  shows "ensures P (and_then (allocproc s) (\<lambda>(q, s). f q s))"
proof (rule ensures_and_then[OF allocproc_made[OF assms(1)]])
  fix x :: "nat option \<times> 'a kcore_scheme"
  assume x: "made t c i0 x"
  obtain q s' where "x = (q, s')" by (cases x)
  with x assms(2,3) show "ensures P ((\<lambda>(q, s). f q s) x)" by (cases q) (simp_all add: made_def)
qed

lemma fork_keeps:
  assumes s: "working t c i0 {} s" and c: "c < NPROC"
  shows "ensures (st1 (at_work t c i0 {})) (fork s)"
proof -
  have last: "working t c i0 {} (upd_proc np (\<lambda>x. x\<lparr>p_parent := Some (curp s), p_state := RUNNABLE\<rparr>) s')"
    if w: "working t c i0 {(np, USED)} s'" and np: "np < NPROC" for np and s' :: "'a file_state_scheme"
    using at_workD[OF w] at_workD[OF s] c at_work_state[OF w]
      at_work_step[OF w ptrans.start[OF np], where V = "{}"] by simp
  show ?thesis
    unfolding fork_def
    apply (subst Let_def)
    apply (rule made_then[OF s])
    subgoal by simp
    subgoal for np s'
      by (simp only: option.case) (rule freeproc_then[where t = t and c = c and ?i0.0 = i0 and U = "{(np, USED)}" and w = USED]
        aw.vc_st[where t = t and c = c and ?i0.0 = i0 and U = "{(np, USED)}"] ensures_if ensures_case_option keeps_op
        | (simp only: ensures_simps prod.case, rule last, assumption)
        | (simp add: aw.keep_fields same_id_def tf_set_def; fail) | rule ensures_let)+
    done
qed

section \<open>Exit and wait\<close>

text \<open>After \<open>reparent\<close> no process is a child of the exiting one.\<close>

lemma wake_parent [simp]: "p_parent (wake ch cur ps j) = p_parent (ps j)"
  by (simp add: wake_def)

lemma wakeup_proc_keeps: "working t c i0 U s \<Longrightarrow> working t c i0 U (wakeup_proc q s)"
  by (cases q) (simp_all add: wakeup_proc_def aw.keep_wake)

lemma wakeup_proc_parent [simp]: "p_parent (procs (wakeup_proc q s) j) = p_parent (procs s j)"
  by (cases q) (simp_all add: wakeup_proc_def)

lemma reparent_one_keeps:
  assumes w: "working t c i0 {} s" and c: "c < NPROC" "i0 \<noteq> Some c" and j: "j < NPROC"
  shows "working t c i0 {} (reparent_one c j s)" "p_parent (procs (reparent_one c j s) j) \<noteq> Some c"
    "p_parent (procs s k) \<noteq> Some c \<Longrightarrow> p_parent (procs (reparent_one c j s) k) \<noteq> Some c"
  using at_workD[OF w] at_work_step[OF w ptrans.adopted[OF j], where V = "{}"] assms
  by (auto simp: reparent_one_def intro!: wakeup_proc_keeps)

lemma reparent_keeps:
  assumes w: "working t c i0 {} s" and c: "c < NPROC" "i0 \<noteq> Some c"
  shows "working t c i0 {} (reparent c s) \<and> (\<forall>j < NPROC. p_parent (procs (reparent c s) j) \<noteq> Some c)"
proof -
  have "working t c i0 {} (fold (reparent_one c) [0..<k] s) \<and>
      (\<forall>j < k. p_parent (procs (fold (reparent_one c) [0..<k] s) j) \<noteq> Some c)" if "k \<le> NPROC" for k
    using that
  proof (induction k)
    case (Suc k)
    then have *: "working t c i0 {} (fold (reparent_one c) [0..<k] s)"
      "\<forall>j < k. p_parent (procs (fold (reparent_one c) [0..<k] s) j) \<noteq> Some c" by simp_all
    show ?case
      using reparent_one_keeps[OF *(1) c, of k] *(2) Suc.prems by (simp add: less_Suc_eq)
  qed (use w in simp)
  from this[of NPROC] show ?thesis by (simp add: reparent_def)
qed

lemma exit_keeps:
  assumes s: "working t c i0 {} s" and c: "c < NPROC"
  shows "ensures (working t NPROC i0 {}) (exit status s)"
proof -
  have last: "ensures (working t NPROC i0 {}) (sched (upd_proc c (\<lambda>x. x\<lparr>p_xstate := status, p_state := ZOMBIE\<rparr>)
      (wakeup_proc (p_parent (procs (reparent c s) c)) (reparent c s))))"
    if w: "working t c i0 {} s" "i0 \<noteq> Some c" for s :: "'a file_state_scheme"
  proof -
    note r = reparent_keeps[OF w(1) c w(2)]
    note v = wakeup_proc_keeps[OF r[THEN conjunct1], of "p_parent (procs (reparent c s) c)"]
    show ?thesis
      using at_workD[OF v] at_work_step[OF v ptrans.die, where V = "{}"] r c w(2)
      by (simp add: sched_def)
  qed
  have cur: "curp s = c" "initproc s = i0" using at_workD[OF s] by auto
  show ?thesis
  proof (cases "i0 = Some c")
    case False
    show ?thesis
      unfolding exit_def cur Let_def if_not_P[OF False]
      by (rule aw.vc_st[where t = t and c = c and ?i0.0 = i0 and U = "{}"] last ensures_case_option keeps_op
          | (simp add: aw.keep_fields same_id_def s False; fail))+
  qed (simp add: exit_def cur)
qed

lemma wait_keeps:
  assumes s: "working t c i0 {} s"
  shows "ensures (st1 (at_work t c i0 {})) (wait addr s)"
proof (cases "List.find (\<lambda>pp. p_parent (procs s pp) = Some c \<and> p_state (procs s pp) = ZOMBIE) [0..<NPROC]")
  case None
  then show ?thesis using s at_workD[OF s] by (simp add: wait_def)
next
  case (Some p)
  have cur: "curp s = c" using at_workD[OF s] by auto
  have p: "p < NPROC" "p_state (procs s p) = ZOMBIE" using Some by (auto simp: find_Some_iff)
  then have z: "working t c i0 {(p, ZOMBIE)} s" using s by (intro at_work_add) auto
  show ?thesis
    unfolding wait_def cur Let_def Some option.case
    by (rule freeproc_then[where t = t and c = c and ?i0.0 = i0 and U = "{(p, ZOMBIE)}" and w = ZOMBIE]
        aw.vc_st[where t = t and c = c and ?i0.0 = i0 and U = "{(p, ZOMBIE)}"] ensures_if keeps_op
        | (simp add: z p at_work_drop; fail))+
qed

section \<open>Switching\<close>

lemma sched_leaves:
  assumes w: "working t c i0 {} s" and c: "c < NPROC"
    and x: "p_state (f (procs s c)) \<in> {RUNNABLE, SLEEPING}" "p_pid (f (procs s c)) = p_pid (procs s c)"
      "p_parent (f (procs s c)) = p_parent (procs s c)"
  shows "ensures (working t NPROC i0 {}) (sched (upd_proc c f s))"
  using at_workD[OF w] at_work_step[OF w ptrans.leave[where x = "f (procs s c)"], where V = "{}"] c x
  by (simp add: sched_def)

lemma yield_keeps:
  assumes w: "working t c i0 {} s" and c: "c < NPROC"
  shows "ensures (working t NPROC i0 {}) (yield s)"
proof -
  have "curp s = c" using at_workD[OF w] by simp
  then show ?thesis unfolding yield_def using sched_leaves[OF w c] by simp
qed

lemma sleep_keeps:
  assumes w: "working t c i0 {} s" and c: "c < NPROC"
  shows "ensures (working t NPROC i0 {}) (sleep ch s)"
proof -
  have "curp s = c" using at_workD[OF w] by simp
  then show ?thesis unfolding sleep_def using sched_leaves[OF w c] by simp
qed

lemma kill_keeps:
  assumes w: "working t c i0 {} s"
  shows "st1 (at_work t c i0 {}) (kill pid s)"
proof -
  have "working t c i0 {} (upd_proc p (\<lambda>x. x\<lparr>p_killed := True, p_state := (if p_state x = SLEEPING then RUNNABLE else p_state x)\<rparr>) s)" for p
    using at_workD[OF w] at_work_step[OF w ptrans.rouse[where p = p], where V = "{}"] aw.keep_fields[OF w]
    by (auto simp: same_id_def)
  then show ?thesis using w by (simp add: kill_def split: option.split)
qed

section \<open>System calls\<close>

text \<open>A call that does not return has switched to the scheduler.\<close>

definition sys_post :: "ptab \<Rightarrow> nat \<Rightarrow> nat option \<Rightarrow> sysret \<times> 'a kcore_scheme \<Rightarrow> bool" where
  "sys_post t c i0 = (\<lambda>(r, s). if r = SExit then st (becomes t) s else working t c i0 {} s)"

lemma sys_postI: "ensures (st1 (at_work t c i0 {})) r \<Longrightarrow> ensures (sys_post t c i0) r"
  using at_workD by (fastforce simp: ensures_def sys_post_def)

lemma sys_exit_keeps:
  assumes "working t c i0 {} s" "c < NPROC"
  shows "ensures (sys_post t c i0) (sys_exit s)"
  unfolding sys_exit_def
proof (rule ensures_any, rule ensures_and_then, rule exit_keeps[OF assms])
  show "working t NPROC i0 {} s' \<Longrightarrow> ensures (sys_post t c i0) (Ok (SExit, s'))" for s' :: "'a file_state_scheme"
    using at_workD by (auto simp: sys_post_def)
qed

lemma sys_proc_keeps:
  assumes s: "working t c i0 {} s" and c: "c < NPROC"
  shows sys_fork_keeps: "ensures (st1 (at_work t c i0 {})) (sys_fork (s :: 'a file_state_scheme))"
    and sys_wait_keeps: "ensures (st1 (at_work t c i0 {})) (sys_wait s)"
    and sys_kill_keeps: "ensures (st1 (at_work t c i0 {})) (sys_kill s)"
  unfolding sys_fork_def sys_wait_def sys_kill_def
  by (rule aw.vc_st[where t = t and c = c and ?i0.0 = i0 and U = "{}"] fork_keeps wait_keeps kill_keeps
      | (simp add: s c ret_def; fail) | rule ensures_any)+

lemma syscalls_keep:
  assumes s: "working t c i0 {} s" and c: "c < NPROC" and f: "syscalls num = Some f"
  shows "ensures (sys_post t c i0) (f s)"
proof -
  have "f = sys_fork \<or> f = sys_exit \<or> f = sys_wait \<or> f = sys_pipe \<or> f = sys_read \<or> f = sys_kill \<or> f = sys_exec \<or>
      f = sys_fstat \<or> f = sys_chdir \<or> f = sys_dup \<or> f = sys_getpid \<or> f = sys_sbrk \<or> f = sys_sleep \<or>
      f = sys_uptime \<or> f = sys_open \<or> f = sys_write \<or> f = sys_mknod \<or> f = sys_unlink \<or> f = sys_link \<or>
      f = sys_mkdir \<or> f = sys_close"
    using f by (auto simp: syscalls_def split: if_splits)
  then show ?thesis
    by (elim disjE; hypsubst)
      (rule sys_exit_keeps[OF s c] | (rule sys_postI, (rule sys_proc_keeps[OF s c] | (rule keeps_op, rule s))))+
qed

lemma tf_set_keeps: "working t c i0 U s \<Longrightarrow> working t c i0 U (tf_set p f v s)"
  by (simp add: tf_set_def)

lemma syscall_keeps:
  assumes s: "working t c i0 {} s" and c: "c < NPROC"
  shows "ensures (sys_post t c i0) (syscall s)"
proof -
  have ret: "ensures (sys_post t c i0) (case r of SRet v \<Rightarrow> Ok (SRet v, tf_set p (Reg_a 0) v s') | _ \<Rightarrow> Ok (r, s'))"
    if "sys_post t c i0 (r, s')" for r p and s' :: "'a file_state_scheme"
    using that by (cases r) (simp_all add: sys_post_def tf_set_keeps)
  have call: "ensures (sys_post t c i0) (and_then (f s) (\<lambda>(r, s). case r of SRet v \<Rightarrow> Ok (SRet v, tf_set p (Reg_a 0) v s) | _ \<Rightarrow> Ok (r, s)))"
    if "syscalls num = Some f" for num f p
    using syscalls_keep[OF s c that] by (rule ensures_and_then) (use ret in auto)
  have unknown: "ensures (sys_post t c i0) (and_then (printf fmt ap s) (\<lambda>s. Ok (SRet (- 1), tf_set p (Reg_a 0) (- 1) s)))" for fmt ap p
    by (rule aw.then_st[where t = t and c = c and ?i0.0 = i0 and U = "{}"], rule keeps_op)
      (simp_all add: s sys_post_def tf_set_keeps)
  show ?thesis
    unfolding syscall_def Let_def
    by (rule ensures_case_option_eq) (auto split: if_splits intro: call unknown)
qed

section \<open>Traps\<close>

definition trap_post :: "ptab \<Rightarrow> nat \<Rightarrow> nat option \<Rightarrow> trap_end \<times> 'a kcore_scheme \<Rightarrow> bool" where
  "trap_post t c i0 = (\<lambda>(e, s). case e of Slept _ _ \<Rightarrow> working t c i0 {} s | _ \<Rightarrow> st (becomes t) s)"

lemma trap_post_simps [simp]:
  "trap_post t c i0 (Slept ch k, s) = working t c i0 {} s" "trap_post t c i0 (Exited, s) = st (becomes t) s"
  "trap_post t c i0 (Yielded, s) = st (becomes t) s" "trap_post t c i0 (ToUser a b d, s) = st (becomes t) s"
  by (simp_all add: trap_post_def)

lemma working_becomes: "working t c i0 U s \<Longrightarrow> st (becomes t) s"
  using at_workD by auto

lemma usertrap_exit_keeps:
  assumes s: "working t c i0 {} s" and c: "c < NPROC"
  shows "ensures (trap_post t c i0) (usertrap_exit d r s)"
proof -
  have "ensures (trap_post t c i0) (and_then (exit v s) (\<lambda>s. Ok (Exited, s)))" for v
    by (rule ensures_and_then[OF exit_keeps[OF s c]]) (simp add: working_becomes)
  moreover have "ensures (trap_post t c i0) (and_then (yield s) (\<lambda>s. Ok (Yielded, s)))"
    by (rule ensures_and_then[OF yield_keeps[OF s c]]) (simp add: working_becomes)
  moreover have "ensures (trap_post t c i0) (Ok (usertrapret r s))"
    using aw.keeps_usertrapret[OF s, of r] by (auto simp: usertrapret_def Let_def working_becomes)
  ultimately show ?thesis by (simp add: usertrap_exit_def)
qed

lemma usertrap_keeps:
  assumes s: "working t c i0 {} s" and c: "c < NPROC"
  shows "ensures (trap_post t c i0) (usertrap r s)"
proof -
  have dead: "ensures (trap_post t c i0) (and_then (exit v s) (\<lambda>s. Ok (Exited, s)))"
    if "working t c i0 {} s" for v and s :: "'a kernel_scheme"
    by (rule ensures_and_then[OF exit_keeps[OF that c]]) (simp add: working_becomes)
  have call: "ensures (trap_post t c i0) (and_then (syscall s) (\<lambda>(v, s).
      case v of SRet _ \<Rightarrow> usertrap_exit 0 r s | SSleep c k \<Rightarrow> Ok (Slept c k, s) | SExit \<Rightarrow> Ok (Exited, s)))"
    if "working t c i0 {} s" for s :: "'a kernel_scheme"
    by (rule ensures_and_then[OF syscall_keeps[OF that c]])
      (auto simp: sys_post_def usertrap_exit_keeps c split: sysret.split)
  show ?thesis
    unfolding usertrap_def
    by (rule dead call usertrap_exit_keeps aw.vc_st[where t = t and c = c and ?i0.0 = i0 and U = "{}"] ensures_if keeps_op
        | (simp add: s c tf_set_keeps setkilled_def aw.keep_fields same_id_def; fail) | rule ensures_let)+
qed

lemma kerneltrap_keeps:
  assumes s: "working t c i0 {} s"
  shows "ensures (\<lambda>(_, _, _, s). st (becomes t) s) (kerneltrap r s)"
proof -
  have yield: "ensures (\<lambda>(_, _, _, s). st (becomes t) s) (and_then (yield s) (\<lambda>s. Ok (True, a, b, s)))"
    if "working t c i0 {} s" "curp s < NPROC" for a b :: u64 and s :: "'a kernel_scheme"
  proof (rule ensures_and_then[OF yield_keeps[OF that(1)]])
    show "c < NPROC" using at_workD[OF that(1)] that(2) by simp
  qed (simp add: working_becomes)
  show ?thesis
    unfolding kerneltrap_def
    by (rule yield aw.vc_st[where t = t and c = c and ?i0.0 = i0 and U = "{}"] ensures_if keeps_op
        | (simp add: s working_becomes; fail))+
qed

section \<open>Steps of the kernel\<close>

text \<open>A process that slept in a system call runs the test of its loop again when it has the CPU.\<close>

datatype blocked_call =
    ReWait u64 | RePiperead u64 u64 int | RePipewrite int u64 u64 int
  | ReConsoleread int addr int | ReConsolewrite int addr int | ReSleep u32

fun rerun :: "blocked_call \<Rightarrow> 'a kernel_scheme \<Rightarrow> (sysret \<times> 'a kernel_scheme) res" where
  "rerun (ReWait a) s = and_then (wait a s) (\<lambda>(w, s). Ok (of_wait w, s))"
| "rerun (RePiperead pi a n) s = and_then (piperead pi a n s) (\<lambda>(w, s). Ok (of_wait w, s))"
| "rerun (RePipewrite i pi a n) s = and_then (pipewrite_from i pi a n s) (\<lambda>(w, s). Ok (of_wait w, s))"
| "rerun (ReConsoleread m a n) s = and_then (consoleread_from m a n s) (\<lambda>(w, s). Ok (of_wait w, s))"
| "rerun (ReConsolewrite i a n) s = and_then (consolewrite_from i a n s) (\<lambda>(w, s). Ok (of_wait w, s))"
| "rerun (ReSleep t0) s = sys_sleep_from t0 s"

lemma rerun_keeps:
  assumes s: "working t c i0 {} s"
  shows "ensures (st1 (at_work t c i0 {})) (rerun b s)"
  by (cases b; simp only: rerun.simps)
    (rule aw.vc_st[where t = t and c = c and ?i0.0 = i0 and U = "{}"] wait_keeps keeps_op | (simp add: s; fail))+

text \<open>What a CPU does between two runs of the scheduler: traps of the running process, up to the
  return to user space or the switch to the scheduler, the rest of a system call that slept, the
  start of a new process, and interrupts in the kernel. A process that would have to wait
  for a sleep lock takes its step when the lock is free.\<close>

inductive kstep :: "'a kernel_scheme \<Rightarrow> 'a kernel_scheme \<Rightarrow> bool" where
  trap: "curp s < NPROC \<Longrightarrow> usertrap r s = Ok (e, s') \<Longrightarrow> \<nexists>c k. e = Slept c k \<Longrightarrow> kstep s s'"
| trap_sleep: "curp s < NPROC \<Longrightarrow> usertrap r s = Ok (Slept c k, s') \<Longrightarrow> sleep c s' = Ok s'' \<Longrightarrow> kstep s s''"
| again: "curp s < NPROC \<Longrightarrow> rerun b (sleep_resume s) = Ok (SRet v, s') \<Longrightarrow>
    usertrap_exit 0 r (tf_set (curp s) (Reg_a 0) v s') = Ok (e, s'') \<Longrightarrow> kstep s s''"
| again_sleep: "curp s < NPROC \<Longrightarrow> rerun b (sleep_resume s) = Ok (SSleep c k, s') \<Longrightarrow>
    sleep c s' = Ok s'' \<Longrightarrow> kstep s s''"
| first_run: "forkret b r s = Ok (e, s') \<Longrightarrow> kstep s s'"
| intr: "kerneltrap r s = Ok (x, y, z, s') \<Longrightarrow> kstep s s'"

lemma sleep_resume_keeps: "working t c i0 {} s \<Longrightarrow> working t c i0 {} (sleep_resume s)"
  using at_work_step[OF _ ptrans.unchan, of t c i0 "{}"] at_workD[of t c i0 "{}"]
  by (fastforce simp: sleep_resume_def)

lemma forkret_keeps:
  assumes s: "working t c i0 {} s"
  shows "ensures (\<lambda>(_, s). st (becomes t) s) (forkret b r s)"
proof -
  have ret: "ensures (\<lambda>(_, s). st (becomes t) s) (Ok (usertrapret r s'))" if "working t c i0 {} s'" for s' :: "'a kernel_scheme"
    using aw.keeps_usertrapret[OF that, of r] by (auto simp: working_becomes)
  show ?thesis
    unfolding forkret_def
    by (rule ret aw.then_st[where t = t and c = c and ?i0.0 = i0 and U = "{}"] ensures_if keeps_op | (simp add: s; fail))+
qed

lemma kstep_becomes:
  assumes "kstep s s'"
  shows "becomes (ptab_of s) (procs s') (curp s') (nextpid s') (initproc s')"
proof -
  let ?w = "at_work (ptab_of s) (curp s) (initproc s) {}"
  have s: "st ?w s" by (rule at_work_refl)
  have slept: "st (becomes (ptab_of s)) v" if "st ?w u" "curp s < NPROC" "sleep ch u = Ok v" for u v :: "'a kernel_scheme" and ch
    using ensuresD[OF sleep_keeps[OF that(1,2)] that(3)] by (rule working_becomes)
  show ?thesis
    using assms
  proof cases
    case (trap r e)
    show ?thesis using ensuresD[OF usertrap_keeps[OF s trap(1)] trap(2)] trap(3) by (cases e) auto
  next
    case (trap_sleep r c k u)
    show ?thesis using slept[OF _ trap_sleep(1,3)] ensuresD[OF usertrap_keeps[OF s trap_sleep(1)] trap_sleep(2)] by simp
  next
    case (again b v u r e)
    have "st ?w u" using ensuresD[OF rerun_keeps[OF sleep_resume_keeps[OF s]] again(2)] by simp
    then have "st ?w (tf_set (curp s) (Reg_a 0) v u)" by (rule tf_set_keeps)
    from ensuresD[OF usertrap_exit_keeps[OF this again(1)] again(3)] show ?thesis
      using at_workD by (cases e) auto
  next
    case (again_sleep b c k u)
    show ?thesis
      using slept[OF _ again_sleep(1,3)] ensuresD[OF rerun_keeps[OF sleep_resume_keeps[OF s]] again_sleep(2)] by simp
  next
    case (first_run b r e)
    show ?thesis using ensuresD[OF forkret_keeps[OF s] first_run] by simp
  next
    case (intr r x y z)
    show ?thesis using ensuresD[OF kerneltrap_keeps[OF s] intr] by simp
  qed
qed

text \<open>One look of the scheduler is a switch to the process, or nothing.\<close>

lemma scheduler_look_switches:
  assumes "curp s = NPROC" "p < NPROC" "p_state (procs s p) = RUNNABLE"
  shows "pswitch (ptab_of s) (ptab_of (scheduler_look p s))"
  using pswitch.enter[of p "procs s" "(procs s p)\<lparr>p_state := RUNNING\<rparr>" "nextpid s" "initproc s"] assms
  by (simp add: scheduler_look_def)

text \<open>The kernel with its scheduler.\<close>

inductive sys_step :: "'a kernel_scheme \<Rightarrow> 'a kernel_scheme \<Rightarrow> bool" where
  run: "kstep s s' \<Longrightarrow> sys_step s s'"
| look: "curp s = NPROC \<Longrightarrow> p < NPROC \<Longrightarrow> sys_step s (scheduler_look p s)"

lemma sys_step_ptable:
  assumes "sys_step s s'" "st ptable s"
  shows "st ptable s'"
  using assms
proof (induction rule: sys_step.induct)
  case (run s s')
  then show ?case using becomes_ptable[OF kstep_becomes] by blast
next
  case (look s p)
  show ?case
  proof (cases "p_state (procs s p) = RUNNABLE")
    case True
    then show ?thesis using pswitch_ptable[OF scheduler_look_switches[OF look(1,2)] look(3)] by simp
  qed (use look in \<open>simp add: scheduler_look_def\<close>)
qed

section \<open>Rounds of the scheduler\<close>

text \<open>The inner loop of \<^verbatim>\<open>scheduler\<close> over the processes still to be looked at: a process that is
  not runnable is passed over, a runnable one is run until the CPU is back in the scheduler, and
  interrupts may come in between. The result lists the processes that were run.\<close>

inductive scheduler_round :: "nat list \<Rightarrow> 'a kernel_scheme \<Rightarrow> nat list \<Rightarrow> 'a kernel_scheme \<Rightarrow> bool" where
  finish: "scheduler_round [] s [] s"
| pass: "p_state (procs s p) \<noteq> RUNNABLE \<Longrightarrow> scheduler_round ps s xs s' \<Longrightarrow> scheduler_round (p # ps) s xs s'"
| switch: "p_state (procs s p) = RUNNABLE \<Longrightarrow> kstep\<^sup>*\<^sup>* (scheduler_look p s) s1 \<Longrightarrow> curp s1 = NPROC \<Longrightarrow>
    scheduler_round ps s1 xs s' \<Longrightarrow> scheduler_round (p # ps) s (p # xs) s'"
| interrupt: "kerneltrap r s = Ok (x, y, z, s1) \<Longrightarrow> curp s1 = NPROC \<Longrightarrow> scheduler_round ps s1 xs s' \<Longrightarrow> scheduler_round ps s xs s'"

lemma ksteps_keep:
  assumes "kstep\<^sup>*\<^sup>* s s'" "st ptable s"
  shows "st ptable s' \<and> (\<forall>j < NPROC. p_state (procs s j) = RUNNABLE \<longrightarrow> p_state (procs s' j) = RUNNABLE)"
  using assms
proof (induction rule: rtranclp_induct)
  case (step u v)
  then show ?case using becomes_ptable[OF kstep_becomes[OF step(2)]] by blast
qed simp

lemma scheduler_look_ptable:
  assumes "st ptable s" "curp s = NPROC" "p < NPROC" "p_state (procs s p) = RUNNABLE"
  shows "st ptable (scheduler_look p s)"
  using pswitch_ptable[OF scheduler_look_switches[OF assms(2-4)] assms(1)] by simp

lemma round_runs:
  assumes "scheduler_round ps s xs s'" "set ps \<subseteq> {..<NPROC}" "st ptable s" "curp s = NPROC"
    and "j \<in> set ps" "p_state (procs s j) = RUNNABLE"
  shows "j \<in> set xs"
  using assms
proof (induction rule: scheduler_round.induct)
  case (switch s p s1 ps xs s')
  have p: "p < NPROC" using switch.prems(1) by simp
  show ?case
  proof (cases "j = p")
    case False
    have look: "st ptable (scheduler_look p s)"
      using scheduler_look_ptable[OF switch.prems(2,3) p switch.hyps(1)] .
    have "p_state (procs (scheduler_look p s) j) = RUNNABLE"
      using False switch.prems(5) by (simp add: scheduler_look_def)
    then show ?thesis
      using ksteps_keep[OF switch.hyps(2) look] switch False by auto
  qed simp
next
  case (interrupt r s x y z s1 ps xs s')
  then show ?case
    using becomes_ptable[OF kstep_becomes[OF kstep.intr[OF interrupt.hyps(1)]] interrupt.prems(2)] by auto
qed auto

section \<open>The properties\<close>



text \<open>C6: No process starves: whatever the processes run before it do, a process that is runnable when
  the scheduler starts a round over the table is run in that round.\<close>

theorem runnable_is_run:
  assumes "scheduler_round [0..<NPROC] s xs s'" "ptable (procs s) (curp s) (nextpid s) (initproc s)" "curp s = NPROC"
    and "j < NPROC" "p_state (procs s j) = RUNNABLE"
  shows "j \<in> set xs"
  by (rule round_runs[OF assms(1) _ assms(2,3) _ assms(5)]) (use assms(4) in auto)

section \<open>Concrete states\<close>

text \<open>A kernel in its scheduler with one runnable process, and a timer interrupt on a CPU that does
  not count the ticks.\<close>

definition kernel0 :: kernel where
  "kernel0 = (file_state.extend file0 (kernel.fields
      \<lparr>v_desc = (\<lambda>_. zero_desc), v_avail_idx = 0, v_avail_ring = (\<lambda>_. 0), v_used_dev_idx = 0,
       v_used_ring = (\<lambda>_. 0), v_free = (\<lambda>_. True), v_used_idx = 0, v_info_b = (\<lambda>_. None), v_info_status = (\<lambda>_. 0),
       v_ops = (\<lambda>_. \<lparr>vr_type = 0, vr_sector = 0\<rparr>), v_bdisk = (\<lambda>_. False)\<rparr> 0 (\<lambda>_. 0)))
    \<lparr>procs := (\<lambda>_. zero_proc\<lparr>p_state := UNUSED, p_pid := 0\<rparr>)(0 := zero_proc\<lparr>p_state := RUNNABLE\<rparr>),
     curp := NPROC, nextpid := 2, initproc := Some 0\<rparr>"

definition timer :: trap_regs where
  "timer = \<lparr>r_scause = 0x8000000000000001, r_sepc = 0, r_sstatus = 0x100, r_stval = 0, r_satp = 0, r_tp = 1,
     plic_irq = 0, usertrap_addr = 0\<rparr>"

lemma kernel0_fields [simp]:
  "procs kernel0 = (\<lambda>_. zero_proc\<lparr>p_state := UNUSED, p_pid := 0\<rparr>)(0 := zero_proc\<lparr>p_state := RUNNABLE\<rparr>)"
  "curp kernel0 = NPROC" "nextpid kernel0 = 2" "initproc kernel0 = Some 0" "sip kernel0 = 0"
  by (simp_all add: kernel0_def kernel.defs file_state.defs)

lemma kernel0_ptable: "ptable (procs kernel0) (curp kernel0) (nextpid kernel0) (initproc kernel0)"
  by (auto simp: ptable_def parent_ok_def zero_proc_def)

definition kernel1 :: kernel where
  "kernel1 = scheduler_look 0 kernel0"

definition kernel2 :: kernel where
  "kernel2 = (upd_proc 0 (\<lambda>x. x\<lparr>p_state := RUNNABLE\<rparr>) (kernel1\<lparr>sip := 0\<rparr>))\<lparr>curp := NPROC\<rparr>"

lemma kernel1_step: "kstep kernel1 kernel2"
proof (rule kstep.intr)
  show "kerneltrap timer kernel1 = Ok (True, 0, 0x100, kernel2)"
    by (simp add: kernel2_def kernel1_def kerneltrap_def devintr_def timer_def yield_def sched_def scheduler_look_def
        upd_proc_def myproc_def zero_proc_def Let_def)
qed

lemma kernel0_round: "scheduler_round [0..<NPROC] kernel0 [0] kernel2"
proof -
  have pass: "scheduler_round ps kernel2 [] kernel2" if "0 \<notin> set ps" for ps
    using that
    by (induction ps) (auto intro!: scheduler_round.intros simp: kernel2_def kernel1_def scheduler_look_def zero_proc_def)
  have "scheduler_round (0 # [1..<NPROC]) kernel0 [0] kernel2"
  proof (rule scheduler_round.switch)
    show "kstep\<^sup>*\<^sup>* (scheduler_look 0 kernel0) kernel2" using kernel1_step by (simp add: kernel1_def)
    show "scheduler_round [1..<NPROC] kernel2 [] kernel2" by (rule pass) simp
  qed (simp_all add: kernel2_def zero_proc_def)
  then show ?thesis using upt_conv_Cons[of 0 NPROC] by simp
qed



theorem runnable_is_run_witness:
  "scheduler_round [0..<NPROC] kernel0 [0] kernel2 \<and> p_state (procs kernel0 0) = RUNNABLE \<and> 0 \<in> set [0::nat]"
  using kernel0_round runnable_is_run[OF kernel0_round kernel0_ptable, of 0] by (simp add: zero_proc_def)

section \<open>The first process\<close>

definition pristine :: "'a kcore_scheme \<Rightarrow> bool" where
  "pristine s \<longleftrightarrow> (\<forall>j < NPROC. p_state (procs s j) = UNUSED \<and> p_pid (procs s j) = 0 \<and> p_parent (procs s j) = None) \<and>
    curp s = NPROC \<and> nextpid s = 1 \<and> initproc s = None"

lemma userinit_ptable:
  assumes "pristine s"
  shows "ensures (st ptable) (userinit s)"
proof -
  let ?t = "ptab_of s"
  have s: "working ?t NPROC None {} s" using assms by (simp add: at_work_def pristine_def)
  have pt: "st ptable s" using assms by (auto simp: pristine_def ptable_def parent_ok_def)
  have last: "st ptable (upd_proc p (\<lambda>x. x\<lparr>p_cwd := cwd, p_state := RUNNABLE\<rparr>) s')"
    if w: "st (booting ?t NPROC p) s'" and p: "p < NPROC" for p cwd and s' :: "'a file_state_scheme"
  proof -
    from w have w': "at_work ?t NPROC None {(p, USED)} (procs s') (curp s') (nextpid s') None" "initproc s' = Some p"
      by (auto simp: booting_def)
    from becomes_step[OF at_workD[OF w'(1), THEN conjunct1] ptrans.first[OF p]] at_work_state[OF w'(1)] w'(2)
    have "becomes ?t ((procs s')(p := (procs s' p)\<lparr>p_cwd := cwd, p_state := RUNNABLE\<rparr>)) (curp s') (nextpid s') (Some p)" by simp
    from becomes_ptable[OF this pt] show ?thesis by (simp add: w'(2))
  qed
  show ?thesis
    unfolding userinit_def
    apply (rule made_then[OF s])
    subgoal by simp
    subgoal premises prems for p s'
    proof -
      have "st (booting ?t NPROC p) (s'\<lparr>initproc := Some p\<rparr>)"
        using prems(2) at_workD[OF prems(2)] by (simp add: booting_def)
      then show ?thesis
        by (simp only: option.case Let_def)
          (rule bo.vc_st[where t = ?t and c = NPROC and p = p] keeps_op
            | (simp only: ensures_simps, rule last, assumption)
            | (simp add: bo.keep_fields same_id_def tf_set_def prems; fail))+
    qed
    done
qed

section \<open>Killing process 0\<close>

definition killed_slot :: "nat \<Rightarrow> (nat \<Rightarrow> proc) \<Rightarrow> nat \<Rightarrow> int \<Rightarrow> nat option \<Rightarrow> bool" where
  "killed_slot p ps cur n i \<longleftrightarrow> p_killed (ps p)"

interpretation ks: memory_contract "killed_slot p" for p .

lemma allocproc_killed:
  assumes "List.find (\<lambda>p. p_state (procs s p) = UNUSED) [0..<NPROC] = Some p" "p_killed (procs s p)"
  shows "ensures (\<lambda>(q, s'). q = None \<or> q = Some p \<and> killed p s') (allocproc s)"
  unfolding allocproc_def assms(1) option.case allocpid_def Let_def prod.case
  by ((rule ensures_any, (simp; fail)) | rule ks.vc_st[where p = p] ensures_if keeps_op
      | (simp add: killed_slot_def killed_def assms(2); fail))+



end
