(* ===== verification/SpinLock.thy ===== *)
theory SpinLock
  imports KState
begin

text \<open>
  Spin locks and the interrupt flag of a CPU, \<^verbatim>\<open>kernel/spinlock.c\<close>, with several CPUs. A CPU
  is its number; a lock is its address, a number. \<^verbatim>\<open>acquire\<close> and \<^verbatim>\<open>release\<close> are cut at
  their accesses to shared memory: the atomic swap on \<^verbatim>\<open>lk->locked\<close>, the store to
  \<^verbatim>\<open>lk->cpu\<close>, the atomic store of zero. The relation \<open>cpu_step\<close> interleaves these steps of
  all CPUs in any order. The main results are that two CPUs are never in critical sections of
  the same lock, that a CPU in a critical section has its interrupts off, and that the
  panics of \<^verbatim>\<open>release\<close> and \<^verbatim>\<open>pop_off\<close> are not reached by CPUs that release what they hold.
\<close>

record spinlock =
  lk_locked :: bool
  lk_cpu :: "nat option"

record cpu =
  noff :: int
  intena :: bool
  sie :: bool

record smp =
  cpus :: "nat \<Rightarrow> cpu"
  lks :: "nat \<Rightarrow> spinlock"

definition upd_cpu :: "nat \<Rightarrow> (cpu \<Rightarrow> cpu) \<Rightarrow> smp \<Rightarrow> smp" where
  "upd_cpu c f m = m\<lparr>cpus := (cpus m)(c := f (cpus m c))\<rparr>"

definition upd_lk :: "nat \<Rightarrow> (spinlock \<Rightarrow> spinlock) \<Rightarrow> smp \<Rightarrow> smp" where
  "upd_lk l f m = m\<lparr>lks := (lks m)(l := f (lks m l))\<rparr>"

section \<open>Operations\<close>

definition initlock :: "nat \<Rightarrow> smp \<Rightarrow> smp" where
  "initlock l m = upd_lk l (\<lambda>x. x\<lparr>lk_locked := False, lk_cpu := None\<rparr>) m"

definition holding :: "nat \<Rightarrow> nat \<Rightarrow> smp \<Rightarrow> bool" where
  "holding c l m \<longleftrightarrow> lk_locked (lks m l) \<and> lk_cpu (lks m l) = Some c"

definition push_off :: "nat \<Rightarrow> smp \<Rightarrow> smp" where
  "push_off c m =
    (let old = sie (cpus m c);
         m = upd_cpu c (\<lambda>x. x\<lparr>sie := False\<rparr>) m;
         m = (if noff (cpus m c) = 0 then upd_cpu c (\<lambda>x. x\<lparr>intena := old\<rparr>) m else m)
     in upd_cpu c (\<lambda>x. x\<lparr>noff := noff x + 1\<rparr>) m)"

definition pop_off :: "nat \<Rightarrow> smp \<Rightarrow> smp res" where
  "pop_off c m =
    (if sie (cpus m c) then Panic ''pop_off - interruptible''
     else if noff (cpus m c) < 1 then Panic ''pop_off''
     else
       let m = upd_cpu c (\<lambda>x. x\<lparr>noff := noff x - 1\<rparr>) m in
       Ok (if noff (cpus m c) = 0 \<and> intena (cpus m c) then upd_cpu c (\<lambda>x. x\<lparr>sie := True\<rparr>) m else m))"

text \<open>\<open>acquire\<close>: up to the loop; one turn of the loop, which tells whether the lock was taken;
  after the loop.\<close>

definition acquire_begin :: "nat \<Rightarrow> nat \<Rightarrow> smp \<Rightarrow> smp res" where
  "acquire_begin c l m =
    (let m = push_off c m in if holding c l m then Panic ''acquire'' else Ok m)"

definition acquire_swap :: "nat \<Rightarrow> smp \<Rightarrow> bool \<times> smp" where
  "acquire_swap l m = (\<not> lk_locked (lks m l), upd_lk l (\<lambda>x. x\<lparr>lk_locked := True\<rparr>) m)"

definition acquire_end :: "nat \<Rightarrow> nat \<Rightarrow> smp \<Rightarrow> smp" where
  "acquire_end c l m = upd_lk l (\<lambda>x. x\<lparr>lk_cpu := Some c\<rparr>) m"

text \<open>The whole function with no other CPU running: the loop ends at once or never.\<close>

definition acquire :: "nat \<Rightarrow> nat \<Rightarrow> smp \<Rightarrow> smp res" where
  "acquire c l m =
    and_then (acquire_begin c l m) (\<lambda>m.
      let (got, m) = acquire_swap l m in if got then Ok (acquire_end c l m) else Diverge)"

text \<open>\<open>release\<close>: the test and the store to \<^verbatim>\<open>lk->cpu\<close>; the release of the lock.\<close>

definition release_begin :: "nat \<Rightarrow> nat \<Rightarrow> smp \<Rightarrow> smp res" where
  "release_begin c l m =
    (if \<not> holding c l m then Panic ''release'' else Ok (upd_lk l (\<lambda>x. x\<lparr>lk_cpu := None\<rparr>) m))"

definition release_end :: "nat \<Rightarrow> nat \<Rightarrow> smp \<Rightarrow> smp res" where
  "release_end c l m = pop_off c (upd_lk l (\<lambda>x. x\<lparr>lk_locked := False\<rparr>) m)"

definition release :: "nat \<Rightarrow> nat \<Rightarrow> smp \<Rightarrow> smp res" where
  "release c l m = and_then (release_begin c l m) (\<lambda>m. release_end c l m)"

text \<open>The tests \<^verbatim>\<open>sched\<close> of \<^verbatim>\<open>proc.c\<close> makes before it switches: the lock of the process is
  held, it is the only one, the process is no longer running, interrupts are off.\<close>

definition sched_checks :: "nat \<Rightarrow> nat \<Rightarrow> procstate \<Rightarrow> smp \<Rightarrow> unit res" where
  "sched_checks c plock st m =
    (if \<not> holding c plock m then Panic ''sched p->lock''
     else if noff (cpus m c) \<noteq> 1 then Panic ''sched locks''
     else if st = RUNNING then Panic ''sched running''
     else if sie (cpus m c) then Panic ''sched interruptible''
     else Ok ())"

text \<open>The locking of \<^verbatim>\<open>sleep(chan, lk)\<close> before the switch.\<close>

definition sleep_locks :: "nat \<Rightarrow> nat \<Rightarrow> nat \<Rightarrow> smp \<Rightarrow> smp res" where
  "sleep_locks c plock lk m =
    and_then (acquire c plock m) (\<lambda>m.
    and_then (release c lk m) (\<lambda>m.
    and_then (sched_checks c plock SLEEPING m) (\<lambda>_. Ok m)))"

section \<open>Interleavings\<close>

text \<open>Where a CPU is in \<open>acquire\<close> or \<open>release\<close>, and the locks whose critical sections it is in.\<close>

datatype pc = Running | Spinning nat | Marking nat | Releasing nat

record threads =
  machine :: smp
  pcs :: "nat \<Rightarrow> pc"
  held :: "nat \<Rightarrow> nat list"

definition boot :: "threads" where
  "boot = \<lparr>machine = \<lparr>cpus = (\<lambda>_. \<lparr>noff = 0, intena = False, sie = False\<rparr>),
             lks = (\<lambda>_. \<lparr>lk_locked = False, lk_cpu = None\<rparr>)\<rparr>,
           pcs = (\<lambda>_. Running), held = (\<lambda>_. [])\<rparr>"

inductive cpu_step :: "threads \<Rightarrow> threads \<Rightarrow> bool" where
  intr_on: "pcs t c = Running \<Longrightarrow> held t c = [] \<Longrightarrow>
    cpu_step t (t\<lparr>machine := upd_cpu c (\<lambda>x. x\<lparr>sie := True\<rparr>) (machine t)\<rparr>)"
| begin_acquire: "pcs t c = Running \<Longrightarrow> acquire_begin c l (machine t) = Ok m \<Longrightarrow>
    cpu_step t (t\<lparr>machine := m, pcs := (pcs t)(c := Spinning l)\<rparr>)"
| spin: "pcs t c = Spinning l \<Longrightarrow> acquire_swap l (machine t) = (False, m) \<Longrightarrow>
    cpu_step t (t\<lparr>machine := m\<rparr>)"
| take_lock: "pcs t c = Spinning l \<Longrightarrow> acquire_swap l (machine t) = (True, m) \<Longrightarrow>
    cpu_step t (t\<lparr>machine := m, pcs := (pcs t)(c := Marking l)\<rparr>)"
| mark: "pcs t c = Marking l \<Longrightarrow>
    cpu_step t (t\<lparr>machine := acquire_end c l (machine t), pcs := (pcs t)(c := Running),
      held := (held t)(c := l # held t c)\<rparr>)"
| begin_release: "pcs t c = Running \<Longrightarrow> l \<in> set (held t c) \<Longrightarrow> release_begin c l (machine t) = Ok m \<Longrightarrow>
    cpu_step t (t\<lparr>machine := m, pcs := (pcs t)(c := Releasing l), held := (held t)(c := remove1 l (held t c))\<rparr>)"
| end_release: "pcs t c = Releasing l \<Longrightarrow> release_end c l (machine t) = Ok m \<Longrightarrow>
    cpu_step t (t\<lparr>machine := m, pcs := (pcs t)(c := Running)\<rparr>)"

text \<open>The flag of lock \<open>l\<close> is set on behalf of CPU \<open>c\<close>: it has taken the lock and not yet given
  it up.\<close>

definition owns :: "threads \<Rightarrow> nat \<Rightarrow> nat \<Rightarrow> bool" where
  "owns t c l \<longleftrightarrow> pcs t c = Marking l \<or> pcs t c = Releasing l \<or> l \<in> set (held t c)"

text \<open>How many times the CPU has called \<^verbatim>\<open>push_off\<close>.\<close>

definition depth :: "threads \<Rightarrow> nat \<Rightarrow> nat" where
  "depth t c = (if pcs t c = Running then 0 else 1) + length (held t c)"

definition own_inv :: "threads \<Rightarrow> bool" where
  "own_inv t \<longleftrightarrow> (\<forall>c c' l. owns t c l \<longrightarrow> owns t c' l \<longrightarrow> c = c') \<and>
     (\<forall>c l. pcs t c = Marking l \<or> pcs t c = Releasing l \<longrightarrow> l \<notin> set (held t c)) \<and>
     (\<forall>c. distinct (held t c))"

definition flag_inv :: "threads \<Rightarrow> bool" where
  "flag_inv t \<longleftrightarrow> (\<forall>l. lk_locked (lks (machine t) l) \<longleftrightarrow> (\<exists>c. owns t c l)) \<and>
     (\<forall>c l. lk_cpu (lks (machine t) l) = Some c \<longleftrightarrow> l \<in> set (held t c))"

definition cpu_inv :: "threads \<Rightarrow> bool" where
  "cpu_inv t \<longleftrightarrow> (\<forall>c. noff (cpus (machine t) c) = int (depth t c) \<and>
     (depth t c > 0 \<longrightarrow> \<not> sie (cpus (machine t) c)))"

definition lock_inv :: "threads \<Rightarrow> bool" where
  "lock_inv t \<longleftrightarrow> own_inv t \<and> flag_inv t \<and> cpu_inv t"

section \<open>The invariant\<close>

lemmas lock_ops = push_off_def pop_off_def acquire_begin_def acquire_swap_def acquire_end_def
  release_begin_def release_end_def upd_cpu_def upd_lk_def Let_def holding_def

lemma lock_inv_boot: "lock_inv boot"
  by (simp add: lock_inv_def own_inv_def flag_inv_def cpu_inv_def boot_def owns_def depth_def)

lemma inv_intr_on:
  assumes "lock_inv t" "pcs t c = Running" "held t c = []"
  shows "lock_inv (t\<lparr>machine := upd_cpu c (\<lambda>x. x\<lparr>sie := True\<rparr>) (machine t)\<rparr>)"
  using assms by (auto simp: lock_inv_def own_inv_def flag_inv_def cpu_inv_def owns_def depth_def upd_cpu_def)

lemma inv_begin_acquire:
  assumes inv: "lock_inv t" and pc: "pcs t c = Running" and ab: "acquire_begin c l (machine t) = Ok m"
  shows "lock_inv (t\<lparr>machine := m, pcs := (pcs t)(c := Spinning l)\<rparr>)" (is "lock_inv ?t")
proof -
  have m: "lks m = lks (machine t)"
    "cpus m = (cpus (machine t))(c := \<lparr>noff = noff (cpus (machine t) c) + 1,
       intena = (if noff (cpus (machine t) c) = 0 then sie (cpus (machine t) c) else intena (cpus (machine t) c)),
       sie = False\<rparr>)"
    using ab by (auto simp: lock_ops split: if_splits)
  have o: "owns ?t = owns t" using pc by (auto simp: owns_def fun_eq_iff)
  have "own_inv ?t" using inv pc unfolding lock_inv_def own_inv_def o by auto
  moreover have "flag_inv ?t" using inv unfolding lock_inv_def flag_inv_def o by (simp add: m)
  moreover have "cpu_inv ?t" using inv pc by (auto simp: lock_inv_def cpu_inv_def depth_def m)
  ultimately show ?thesis by (simp add: lock_inv_def)
qed

lemma swap_lks:
  "acquire_swap l m0 = (got, m) \<Longrightarrow>
     cpus m = cpus m0 \<and> got = (\<not> lk_locked (lks m0 l)) \<and>
     (\<forall>k. lk_cpu (lks m k) = lk_cpu (lks m0 k) \<and> lk_locked (lks m k) = (k = l \<or> lk_locked (lks m0 k)))"
  by (auto simp: lock_ops split: if_splits)

lemma inv_spin:
  assumes inv: "lock_inv t" and sw: "acquire_swap l (machine t) = (False, m)"
  shows "lock_inv (t\<lparr>machine := m\<rparr>)" (is "lock_inv ?t")
proof -
  note m = swap_lks[OF sw]
  have o: "owns ?t = owns t" by (auto simp: owns_def fun_eq_iff)
  have "own_inv ?t" using inv unfolding lock_inv_def own_inv_def o by auto
  moreover have "flag_inv ?t" using inv m unfolding lock_inv_def flag_inv_def o by auto
  moreover have "cpu_inv ?t" using inv m by (simp add: lock_inv_def cpu_inv_def depth_def)
  ultimately show ?thesis by (simp add: lock_inv_def)
qed

lemma inv_take_lock:
  assumes inv: "lock_inv t" and pc: "pcs t c = Spinning l" and sw: "acquire_swap l (machine t) = (True, m)"
  shows "lock_inv (t\<lparr>machine := m, pcs := (pcs t)(c := Marking l)\<rparr>)" (is "lock_inv ?t")
proof -
  note m = swap_lks[OF sw]
  have o: "owns ?t c' k \<longleftrightarrow> owns t c' k \<or> c' = c \<and> k = l" for c' k
    using pc by (auto simp: owns_def)
  have free: "\<not> owns t c' l" for c' using inv m unfolding lock_inv_def flag_inv_def by blast
  then have nh: "l \<notin> set (held t c)" by (simp add: owns_def)
  have "own_inv ?t" unfolding own_inv_def o
    using inv free nh by (auto simp: lock_inv_def own_inv_def)
  moreover have "flag_inv ?t" unfolding flag_inv_def o
    using inv m by (auto simp: lock_inv_def flag_inv_def)
  moreover have "cpu_inv ?t" using inv pc m by (auto simp: lock_inv_def cpu_inv_def depth_def)
  ultimately show ?thesis by (simp add: lock_inv_def)
qed

lemma inv_mark:
  assumes inv: "lock_inv t" and pc: "pcs t c = Marking l"
  shows "lock_inv (t\<lparr>machine := acquire_end c l (machine t), pcs := (pcs t)(c := Running),
      held := (held t)(c := l # held t c)\<rparr>)" (is "lock_inv ?t")
proof -
  have o: "owns ?t = owns t" using pc by (auto simp: owns_def fun_eq_iff)
  have own: "owns t c l" using pc by (simp add: owns_def)
  have uniq: "l \<in> set (held t c') \<Longrightarrow> False" for c'
    using inv pc own unfolding lock_inv_def own_inv_def owns_def by metis
  have "own_inv ?t" using inv pc uniq unfolding lock_inv_def own_inv_def o by auto
  moreover have "flag_inv ?t" using inv uniq unfolding lock_inv_def flag_inv_def o
    by (auto simp: lock_ops)
  moreover have "cpu_inv ?t" using inv pc
    by (auto simp: lock_inv_def cpu_inv_def depth_def lock_ops)
  ultimately show ?thesis by (simp add: lock_inv_def)
qed

lemma inv_begin_release:
  assumes inv: "lock_inv t" and pc: "pcs t c = Running" and l: "l \<in> set (held t c)"
    and rb: "release_begin c l (machine t) = Ok m"
  shows "lock_inv (t\<lparr>machine := m, pcs := (pcs t)(c := Releasing l), held := (held t)(c := remove1 l (held t c))\<rparr>)"
    (is "lock_inv ?t")
proof -
  have m: "cpus m = cpus (machine t)" "lks m = (lks (machine t))(l := (lks (machine t) l)\<lparr>lk_cpu := None\<rparr>)"
    using rb by (auto simp: lock_ops split: if_splits)
  have d: "distinct (held t c)" using inv by (simp add: lock_inv_def own_inv_def)
  have "0 < length (held t c)" using l by auto
  then have len: "length (held t c) = Suc (length (remove1 l (held t c)))" using l by (simp add: length_remove1)
  have o: "owns ?t = owns t" using pc l d by (auto simp: owns_def fun_eq_iff)
  have own: "owns t c l" using l by (simp add: owns_def)
  have uniq: "l \<in> set (held t c') \<Longrightarrow> c' = c" for c'
    using inv own unfolding lock_inv_def own_inv_def owns_def by metis
  have "own_inv ?t" using inv pc d unfolding lock_inv_def own_inv_def o by auto
  moreover have "flag_inv ?t" using inv uniq d unfolding lock_inv_def flag_inv_def o
    by (auto simp: m)
  moreover have "depth ?t k = depth t k" for k using pc len by (simp add: depth_def del: length_remove1)
  then have "cpu_inv ?t" using inv by (simp add: lock_inv_def cpu_inv_def m)
  ultimately show ?thesis by (simp add: lock_inv_def)
qed

lemma inv_end_release:
  assumes inv: "lock_inv t" and pc: "pcs t c = Releasing l" and re: "release_end c l (machine t) = Ok m"
  shows "lock_inv (t\<lparr>machine := m, pcs := (pcs t)(c := Running)\<rparr>)" (is "lock_inv ?t")
proof -
  have m: "lks m = (lks (machine t))(l := (lks (machine t) l)\<lparr>lk_locked := False\<rparr>)"
    "\<And>c'. noff (cpus m c') = (if c' = c then noff (cpus (machine t) c) - 1 else noff (cpus (machine t) c'))"
    "\<And>c'. sie (cpus m c') \<Longrightarrow> c' = c \<and> noff (cpus m c') = 0 \<or> sie (cpus (machine t) c') \<and> c' \<noteq> c"
    using re by (auto simp: lock_ops split: if_splits)
  have own: "owns t c l" using pc by (simp add: owns_def)
  have uniq: "owns t c' l \<Longrightarrow> c' = c" for c'
    using inv own unfolding lock_inv_def own_inv_def by metis
  have nh: "l \<notin> set (held t c)" using inv pc unfolding lock_inv_def own_inv_def by metis
  have o: "owns ?t c' k \<longleftrightarrow> owns t c' k \<and> \<not> (c' = c \<and> k = l)" for c' k
    using pc nh by (auto simp: owns_def)
  have "own_inv ?t" unfolding own_inv_def o using inv by (auto simp: lock_inv_def own_inv_def)
  moreover have "flag_inv ?t" unfolding flag_inv_def o
    using inv uniq by (auto simp: lock_inv_def flag_inv_def m(1))
  moreover have "cpu_inv ?t" unfolding cpu_inv_def
  proof
    fix k
    have k: "noff (cpus (machine t) k) = int (depth t k)" "depth t k > 0 \<longrightarrow> \<not> sie (cpus (machine t) k)"
      using inv by (simp_all add: lock_inv_def cpu_inv_def)
    have n: "noff (cpus m k) = int (depth ?t k)" using k(1) pc by (cases "k = c") (simp_all add: m(2) depth_def)
    moreover have "\<not> sie (cpus m k)" if "0 < depth ?t k"
      using m(3)[of k] n k(2) that by (cases "k = c") (auto simp: depth_def)
    ultimately show "noff (cpus (machine ?t) k) = int (depth ?t k) \<and>
        (0 < depth ?t k \<longrightarrow> \<not> sie (cpus (machine ?t) k))" by simp
  qed
  ultimately show ?thesis by (simp add: lock_inv_def)
qed

lemma lock_inv_step: "cpu_step t t' \<Longrightarrow> lock_inv t \<Longrightarrow> lock_inv t'"
  by (induction rule: cpu_step.induct)
    (simp_all add: inv_intr_on inv_begin_acquire inv_spin inv_take_lock inv_mark inv_begin_release inv_end_release)


inductive reach :: "threads \<Rightarrow> bool" where
  reach_boot: "reach boot"
| reach_step: "reach t \<Longrightarrow> cpu_step t t' \<Longrightarrow> reach t'"

lemma reach_inv: "reach t \<Longrightarrow> lock_inv t"
  by (induction rule: reach.induct) (auto intro: lock_inv_boot lock_inv_step)

text \<open>C10: Mutual exclusion: however the steps of \<^verbatim>\<open>acquire\<close> and \<^verbatim>\<open>release\<close> of all CPUs are
  interleaved, at most one CPU is in the critical section of a lock, and a CPU in a critical
  section (or on the way in or out) has its interrupts off, with \<^verbatim>\<open>noff\<close> equal to the number of
  its \<^verbatim>\<open>push_off\<close> calls not yet undone.\<close>

theorem mutual_exclusion:
  assumes "reach t"
  shows "(l \<in> set (held t c) \<longrightarrow> l \<in> set (held t c') \<longrightarrow> c = c') \<and>
    noff (cpus (machine t) c) = int (depth t c) \<and>
    (held t c \<noteq> [] \<longrightarrow> \<not> sie (cpus (machine t) c))"
proof -
  have "lock_inv t" using assms by (rule reach_inv)
  then have i: "own_inv t" "cpu_inv t" by (simp_all add: lock_inv_def)
  have "held t c \<noteq> [] \<longrightarrow> 0 < depth t c" by (simp add: depth_def)
  then show ?thesis using i unfolding own_inv_def owns_def cpu_inv_def by blast
qed

theorem mutual_exclusion_witness:
  "\<exists>t. reach t \<and> held t 0 = [5] \<and> noff (cpus (machine t) 0) = int (depth t 0) \<and>
     \<not> sie (cpus (machine t) 0)"
proof -
  let ?m0 = "push_off 0 (machine boot)"
  let ?t1 = "boot\<lparr>machine := ?m0, pcs := (pcs boot)(0 := Spinning 5)\<rparr>"
  let ?m1 = "snd (acquire_swap 5 ?m0)"
  let ?t2 = "?t1\<lparr>machine := ?m1, pcs := (pcs ?t1)(0 := Marking 5)\<rparr>"
  let ?t3 = "?t2\<lparr>machine := acquire_end 0 5 (machine ?t2), pcs := (pcs ?t2)(0 := Running),
      held := (held ?t2)(0 := 5 # held ?t2 0)\<rparr>"
  have "reach ?t1"
    by (rule reach_step[OF reach_boot cpu_step.begin_acquire]) (simp_all add: boot_def lock_ops)
  then have "reach ?t2"
    by (rule reach_step[OF _ cpu_step.take_lock]) (simp_all add: boot_def lock_ops)
  then have r: "reach ?t3" by (rule reach_step[OF _ cpu_step.mark]) simp
  have h: "held ?t3 0 = [5]" by (simp add: boot_def)
  from mutual_exclusion[OF r, of 5 0 0] h show ?thesis
    by (intro exI[of _ ?t3] conjI r h) simp_all
qed

text \<open>C11: No CPU that releases a lock it holds runs into a panic of \<^verbatim>\<open>release\<close> or
  \<^verbatim>\<open>pop_off\<close>: both halves of the release succeed. And a CPU that asks for a lock does not run
  into the panic of \<^verbatim>\<open>acquire\<close> unless it already holds it.\<close>

theorem locks_no_panic:
  assumes "reach t"
  shows "(pcs t c = Running \<longrightarrow> l \<in> set (held t c) \<longrightarrow> (\<exists>m. release_begin c l (machine t) = Ok m)) \<and>
    (pcs t c = Releasing l \<longrightarrow> (\<exists>m. release_end c l (machine t) = Ok m)) \<and>
    (l \<notin> set (held t c) \<longrightarrow> (\<exists>m. acquire_begin c l (machine t) = Ok m))"
proof -
  have "lock_inv t" using assms by (rule reach_inv)
  then have i: "flag_inv t" "cpu_inv t" by (simp_all add: lock_inv_def)
  have h: "holding c l (machine t) \<longleftrightarrow> l \<in> set (held t c)"
    using i(1) unfolding flag_inv_def holding_def owns_def by blast
  have "lks (push_off c (machine t)) = lks (machine t)" by (simp add: lock_ops)
  then have h': "holding c l (push_off c (machine t)) \<longleftrightarrow> l \<in> set (held t c)"
    using h by (simp add: holding_def)
  have "\<exists>m. release_end c l (machine t) = Ok m" if "pcs t c = Releasing l"
  proof -
    have "noff (cpus (machine t) c) = int (depth t c) \<and> (depth t c > 0 \<longrightarrow> \<not> sie (cpus (machine t) c))"
      using i(2) by (simp add: cpu_inv_def)
    moreover have "depth t c > 0" using that by (simp add: depth_def)
    ultimately show ?thesis by (simp add: release_end_def pop_off_def upd_lk_def Let_def)
  qed
  then show ?thesis using h h' by (auto simp: release_begin_def acquire_begin_def Let_def)
qed

theorem locks_no_panic_witness: "\<exists>m. acquire_begin 0 3 (machine boot) = Ok m"
  using locks_no_panic[OF reach_boot, of 0 3] by (simp add: boot_def)

text \<open>The lock protocol of \<^verbatim>\<open>sleep\<close>: a thread that holds just the lock it passes, on a CPU with
  nothing else held, takes its process lock, gives up the other and passes every test of
  \<^verbatim>\<open>sched\<close>.\<close>

lemma sleep_passes_sched:
  assumes "plock \<noteq> lk" "holding c lk m" "\<not> lk_locked (lks m plock)"
    and "noff (cpus m c) = 1" "\<not> sie (cpus m c)"
  shows "\<exists>m'. sleep_locks c plock lk m = Ok m' \<and> holding c plock m' \<and> \<not> lk_locked (lks m' lk)"
  using assms by (simp add: sleep_locks_def acquire_def release_def sched_checks_def lock_ops)

end
