(* ===== verification/UserMem.thy ===== *)
theory UserMem
  imports PageTable
begin

text \<open>
  Copies between the kernel and user memory refine reads and writes of the abstract address
  space. \<open>user_pa T s va\<close> is the physical address of the user byte at \<open>va\<close>, \<open>None\<close> when user
  code may not access it. \<open>copyin\<close> and \<open>copyout\<close> of \<^verbatim>\<open>vm.c\<close> go page by page through
  \<open>walkaddr\<close>; the results here are about bytes.
\<close>

section \<open>Translation of user addresses\<close>

definition user_pa :: "ptree \<Rightarrow> 'a kcore_scheme \<Rightarrow> u64 \<Rightarrow> u64 option" where
  "user_pa T s va =
    (let w = pte_of T s va in
     if va < MAXVA \<and> w AND PTE_V \<noteq> 0 \<and> w AND PTE_U \<noteq> 0 \<and> PTE2PA w \<noteq> 0
     then Some (PTE2PA w + (va - PGROUNDDOWN va)) else None)"

lemma round_below [simp]: "PGROUNDDOWN va < MAXVA \<longleftrightarrow> va < MAXVA"
proof -
  have "4096 * (unat va div 4096) < 2 ^ 38 \<longleftrightarrow> unat va < 2 ^ 38"
  proof
    assume "4096 * (unat va div 4096) < 2 ^ 38"
    then have "unat va div 4096 < 2 ^ 26" by simp
    then show "unat va < 2 ^ 38" by (simp add: div_less_iff_less_mult)
  qed simp
  then show ?thesis by (simp add: word_less_nat_alt unat_PGROUNDDOWN)
qed

lemma pte_of_round [simp]: "pte_of T s (PGROUNDDOWN va) = pte_of T s va"
  by (simp add: pte_of_def key_def split: option.split)

lemma walkaddr_user:
  assumes "pt_ok T s" "T [] = Some root"
  shows "user_pa T s va = (let pa0 = walkaddr root (PGROUNDDOWN va) s in
    if pa0 = 0 then None else Some (pa0 + (va - PGROUNDDOWN va)))"
proof (cases "va < MAXVA")
  case True
  then show ?thesis
    using walkaddr_spec[OF assms, of "PGROUNDDOWN va"] by (simp add: user_pa_def Let_def)
next
  case False
  then have "\<not> PGROUNDDOWN va < MAXVA" by (simp only: round_below not_False_eq_True)
  then have "MAXVA \<le> PGROUNDDOWN va" by (simp only: not_less)
  then have "walkaddr root (PGROUNDDOWN va) s = 0" unfolding walkaddr_def by (rule if_P)
  then show ?thesis using False by (simp add: user_pa_def)
qed

text \<open>The rest of a page.\<close>

lemma page_rest:
  fixes va :: u64
  defines "r \<equiv> unat (PGSIZE - (va - PGROUNDDOWN va))"
  shows "0 < r" "r \<le> 4096" "PGROUNDDOWN va + PGSIZE = va + of_nat r"
    and "j < r \<Longrightarrow> PGROUNDDOWN (va + of_nat j) = PGROUNDDOWN va"
proof -
  have le: "PGROUNDDOWN va \<le> va" by (simp add: word_le_nat_alt unat_PGROUNDDOWN)
  have d: "unat (va - PGROUNDDOWN va) = unat va mod 4096"
    using le by (simp add: unat_sub unat_PGROUNDDOWN minus_mult_div_eq_mod)
  have dl: "unat va mod 4096 < 4096" by simp
  have r: "r = 4096 - unat va mod 4096"
    unfolding r_def using dl by (subst unat_sub) (simp_all add: word_le_nat_alt d)
  show "0 < r" "r \<le> 4096" using r dl by simp_all
  have "PGSIZE - (va - PGROUNDDOWN va) = of_nat r" by (simp add: r_def)
  then show "PGROUNDDOWN va + PGSIZE = va + of_nat r" by (simp add: algebra_simps)
  assume j: "j < r"
  have top: "unat (PGROUNDDOWN va) + 4096 \<le> 2 ^ 64" by (rule aligned_top) simp
  have va: "unat va = unat (PGROUNDDOWN va) + unat va mod 4096" by (simp add: unat_PGROUNDDOWN)
  have u: "unat (va + of_nat j) = unat va + j"
    using j r top va by (intro unat_add_of_nat) simp
  have "(unat va + j) div 4096 = unat va div 4096"
  proof -
    have "unat va + j = 4096 * (unat va div 4096) + (unat va mod 4096 + j)" by simp
    moreover have "unat va mod 4096 + j < 4096" using j r by simp
    ultimately show ?thesis by (metis div_mult_self4 div_less add_0 zero_neq_numeral add.commute)
  qed
  then show "PGROUNDDOWN (va + of_nat j) = PGROUNDDOWN va"
    by (simp add: word_unat_eq_iff unat_PGROUNDDOWN u)
qed

lemma user_pa_rest:
  assumes "j < unat (PGSIZE - (va - PGROUNDDOWN va))" "va < MAXVA"
  shows "user_pa T s (va + of_nat j) = map_option (\<lambda>p. p + of_nat j) (user_pa T s va)"
proof -
  note r = page_rest(4)[OF assms(1)]
  have p: "pte_of T s (va + of_nat j) = pte_of T s va"
    using pte_of_round[of T s "va + of_nat j"] pte_of_round[of T s va] by (simp add: r)
  have b: "va + of_nat j < MAXVA" using round_below[of "va + of_nat j"] assms(2) by (simp add: r)
  show ?thesis using assms(2) b by (simp add: user_pa_def p r Let_def algebra_simps)
qed

lemma user_pa_below: "user_pa T s va = Some p \<Longrightarrow> va < MAXVA"
  by (simp add: user_pa_def Let_def split: if_splits)


section \<open>Reading\<close>

definition user_byte :: "ptree \<Rightarrow> 'a kcore_scheme \<Rightarrow> u64 \<Rightarrow> byte" where
  "user_byte T s va = mem s (the (user_pa T s va))"

definition readable :: "ptree \<Rightarrow> 'a kcore_scheme \<Rightarrow> u64 \<Rightarrow> nat \<Rightarrow> bool" where
  "readable T s a n \<longleftrightarrow> (\<forall>j < n. user_pa T s (a + of_nat j) \<noteq> None)"

definition user_bytes :: "ptree \<Rightarrow> 'a kcore_scheme \<Rightarrow> u64 \<Rightarrow> nat \<Rightarrow> byte list" where
  "user_bytes T s a n = map (\<lambda>j. user_byte T s (a + of_nat j)) [0..<n]"

lemma user_bytes_add:
  "user_bytes T s a (k + n) = user_bytes T s a k @ user_bytes T s (a + of_nat k) n"
proof -
  have u: "[0..<k + n] = [0..<k] @ map (\<lambda>j. j + k) [0..<n]"
    unfolding map_add_upt upt_add_eq_append[of 0 k n, simplified] by (simp only: add.commute)
  have e: "a + of_nat (j + k) = a + of_nat k + of_nat j" for j by simp
  show ?thesis unfolding user_bytes_def u map_append map_map comp_def e by (rule refl)
qed

lemma mem_get_chunk:
  assumes "n \<le> unat (PGSIZE - (va - PGROUNDDOWN va))" "user_pa T s va = Some p"
  shows "mem_get p n (mem s) = user_bytes T s va n"
  using assms user_pa_rest[of _ va T s] user_pa_below[OF assms(2)]
  by (simp add: mem_get_def user_bytes_def user_byte_def)

lemma readable_chunk:
  assumes "n \<le> unat (PGSIZE - (va - PGROUNDDOWN va))" "user_pa T s va = Some p"
  shows "readable T s va n"
  using assms user_pa_rest[of _ va T s] user_pa_below[OF assms(2)] by (simp add: readable_def)

lemma readable_add: "readable T s a (k + n) \<longleftrightarrow> readable T s a k \<and> readable T s (a + of_nat k) n"
proof -
  have "(\<forall>j < k + n. P j) \<longleftrightarrow> (\<forall>j < k. P j) \<and> (\<forall>j < n. P (k + j))" for P :: "nat \<Rightarrow> bool"
    by (metis add.commute less_diff_conv2 le_add_diff_inverse2 linorder_not_less nat_add_left_cancel_less trans_less_add1)
  then show ?thesis by (simp add: readable_def add.assoc)
qed

text \<open>\<open>copyin\<close> succeeds exactly when every byte of the range is accessible, and then delivers
  the bytes of the range.\<close>

lemma copyin_spec:
  assumes pt: "pt_ok T s" "T [] = Some root"
  shows "\<exists>bs. copyin root a n s = Ok (if readable T s a n then 0 else -1, bs) \<and>
    (readable T s a n \<longrightarrow> bs = user_bytes T s a n)"
proof -
  let ?I = "\<lambda>(va, len, dst). \<exists>k. k + len = n \<and> readable T s a k \<and> dst = user_bytes T s a k \<and>
    (len \<noteq> 0 \<longrightarrow> va = a + of_nat k)"
  let ?Q = "\<lambda>(r, bs). r = (if readable T s a n then 0 else -1 :: int) \<and>
    (readable T s a n \<longrightarrow> bs = user_bytes T s a n)"
  have "\<exists>r. loop (Suc n) (copyin_step root s) (a, n, []) = Ok r \<and> ?Q r"
  proof (rule loop_rule[where I = ?I and m = "\<lambda>(va, len, dst). len"])
    show "?I (a, n, [])" by (simp add: readable_def user_bytes_def)
    show "(case (a, n, []) of (va, len, dst) \<Rightarrow> len) < Suc n" by simp
    fix st assume "?I st"
    then obtain va len dst k where st: "st = (va, len, dst)" and k: "k + len = n" "readable T s a k"
      "dst = user_bytes T s a k" "len \<noteq> 0 \<longrightarrow> va = a + of_nat k" by (cases st) auto
    show "(\<exists>st'. copyin_step root s st = Ok (Next st') \<and> ?I st' \<and>
        (case st' of (va, len, dst) \<Rightarrow> len) < (case st of (va, len, dst) \<Rightarrow> len)) \<or>
      (\<exists>r. copyin_step root s st = Ok (Done r) \<and> ?Q r)"
    proof (cases "len = 0")
      case True
      then show ?thesis using k by (simp add: st copyin_step_def)
    next
      case False
      then have va: "va = a + of_nat k" using k by simp
      define m where "m = min (unat (PGSIZE - (va - PGROUNDDOWN va))) len"
      have m: "0 < m" "m \<le> len" "m \<le> unat (PGSIZE - (va - PGROUNDDOWN va))"
        using page_rest(1)[of va] False by (simp_all add: m_def)
      have n: "n = k + (m + (len - m))" using k m by simp
      show ?thesis
      proof (cases "user_pa T s va")
        case None
        then have "walkaddr root (PGROUNDDOWN va) s = 0"
          using walkaddr_user[OF pt, of va] by (simp add: Let_def split: if_splits)
        moreover have "\<not> readable T s a n"
        proof
          assume "readable T s a n"
          then have "readable T s va (m + (len - m))" unfolding n readable_add[of T s a k] va by simp
          then show False using None m(1) by (auto simp: readable_def)
        qed
        ultimately show ?thesis using False by (simp add: st copyin_step_def)
      next
        case (Some p)
        then have w: "walkaddr root (PGROUNDDOWN va) s \<noteq> 0"
          "walkaddr root (PGROUNDDOWN va) s + (va - PGROUNDDOWN va) = p"
          using walkaddr_user[OF pt, of va] by (auto simp: Let_def split: if_splits)
        have "copyin_step root s st = Ok (Next (PGROUNDDOWN va + PGSIZE, len - m, dst @ mem_get p m (mem s)))"
          using False w by (simp add: st copyin_step_def m_def Let_def)
        moreover have "?I (PGROUNDDOWN va + PGSIZE, len - m, dst @ mem_get p m (mem s))"
        proof (intro case_prodI exI[of _ "k + m"] conjI impI)
          show "k + m + (len - m) = n" using n by simp
          show "readable T s a (k + m)"
            using k(2) readable_chunk[OF m(3) Some] by (simp add: readable_add va)
          show "dst @ mem_get p m (mem s) = user_bytes T s a (k + m)"
            using mem_get_chunk[OF m(3) Some] by (simp add: user_bytes_add k(3) va)
          assume "len - m \<noteq> 0"
          then have "m = unat (PGSIZE - (va - PGROUNDDOWN va))" by (simp add: m_def split: if_splits)
          then show "PGROUNDDOWN va + PGSIZE = a + of_nat (k + m)"
            unfolding page_rest(3) by (simp add: va add.assoc)
        qed
        ultimately show ?thesis using m(1) False
          by (intro disjI1 exI[of _ "(PGROUNDDOWN va + PGSIZE, len - m, dst @ mem_get p m (mem s))"]) (simp add: st)
      qed
    qed
  qed
  then show ?thesis unfolding copyin_def by fastforce
qed


text \<open>The page tables and the translation depend on memory only.\<close>

lemma pt_ok_mem: "mem s' = mem s \<Longrightarrow> pt_ok T s' = pt_ok T s"
  by (simp add: pt_ok_def)

lemma pte_of_mem: "mem s' = mem s \<Longrightarrow> pte_of T s' va = pte_of T s va"
  by (simp add: pte_of_def split: option.split)

lemma user_pa_mem:
  assumes "mem s' = mem s"
  shows "user_pa T s' va = user_pa T s va"
  by (simp add: user_pa_def pte_of_mem[OF assms])

lemma readable_mem:
  assumes "mem s' = mem s"
  shows "readable T s' a n = readable T s a n"
  by (simp add: readable_def user_pa_mem[OF assms])

lemma user_byte_mem:
  assumes "mem s' = mem s"
  shows "user_byte T s' a = user_byte T s a"
  by (simp add: user_byte_def user_pa_mem[OF assms] assms)

lemma user_bytes_mem:
  assumes "mem s' = mem s"
  shows "user_bytes T s' a n = user_bytes T s a n"
  by (simp add: user_bytes_def user_byte_mem[OF assms])

lemma copyin_mem:
  assumes "mem s' = mem s"
  shows "copyin root a n s' = copyin root a n s"
proof -
  define nxt where "nxt m l va p = (let w = read64 m (p + 8 * PX l va) in
    if w AND PTE_V \<noteq> 0 then Some (PTE2PA w) else None)" for m l va p
  have w: "walk_level l va False p t = (nxt (mem t) l va p, t)" for l va p and t :: "'z kcore_scheme"
    by (simp add: walk_level_def nxt_def Let_def)
  have "walkaddr root va s' = walkaddr root va s" for va
    unfolding walkaddr_def walk_def w prod.case assms by (simp add: assms split: option.split)
  then have "copyin_step root s' = copyin_step root s" by (simp only: copyin_step_def assms)
  then show ?thesis by (simp add: copyin_def)
qed

section \<open>Writing\<close>

text \<open>No user page is a table page, and no two user pages share a frame.\<close>

definition user_frame :: "ptree \<Rightarrow> 'a kcore_scheme \<Rightarrow> u64 \<Rightarrow> u64 option" where
  "user_frame T s va = user_pa T s (PGROUNDDOWN va)"

definition user_ok :: "ptree \<Rightarrow> 'a kcore_scheme \<Rightarrow> bool" where
  "user_ok T s \<longleftrightarrow>
     (\<forall>va p. user_frame T s va = Some p \<longrightarrow> p \<notin> ran T) \<and>
     (\<forall>va vb p. user_frame T s va = Some p \<longrightarrow> user_frame T s vb = Some p \<longrightarrow> PGROUNDDOWN va = PGROUNDDOWN vb)"

lemma user_frame_pa:
  assumes "user_pa T s va = Some p"
  shows "\<exists>f. user_frame T s va = Some f \<and> aligned f \<and> p = f + (va - PGROUNDDOWN va) \<and> p \<in> page f"
proof -
  have f: "user_frame T s va = Some (PTE2PA (pte_of T s va))" "p = PTE2PA (pte_of T s va) + (va - PGROUNDDOWN va)"
    using assms by (auto simp: user_frame_def user_pa_def Let_def split: if_splits)
  have le: "PGROUNDDOWN va \<le> va" by (simp add: word_le_nat_alt unat_PGROUNDDOWN)
  have "unat (va - PGROUNDDOWN va) < 4096"
    using le by (simp add: unat_sub unat_PGROUNDDOWN minus_mult_div_eq_mod)
  then have "p \<in> page (PTE2PA (pte_of T s va))"
    unfolding page_range[OF aligned_PTE2PA] in_range_def f(2) by simp
  then show ?thesis using f by auto
qed

text \<open>Distinct user addresses have distinct physical addresses.\<close>

lemma user_pa_inj:
  assumes "user_ok T s" "user_pa T s va = Some p" "user_pa T s vb = Some p"
  shows "va = vb"
proof -
  from user_frame_pa[OF assms(2)] obtain f where
    f: "user_frame T s va = Some f" "p = f + (va - PGROUNDDOWN va)" "p \<in> page f" by auto
  from user_frame_pa[OF assms(3)] obtain g where
    g: "user_frame T s vb = Some g" "p = g + (vb - PGROUNDDOWN vb)" "p \<in> page g" by auto
  have fg: "f = g" using f(3) g(3) by (simp add: page_def)
  have "\<forall>va vb p. user_frame T s va = Some p \<longrightarrow> user_frame T s vb = Some p \<longrightarrow> PGROUNDDOWN va = PGROUNDDOWN vb"
    using assms(1) unfolding user_ok_def by (rule conjunct2)
  from this[rule_format, OF f(1)[unfolded fg] g(1)] have r: "PGROUNDDOWN va = PGROUNDDOWN vb" .
  have "g + (va - PGROUNDDOWN vb) = g + (vb - PGROUNDDOWN vb)" using f(2) g(2) unfolding fg r by (rule subst)
  then show ?thesis by (simp only: add_left_cancel diff_left_imp_eq) simp
qed

lemma user_ok_mem:
  assumes "mem s' = mem s"
  shows "user_ok T s' = user_ok T s"
  by (simp add: user_ok_def user_frame_def user_pa_mem[OF assms])

text \<open>The memory after the first \<open>k\<close> bytes of \<open>bs\<close> have been stored at the user addresses from
  \<open>a\<close> on.\<close>

definition stored :: "ptree \<Rightarrow> 'a kcore_scheme \<Rightarrow> u64 \<Rightarrow> byte list \<Rightarrow> nat \<Rightarrow> memory" where
  "stored T s a bs k = fold (\<lambda>j m. m(the (user_pa T s (a + of_nat j)) := bs ! j)) [0..<k] (mem s)"

lemma mem_put_fold:
  assumes "length bs \<le> 2 ^ 64"
  shows "mem_put p bs m = fold (\<lambda>j m. m(p + of_nat j := bs ! j)) [0..<length bs] m"
proof -
  have "fold (\<lambda>j m. m(p + of_nat j := bs ! j)) [0..<k] m =
      (\<lambda>x. if unat (x - p) < k then bs ! unat (x - p) else m x)" if "k \<le> length bs" for k
    using that
  proof (induction k)
    case (Suc k)
    have u: "unat (of_nat k :: u64) = k" using Suc.prems assms by (intro unat_of_nat_lt[of "length bs"]) simp_all
    have "x = p + of_nat k \<longleftrightarrow> unat (x - p) = k" for x
    proof
      assume "unat (x - p) = k"
      then have "of_nat k = x - p" by auto
      then show "x = p + of_nat k" by simp
    qed (simp add: u)
    then show ?case using Suc by (auto simp: fun_eq_iff less_Suc_eq)
  qed simp
  then show ?thesis by (simp add: mem_put_def)
qed

lemma stored_chunk:
  assumes n: "n \<le> unat (PGSIZE - (va - PGROUNDDOWN va))" and va: "va = a + of_nat k"
    and p: "user_pa T s va = Some p" and len: "k + n \<le> length bs"
  shows "mem_put p (take n (drop k bs)) (stored T s a bs k) = stored T s a bs (k + n)"
proof -
  have "n \<le> 4096" using n page_rest(2)[of va] by simp
  then have small: "length (take n (drop k bs)) \<le> 2 ^ 64" by simp
  have ln: "length (take n (drop k bs)) = n" using len by simp
  have e: "the (user_pa T s (a + of_nat (j + k))) = p + of_nat j" if "j < n" for j
  proof -
    have e: "a + of_nat (j + k) = va + of_nat j" by (simp add: va)
    have "user_pa T s (va + of_nat j) = Some (p + of_nat j)"
      using user_pa_rest[of j va T s] that n user_pa_below[OF p] p by simp
    then show ?thesis unfolding e by simp
  qed
  have u: "[0..<k + n] = [0..<k] @ map (\<lambda>j. j + k) [0..<n]"
    unfolding map_add_upt upt_add_eq_append[of 0 k n, simplified] by (simp only: add.commute)
  have "stored T s a bs (k + n) =
      fold (\<lambda>j m. m(the (user_pa T s (a + of_nat (j + k))) := bs ! (j + k))) [0..<n] (stored T s a bs k)"
    unfolding stored_def u by (simp add: fold_map comp_def del: of_nat_add)
  also have "\<dots> = fold (\<lambda>j m. m(p + of_nat j := take n (drop k bs) ! j)) [0..<n] (stored T s a bs k)"
    using e len by (intro fold_cong) (auto simp: add.commute)
  finally show ?thesis unfolding mem_put_fold[OF small] ln by (rule sym)
qed


lemma stored_frame:
  assumes "user_ok T s" "readable T s a k"
  shows "\<exists>P. core_frame P s (s\<lparr>mem := stored T s a bs k\<rparr>) \<and> P \<inter> ran T = {} \<and> (\<forall>p \<in> P. aligned p)"
proof -
  let ?P = "{f. aligned f \<and> (\<exists>j < k. user_frame T s (a + of_nat j) = Some f)}"
  have "stored T s a bs j x = mem s x" if "x \<notin> \<Union> (page ` ?P)" "j \<le> k" for x j
    using that(2)
  proof (induction j)
    case (Suc j)
    then obtain p where p: "user_pa T s (a + of_nat j) = Some p" using assms(2) unfolding readable_def
      by (meson Suc_le_lessD not_Some_eq)
    from user_frame_pa[OF p] obtain f where f: "user_frame T s (a + of_nat j) = Some f" "aligned f" "p \<in> page f" by auto
    then have "x \<noteq> p" using that(1) Suc.prems by auto
    then show ?case using Suc p by (simp add: stored_def)
  qed (simp add: stored_def)
  then have "core_frame ?P s (s\<lparr>mem := stored T s a bs k\<rparr>)" by (simp add: core_frame_def)
  moreover have "?P \<inter> ran T = {}" using assms(1) unfolding user_ok_def by blast
  ultimately show ?thesis by blast
qed

lemma stored_same_view:
  assumes "pt_ok T s" "user_ok T s" "readable T s a k"
  shows "pt_ok T (s\<lparr>mem := stored T s a bs k\<rparr>)" "user_pa T (s\<lparr>mem := stored T s a bs k\<rparr>) va = user_pa T s va"
proof -
  from stored_frame[OF assms(2,3), of bs] obtain P where
    P: "core_frame P s (s\<lparr>mem := stored T s a bs k\<rparr>)" "P \<inter> ran T = {}" "\<And>p. p \<in> P \<Longrightarrow> aligned p" by auto
  have "T k \<notin> Some ` P" for k using P(2) by (auto simp: ran_def)
  note f = pt_ok_frame[OF assms(1) P(1) this P(3)]
  show "pt_ok T (s\<lparr>mem := stored T s a bs k\<rparr>)" by (rule f(1))
  show "user_pa T (s\<lparr>mem := stored T s a bs k\<rparr>) va = user_pa T s va" by (simp add: user_pa_def f(2))
qed

lemma copyout_spec:
  assumes pt: "pt_ok T s" "T [] = Some root" and ok: "user_ok T s"
  shows "\<exists>k. copyout root a bs s = Ok (if readable T s a (length bs) then 0 else -1, s\<lparr>mem := stored T s a bs k\<rparr>) \<and>
    readable T s a k \<and> k \<le> length bs \<and> (readable T s a (length bs) \<longrightarrow> k = length bs)"
proof -
  let ?n = "length bs"
  let ?I = "\<lambda>(va, src, s1). \<exists>k \<le> ?n. src = drop k bs \<and> readable T s a k \<and> s1 = s\<lparr>mem := stored T s a bs k\<rparr> \<and>
    (src \<noteq> [] \<longrightarrow> va = a + of_nat k)"
  let ?Q = "\<lambda>(r, s1). \<exists>k. s1 = s\<lparr>mem := stored T s a bs k\<rparr> \<and> readable T s a k \<and> k \<le> ?n \<and>
    (readable T s a ?n \<longrightarrow> k = ?n) \<and> r = (if readable T s a ?n then 0 else -1 :: int)"
  have "\<exists>r. loop (Suc ?n) (copyout_step root) (a, bs, s) = Ok r \<and> ?Q r"
  proof (rule loop_rule[where I = ?I and m = "\<lambda>(va, src, s1). length src"])
    show "?I (a, bs, s)" by (simp add: exI[of _ 0] readable_def stored_def)
    show "(case (a, bs, s) of (va, src, s1) \<Rightarrow> length src) < Suc ?n" by simp
    fix st assume "?I st"
    moreover obtain va src s1 where st: "st = (va, src, s1)" by (cases st)
    ultimately obtain k where k: "k \<le> ?n" "src = drop k bs" "readable T s a k"
      "s1 = s\<lparr>mem := stored T s a bs k\<rparr>" "src \<noteq> [] \<longrightarrow> va = a + of_nat k" by auto
    show "(\<exists>st'. copyout_step root st = Ok (Next st') \<and> ?I st' \<and>
        (case st' of (va, src, s1) \<Rightarrow> length src) < (case st of (va, src, s1) \<Rightarrow> length src)) \<or>
      (\<exists>r. copyout_step root st = Ok (Done r) \<and> ?Q r)"
    proof (cases "src = []")
      case True
      then have "k = ?n" using k by simp
      then show ?thesis using k True by (simp add: st copyout_step_def)
    next
      case False
      then have va: "va = a + of_nat k" using k by simp
      note view = stored_same_view[OF pt(1) ok k(3), where bs = bs, folded k(4)]
      define m where "m = min (unat (PGSIZE - (va - PGROUNDDOWN va))) (length src)"
      have m: "0 < m" "m \<le> length src" "m \<le> unat (PGSIZE - (va - PGROUNDDOWN va))"
        using page_rest(1)[of va] False by (simp_all add: m_def)
      have n: "?n = k + (m + (length src - m))" using k m by simp
      show ?thesis
      proof (cases "user_pa T s va")
        case None
        then have "walkaddr root (PGROUNDDOWN va) s1 = 0"
          using walkaddr_user[OF view(1) pt(2), of va] view(2) by (simp add: Let_def split: if_splits)
        moreover have nr: "\<not> readable T s a ?n"
        proof
          assume "readable T s a ?n"
          then have "readable T s va (m + (length src - m))" unfolding n readable_add[of T s a k] va by simp
          then show False using None m(1) by (auto simp: readable_def)
        qed
        ultimately have "copyout_step root st = Ok (Done (-1, s1))" using False by (simp add: st copyout_step_def)
        moreover have "?Q (-1, s1)" using k nr by auto
        ultimately show ?thesis by (intro disjI2 exI[of _ "(-1, s1)"] conjI)
      next
        case (Some p)
        then have w: "walkaddr root (PGROUNDDOWN va) s1 \<noteq> 0"
          "walkaddr root (PGROUNDDOWN va) s1 + (va - PGROUNDDOWN va) = p"
          using walkaddr_user[OF view(1) pt(2), of va] view(2) by (auto simp: Let_def split: if_splits)
        let ?st = "(PGROUNDDOWN va + PGSIZE, drop m src, s1\<lparr>mem := mem_put p (take m src) (mem s1)\<rparr>)"
        have "copyout_step root st = Ok (Next ?st)"
          using False w by (simp add: st copyout_step_def m_def Let_def)
        moreover have "?I ?st"
        proof (intro case_prodI exI[of _ "k + m"] conjI impI)
          show "k + m \<le> ?n" "drop m src = drop (k + m) bs" using n k by (simp_all add: add.commute)
          show "readable T s a (k + m)"
            using k(3) readable_chunk[OF m(3) Some] by (simp add: readable_add va)
          show "s1\<lparr>mem := mem_put p (take m src) (mem s1)\<rparr> = s\<lparr>mem := stored T s a bs (k + m)\<rparr>"
            using stored_chunk[OF m(3) va Some] n by (simp add: k(2,4))
          assume "drop m src \<noteq> []"
          then have "m = unat (PGSIZE - (va - PGROUNDDOWN va))" by (simp add: m_def split: if_splits)
          then show "PGROUNDDOWN va + PGSIZE = a + of_nat (k + m)"
            unfolding page_rest(3) by (simp add: va add.assoc)
        qed
        ultimately show ?thesis using m(1,2) by (intro disjI1 exI[of _ ?st]) (simp add: st)
      qed
    qed
  qed
  then obtain r where l: "loop (Suc ?n) (copyout_step root) (a, bs, s) = Ok r" and q: "?Q r" by (elim exE conjE)
  obtain v s1 where r: "r = (v, s1)" by (cases r)
  from q[unfolded r] obtain k where k: "s1 = s\<lparr>mem := stored T s a bs k\<rparr>" "readable T s a k" "k \<le> ?n"
    "readable T s a ?n \<longrightarrow> k = ?n" "v = (if readable T s a ?n then 0 else -1)" by auto
  show ?thesis unfolding copyout_def l r
    by (rule exI[of _ k], intro conjI k(2-4)) (simp only: k(1) k(5))
qed


section \<open>Writing and reading back\<close>

lemma readable_bound:
  assumes "readable T s a n"
  shows "n = 0 \<or> unat a + n \<le> 2 ^ 38"
proof (rule ccontr)
  assume c: "\<not> (n = 0 \<or> unat a + n \<le> 2 ^ 38)"
  then have "user_pa T s (a + of_nat 0) \<noteq> None" using assms unfolding readable_def by blast
  then have a: "unat a < 2 ^ 38" by (auto simp: word_less_nat_alt dest: user_pa_below)
  define j where "j = 2 ^ 38 - unat a"
  have "j < n" using c a unfolding j_def by linarith
  then have "user_pa T s (a + of_nat j) \<noteq> None" using assms unfolding readable_def by blast
  then have "unat (a + of_nat j) < 2 ^ 38" by (auto simp: word_less_nat_alt dest: user_pa_below)
  moreover have "unat (a + of_nat j) = unat a + j" using a by (intro unat_add_of_nat) (simp add: j_def)
  ultimately show False using a by (simp add: j_def)
qed

lemma stored_nth:
  assumes ok: "user_ok T s" and r: "readable T s a n" and k: "k \<le> n" and va: "user_pa T s va = Some p"
  shows "stored T s a bs k p = (if \<exists>j < k. va = a + of_nat j then bs ! unat (va - a) else mem s p)"
  using k
proof (induction k)
  case (Suc k)
  obtain q where q: "user_pa T s (a + of_nat k) = Some q"
    using r Suc.prems unfolding readable_def by (meson Suc_le_lessD not_Some_eq)
  have pq: "p = q \<longleftrightarrow> va = a + of_nat k"
  proof
    assume "p = q"
    then show "va = a + of_nat k" using user_pa_inj[OF ok va] q by simp
  qed (use q va in simp)
  have "k < 2 ^ 38" using readable_bound[OF r] Suc.prems by linarith
  then have u: "unat (of_nat k :: u64) = k" by (intro unat_of_nat_lt[of "2 ^ 38"]) simp_all
  have st: "stored T s a bs (Suc k) p = (if p = q then bs ! k else stored T s a bs k p)"
    using q by (simp add: stored_def)
  show ?case
  proof (cases "va = a + of_nat k")
    case True
    then have "unat (va - a) = k" by (simp add: u)
    moreover have "\<exists>j < Suc k. va = a + of_nat j" using True by blast
    ultimately show ?thesis using True pq by (simp only: st if_P)
  next
    case False
    then have "(\<exists>j < Suc k. va = a + of_nat j) \<longleftrightarrow> (\<exists>j < k. va = a + of_nat j)" by (auto simp: less_Suc_eq)
    then show ?thesis using False pq Suc.IH Suc.prems by (simp only: st if_False Suc_leD)
  qed
qed (simp add: stored_def)

lemma user_bytes_stored:
  assumes pt: "pt_ok T s" and ok: "user_ok T s" and r: "readable T s a (length bs)"
  shows "user_bytes T (s\<lparr>mem := stored T s a bs (length bs)\<rparr>) a (length bs) = bs"
proof (rule nth_equalityI)
  let ?n = "length bs"
  let ?s = "s\<lparr>mem := stored T s a bs ?n\<rparr>"
  fix i assume "i < length (user_bytes T ?s a ?n)"
  then have i: "i < ?n" by (simp add: user_bytes_def)
  then obtain p where p: "user_pa T s (a + of_nat i) = Some p" using r unfolding readable_def by blast
  have "i < 2 ^ 38" using readable_bound[OF r] i by linarith
  then have u: "unat (of_nat i :: u64) = i" by (intro unat_of_nat_lt[of "2 ^ 38"]) simp_all
  have "user_byte T ?s (a + of_nat i) = stored T s a bs ?n p"
    using stored_same_view(2)[OF pt ok r] p by (simp add: user_byte_def)
  also have "\<dots> = bs ! i"
    unfolding stored_nth[OF ok r order_refl p] using i u by (subst if_P) auto
  finally show "user_bytes T ?s a ?n ! i = bs ! i" using i by (simp add: user_bytes_def)
qed (simp add: user_bytes_def)

text \<open>C12: When the whole range is accessible to the user, \<^verbatim>\<open>copyout\<close> returns 0 and stores the
  bytes: \<^verbatim>\<open>copyin\<close> of the same range then returns 0 and delivers exactly these bytes, the
  translation of every user address is as before, and so is the content of every user address
  outside the range. When some byte of the range is not accessible, both return -1.\<close>

theorem copyout_copyin:
  assumes pt: "pt_ok T s" "T [] = Some root" and ok: "user_ok T s"
  shows "\<exists>s'. copyout root a bs s = Ok (if readable T s a (length bs) then 0 else -1, s') \<and>
    (\<forall>va. user_pa T s' va = user_pa T s va) \<and>
    (if readable T s a (length bs) then copyin root a (length bs) s' = Ok (0, bs)
     else \<exists>cs. copyin root a (length bs) s' = Ok (-1, cs)) \<and>
    (\<forall>va. user_pa T s va \<noteq> None \<longrightarrow> (\<forall>j < length bs. va \<noteq> a + of_nat j) \<longrightarrow>
       user_byte T s' va = user_byte T s va)"
proof -
  let ?n = "length bs"
  from copyout_spec[OF pt ok, of a bs] obtain k where
    k: "copyout root a bs s = Ok (if readable T s a ?n then 0 else -1, s\<lparr>mem := stored T s a bs k\<rparr>)"
      "readable T s a k" "k \<le> ?n" "readable T s a ?n \<longrightarrow> k = ?n" by blast
  let ?s = "s\<lparr>mem := stored T s a bs k\<rparr>"
  note view = stored_same_view[OF pt(1) ok k(2), where bs = bs]
  have rd: "readable T ?s a m = readable T s a m" for m by (simp add: readable_def view(2))
  have byte: "user_byte T ?s va = (if \<exists>j < k. va = a + of_nat j then bs ! unat (va - a) else user_byte T s va)"
    if "user_pa T s va = Some p" for va p
  proof -
    have "user_byte T ?s va = stored T s a bs k p" "user_byte T s va = mem s p"
      using that by (simp_all add: user_byte_def view(2))
    then show ?thesis by (simp only: stored_nth[OF ok k(2) order_refl that, of bs])
  qed
  have "user_bytes T ?s a ?n = bs" if r: "readable T s a ?n"
    using user_bytes_stored[OF pt(1) ok r] k(4) r by simp
  with copyin_spec[OF view(1) pt(2), of a ?n] have
    "if readable T s a ?n then copyin root a ?n ?s = Ok (0, bs) else \<exists>cs. copyin root a ?n ?s = Ok (-1, cs)"
    by (auto simp: rd split: if_splits)
  moreover have "user_byte T ?s va = user_byte T s va"
    if v: "user_pa T s va \<noteq> None" "\<forall>j < ?n. va \<noteq> a + of_nat j" for va
  proof -
    from v(1) obtain p where p: "user_pa T s va = Some p" by blast
    have "va \<noteq> a + of_nat j" if "j < k" for j using v(2) less_le_trans[OF that k(3)] by blast
    then have "\<not> (\<exists>j < k. va = a + of_nat j)" by blast
    then show ?thesis unfolding byte[OF p] by (rule if_not_P)
  qed
  ultimately show ?thesis using k(1) view(2) by (intro exI[of _ ?s]) simp
qed

subsection \<open>A concrete address space\<close>

text \<open>One user page at address 0, readable and writable, in a machine with three table
  pages.\<close>

definition one_page_tables :: ptree where
  "one_page_tables = [[] \<mapsto> 0x80100000, [0] \<mapsto> 0x80101000, [0, 0] \<mapsto> 0x80102000]"

definition one_page_mem :: memory where
  "one_page_mem = write64 0x80102000 (PA2PTE 0x80200000 OR 0x17)
     (write64 0x80101000 (PA2PTE 0x80102000 OR PTE_V)
     (write64 0x80100000 (PA2PTE 0x80101000 OR PTE_V) (\<lambda>_. 0)))"

lemma one_page_word:
  assumes "i < 512"
  shows "read64 one_page_mem (0x80100000 + of_nat (8 * i)) = (if i = 0 then PA2PTE 0x80101000 OR PTE_V else 0)"
    "read64 one_page_mem (0x80101000 + of_nat (8 * i)) = (if i = 0 then PA2PTE 0x80102000 OR PTE_V else 0)"
    "read64 one_page_mem (0x80102000 + of_nat (8 * i)) = (if i = 0 then PA2PTE 0x80200000 OR 0x17 else 0)"
proof -
  have al: "aligned 0x80100000" "aligned 0x80101000" "aligned 0x80102000" by (simp_all add: aligned_def)
  have z: "read64 (\<lambda>_. 0) a = 0" for a by (simp add: read64_def mem_get_def map_replicate_const)
  have off: "read64 (write64 p v m) (q + of_nat (8 * i)) = read64 m (q + of_nat (8 * i))"
    if "aligned p" "aligned q" "p \<noteq> q" for p q v m
    using write64_page[OF that(1), of 0 _ v m] page_disjoint[OF that(3)[symmetric]] that(2) assms
    by (intro read64_page) auto
  have own: "read64 (write64 p v m) (p + of_nat (8 * i)) = (if i = 0 then v else read64 m (p + of_nat (8 * i)))"
    if "aligned p" for p v m
    using write64_words[OF that _ assms, of 0 v m] by (auto simp del: of_nat_mult)
  show "read64 one_page_mem (0x80100000 + of_nat (8 * i)) = (if i = 0 then PA2PTE 0x80101000 OR PTE_V else 0)"
    unfolding one_page_mem_def by (simp add: off al own z del: of_nat_mult)
  show "read64 one_page_mem (0x80101000 + of_nat (8 * i)) = (if i = 0 then PA2PTE 0x80102000 OR PTE_V else 0)"
    unfolding one_page_mem_def by (simp add: off al own z del: of_nat_mult)
  show "read64 one_page_mem (0x80102000 + of_nat (8 * i)) = (if i = 0 then PA2PTE 0x80200000 OR 0x17 else 0)"
    unfolding one_page_mem_def by (simp add: off al own z del: of_nat_mult)
qed


lemma one_page_pt:
  assumes "mem s = one_page_mem"
  shows "pt_ok one_page_tables s"
proof -
  have e: "entry_ok (one_page_tables (k @ [i])) (read64 (mem s) (p + of_nat (8 * i)))"
    if k: "one_page_tables k = Some p" "length k < 2" "i < 512" for k p i
  proof -
    have "k = [] \<and> p = 0x80100000 \<or> k = [0] \<and> p = 0x80101000"
      using k(1,2) by (auto simp: one_page_tables_def split: if_splits)
    then show ?thesis
      unfolding assms using one_page_word[OF k(3)] by (auto simp: one_page_tables_def entry_ok_def simp del: of_nat_mult)
  qed
  have "pt_shape one_page_tables"
    unfolding pt_shape_def one_page_tables_def by (auto simp: aligned_def append_eq_Cons_conv split: if_splits)
  then show ?thesis using e by (simp add: pt_ok_def)
qed

lemma one_page_pte:
  assumes "mem s = one_page_mem" "va < MAXVA"
  shows "pte_of one_page_tables s va = (if PGROUNDDOWN va = 0 then PA2PTE 0x80200000 OR 0x17 else 0)"
proof -
  have "key va = key 0 \<and> idx 0 va = idx 0 0 \<longleftrightarrow> PGROUNDDOWN va = PGROUNDDOWN 0"
    using assms(2) by (intro same_leaf) simp_all
  moreover have "idx l 0 = 0" for l by (simp add: idx_def PX_def)
  moreover have "PGROUNDDOWN 0 = 0" by (simp add: PGROUNDDOWN_def)
  ultimately have i: "key va = [0, 0] \<and> idx 0 va = 0 \<longleftrightarrow> PGROUNDDOWN va = 0" by (simp add: key_def)
  have "one_page_tables (key va) = (if key va = [0, 0] then Some 0x80102000 else None)"
    by (auto simp: one_page_tables_def key_def)
  then show ?thesis
    using i one_page_word(3)[OF idx_lt[of 0 va]] assms(1) by (auto simp: pte_of_def simp del: of_nat_mult)
qed

lemma one_page_user:
  assumes "mem s = one_page_mem" "va < MAXVA"
  shows "user_pa one_page_tables s va = (if PGROUNDDOWN va = 0 then Some (0x80200000 + va) else None)"
  unfolding user_pa_def one_page_pte[OF assms] using assms(2) by (simp add: PA2PTE_def PTE2PA_def)

lemma one_page_user_ok:
  assumes "mem s = one_page_mem"
  shows "user_ok one_page_tables s"
proof -
  have r: "PGROUNDDOWN (PGROUNDDOWN va) = PGROUNDDOWN va" for va by simp
  have f: "user_frame one_page_tables s va = (if va < MAXVA \<and> PGROUNDDOWN va = 0 then Some 0x80200000 else None)" for va
  proof (cases "va < MAXVA")
    case True
    then show ?thesis using one_page_user[OF assms, of "PGROUNDDOWN va"] by (simp add: user_frame_def)
  next
    case False
    then show ?thesis by (simp add: user_frame_def user_pa_def)
  qed
  show ?thesis unfolding user_ok_def f by (auto simp: one_page_tables_def ran_def split: if_splits)
qed

lemma one_page_readable:
  assumes "mem s = one_page_mem" "unat a + n \<le> 4096"
  shows "readable one_page_tables s a n"
  unfolding readable_def
proof (intro allI impI)
  fix j assume "j < n"
  then have u: "unat (a + of_nat j) = unat a + j" using assms(2) by (intro unat_add_of_nat) simp
  then have "a + of_nat j < MAXVA" "PGROUNDDOWN (a + of_nat j) = 0"
    using \<open>j < n\<close> assms(2) by (simp_all add: word_less_nat_alt word_unat_eq_iff unat_PGROUNDDOWN)
  then show "user_pa one_page_tables s (a + of_nat j) \<noteq> None" using one_page_user[OF assms(1)] by simp
qed

theorem copyout_copyin_witness:
  "\<exists>s'. copyout 0x80100000 8 [1, 2, 3] (core0\<lparr>mem := one_page_mem\<rparr>) = Ok (0, s') \<and>
     copyin 0x80100000 8 3 s' = Ok (0, [1, 2, 3])"
proof -
  let ?s = "core0\<lparr>mem := one_page_mem\<rparr>"
  have m: "mem ?s = one_page_mem" by simp
  have root: "one_page_tables [] = Some 0x80100000" by (simp add: one_page_tables_def)
  have r: "readable one_page_tables ?s 8 (length [1, 2, 3 :: byte])" by (rule one_page_readable[OF m]) simp
  have l: "length [1, 2, 3 :: byte] = 3" by simp
  from copyout_copyin[OF one_page_pt[OF m] root one_page_user_ok[OF m], of 8 "[1, 2, 3]"]
  show ?thesis unfolding if_P[OF r] unfolding l by (elim exE conjE) (rule exI, rule conjI)
qed

end
