(* ===== verification/PipeQueue.thy ===== *)
theory PipeQueue
  imports File UserMem
begin

text \<open>
  Pipes are bounded queues: the ring buffer of the theory \<open>Ring\<close> at the model's index function
  \<open>pipe_idx\<close>. \<open>pipe_bytes\<close> is the queue of a pipe; \<open>pipewrite\<close> appends to it and \<open>piperead\<close>
  takes from its head, whatever the interleaving of the calls and however often a writer sleeps
  and resumes.
\<close>

interpretation pq: ring 512 pipe_idx
proof
  show "pipe_idx i = unat i mod 512" for i by (simp add: pipe_idx_def unat_mod)
qed simp_all

definition pipe_bytes :: "pipe \<Rightarrow> byte list" where
  "pipe_bytes p = pq.content (pi_data p) (pi_nread p) (pi_nwrite p)"

definition pipe_ok :: "pipe \<Rightarrow> bool" where
  "pipe_ok p \<longleftrightarrow> unat (pi_nwrite p - pi_nread p) \<le> 512"

lemma length_pipe_bytes [simp]: "length (pipe_bytes p) = unat (pi_nwrite p - pi_nread p)"
  by (simp add: pipe_bytes_def)

lemma pipe_bytes_empty: "pipe_bytes p = [] \<longleftrightarrow> pi_nread p = pi_nwrite p"
  by (simp add: pipe_bytes_def pq.content_empty_iff)

lemma pipe_full_iff: "pipe_ok p \<Longrightarrow> pi_nwrite p = pi_nread p + 512 \<longleftrightarrow> length (pipe_bytes p) = 512"
proof
  assume "pi_nwrite p = pi_nread p + 512"
  then show "length (pipe_bytes p) = 512" by simp
next
  assume "length (pipe_bytes p) = 512"
  then have "unat (pi_nwrite p - pi_nread p) = unat (512 :: u32)" by simp
  then have "pi_nwrite p - pi_nread p = 512" by (simp only: word_unat_eq_iff)
  then show "pi_nwrite p = pi_nread p + 512" by (simp add: algebra_simps)
qed

lemma pipe_push:
  assumes "pipe_ok p" "pi_nwrite p \<noteq> pi_nread p + 512"
  shows "pipe_bytes (pipe_push c p) = pipe_bytes p @ [c]" "pipe_ok (pipe_push c p)"
    "pi_readopen (pipe_push c p) = pi_readopen p" "pi_writeopen (pipe_push c p) = pi_writeopen p"
proof -
  have l: "unat (pi_nwrite p - pi_nread p) < 512"
    using assms pipe_full_iff[OF assms(1)] by (simp add: pipe_ok_def)
  show "pipe_bytes (pipe_push c p) = pipe_bytes p @ [c]"
    using pq.content_push[OF l] by (simp add: pipe_bytes_def pipe_push_def)
  show "pipe_ok (pipe_push c p)"
    using l pq.unat_Suc_diff[OF l] by (simp add: pipe_ok_def pipe_push_def)
qed (simp_all add: pipe_push_def)

lemma pipe_pop:
  assumes "pipe_ok p" "pi_nread p \<noteq> pi_nwrite p" "pipe_pop p = (c, p')"
  shows "pipe_bytes p = c # pipe_bytes p'" "pipe_ok p'"
    "pi_readopen p' = pi_readopen p" "pi_writeopen p' = pi_writeopen p"
proof -
  show e: "pipe_bytes p = c # pipe_bytes p'"
    using pq.content_pop[OF assms(2)] assms(3) by (auto simp: pipe_bytes_def pipe_pop_def)
  then have "length (pipe_bytes p) = Suc (length (pipe_bytes p'))" by simp
  then show "pipe_ok p'" using assms(1) by (simp add: pipe_ok_def)
qed (use assms(3) in \<open>auto simp: pipe_pop_def\<close>)


section \<open>Writing to a pipe\<close>

lemma copyin_byte:
  assumes "pt_ok T s" "T [] = Some root"
  shows "(user_pa T s a \<noteq> None \<and> copyin root a 1 s = Ok (0, [user_byte T s a])) \<or>
    (user_pa T s a = None \<and> (\<exists>bs. copyin root a 1 s = Ok (-1, bs)))"
  using copyin_spec[OF assms, of a 1] by (auto simp: readable_def user_bytes_def split: if_splits)

text \<open>The states during a call of \<open>pipewrite\<close> differ from the first one in the pipe only, by the
  first \<open>k\<close> bytes of the caller's buffer.\<close>

definition pipe_after_write :: "ptree \<Rightarrow> u64 \<Rightarrow> u64 \<Rightarrow> 'a file_state_scheme \<Rightarrow> nat \<Rightarrow> 'a file_state_scheme \<Rightarrow> bool" where
  "pipe_after_write T a addr s k s' \<longleftrightarrow>
     (\<exists>p. s' = s\<lparr>pipes := (pipes s)(a := p)\<rparr> \<and> pipe_ok p \<and>
       pi_readopen p = pi_readopen (pipes s a) \<and> pi_writeopen p = pi_writeopen (pipes s a) \<and>
       pipe_bytes p = pipe_bytes (pipes s a) @ user_bytes T s addr k) \<and> readable T s addr k"

lemma pipe_after_write_0: "pipe_ok (pipes s a) \<Longrightarrow> pipe_after_write T a addr s 0 s"
  by (auto simp: pipe_after_write_def user_bytes_def readable_def intro!: exI[of _ "pipes s a"])

lemma pipe_after_write_step:
  assumes k: "pipe_after_write T a addr s k s'" and pt: "pt_ok T s" "T [] = Some (p_pagetable (myproc s))"
    and open_ok: "pi_readopen (pipes s a)" "\<not> p_killed (myproc s)" and i: "i + int k < n"
    and that: "addr = base + word_of_int i"
  shows "(\<exists>s1. pipewrite_step a base n (i + int k, s') = Ok (Next (i + int k + 1, s1)) \<and>
       pipe_after_write T a addr s (Suc k) s1) \<or>
    (pipewrite_step a base n (i + int k, s') = Ok (Done (Ret (i + int k), wakeup (PipeReadChan a) s')) \<and>
       \<not> readable T s addr (Suc k)) \<or>
    (pipewrite_step a base n (i + int k, s') = Ok (Done (Sleep (PipeWriteChan a) (i + int k), wakeup (PipeReadChan a) s')) \<and>
       length (pipe_bytes (pipes s' a)) = 512)"
proof -
  from k obtain p where s': "s' = s\<lparr>pipes := (pipes s)(a := p)\<rparr>" and p: "pipe_ok p" "pi_readopen p = pi_readopen (pipes s a)"
    "pi_writeopen p = pi_writeopen (pipes s a)" "pipe_bytes p = pipe_bytes (pipes s a) @ user_bytes T s addr k"
    and rd: "readable T s addr k" by (auto simp: pipe_after_write_def)
  have m: "mem s' = mem s" and my: "myproc s' = myproc s" and pa: "pipes s' a = p"
    by (simp_all add: s' myproc_def)
  have va: "base + (word_of_int i + of_nat k) = addr + of_nat k"
    by (simp add: that add.assoc)
  have rS: "readable T s addr (Suc k) \<longleftrightarrow> user_pa T s (addr + of_nat k) \<noteq> None"
    using rd by (auto simp: readable_def less_Suc_eq)
  have ci: "copyin root x j s' = copyin root x j s" for root x j
    by (rule copyin_mem[OF m])
  show ?thesis
  proof (cases "pi_nwrite p = pi_nread p + 512")
    case True
    then have "length (pipe_bytes p) = 512" using pipe_full_iff[OF p(1)] by blast
    then show ?thesis using True i open_ok p(2) by (simp add: pipewrite_step_def pa my)
  next
    case False
    note sp = i open_ok p(2) False
    from copyin_byte[OF pt, of "addr + of_nat k"] show ?thesis
    proof (elim disjE conjE exE)
      assume u: "user_pa T s (addr + of_nat k) \<noteq> None"
        "copyin (p_pagetable (myproc s)) (addr + of_nat k) 1 s = Ok (0, [user_byte T s (addr + of_nat k)])"
      let ?q = "pipe_push (user_byte T s (addr + of_nat k)) p"
      have "pipewrite_step a base n (i + int k, s') = Ok (Next (i + int k + 1, upd_pipe a (\<lambda>_. ?q) s'))"
        using sp u(2) by (simp add: pipewrite_step_def pa my va ci upd_pipe_def)
      moreover have "pipe_after_write T a addr s (Suc k) (upd_pipe a (\<lambda>_. ?q) s')"
        unfolding pipe_after_write_def rS
        using u(1) pipe_push[OF p(1) False, of "user_byte T s (addr + of_nat k)"] p(2,3,4)
        by (auto simp: upd_pipe_def s' user_bytes_def intro!: exI[of _ ?q])
      ultimately show ?thesis by blast
    next
      fix bs assume u: "user_pa T s (addr + of_nat k) = None"
        "copyin (p_pagetable (myproc s)) (addr + of_nat k) 1 s = Ok (-1, bs)"
      then show ?thesis using sp by (simp add: pipewrite_step_def pa my va ci rS)
    qed
  qed
qed


text \<open>The whole call: what it has appended when it returns or goes to sleep.\<close>

definition pipewrite_post ::
  "ptree \<Rightarrow> int \<Rightarrow> u64 \<Rightarrow> u64 \<Rightarrow> int \<Rightarrow> 'a file_state_scheme \<Rightarrow> nat \<Rightarrow> wait \<Rightarrow> 'a file_state_scheme \<Rightarrow> bool" where
  "pipewrite_post T i a addr n s k w s' \<longleftrightarrow>
     pipe_bytes (pipes s' a) = pipe_bytes (pipes s a) @ user_bytes T s (addr + word_of_int i) k \<and>
     pipe_ok (pipes s' a) \<and> (\<forall>b. b \<noteq> a \<longrightarrow> pipes s' b = pipes s b) \<and> mem s' = mem s \<and>
     (case w of
        Ret r \<Rightarrow> (r = -1 \<and> k = 0 \<and> (\<not> pi_readopen (pipes s a) \<or> p_killed (myproc s))) \<or>
          (r = i + int k \<and> (r = n \<or> \<not> readable T s (addr + word_of_int i) (Suc k)))
      | Sleep c r \<Rightarrow> c = PipeWriteChan a \<and> r = i + int k \<and> r < n \<and> length (pipe_bytes (pipes s' a)) = 512)"

lemma after_write_post:
  assumes "pipe_after_write T a (addr + word_of_int i) s k s1"
    "case w of Ret r \<Rightarrow> (r = -1 \<and> k = 0 \<and> (\<not> pi_readopen (pipes s a) \<or> p_killed (myproc s))) \<or>
          (r = i + int k \<and> (r = n \<or> \<not> readable T s (addr + word_of_int i) (Suc k)))
      | Sleep c r \<Rightarrow> c = PipeWriteChan a \<and> r = i + int k \<and> r < n \<and> length (pipe_bytes (pipes s1 a)) = 512"
    "s' = s1 \<or> s' = wakeup c s1"
  shows "pipewrite_post T i a addr n s k w s'"
proof -
  have f: "pipes (wakeup c s1) = pipes s1" "mem (wakeup c s1) = mem s1" by (simp_all add: wakeup_def)
  then have e: "pipes s' = pipes s1" "mem s' = mem s1" using assms(3) by auto
  show ?thesis using assms(1,2) unfolding pipewrite_post_def pipe_after_write_def e by (auto split: wait.splits)
qed

lemma pipewrite_spec:
  assumes ok: "pipe_ok (pipes s a)" and pt: "pt_ok T s" "T [] = Some (p_pagetable (myproc s))" and i: "i \<le> n"
  shows "\<exists>w s' k. pipewrite_from i a addr n s = Ok (w, s') \<and> pipewrite_post T i a addr n s k w s'"
proof -
  let ?b = "addr + word_of_int i"
  let ?I = "\<lambda>(j, s1). \<exists>k. j = i + int k \<and> j \<le> n \<and> pipe_after_write T a ?b s k s1 \<and>
    (k = 0 \<or> pi_readopen (pipes s a) \<and> \<not> p_killed (myproc s))"
  let ?Q = "\<lambda>(w, s'). \<exists>k. pipewrite_post T i a addr n s k w s'"
  have "\<exists>r. loop (Suc (nat (n - i))) (pipewrite_step a addr n) (i, s) = Ok r \<and> ?Q r"
  proof (rule loop_rule[where I = ?I and m = "\<lambda>(j, s1). nat (n - j)"])
    show "?I (i, s)" using pipe_after_write_0[OF ok] i by (intro case_prodI exI[of _ 0]) simp
    show "(case (i, s) of (j, s1) \<Rightarrow> nat (n - j)) < Suc (nat (n - i))" by simp
    fix st assume I: "?I st"
    obtain j s1 where st: "st = (j, s1)" by (cases st)
    from I obtain k where k: "j = i + int k" "j \<le> n" "pipe_after_write T a ?b s k s1"
      "k = 0 \<or> pi_readopen (pipes s a) \<and> \<not> p_killed (myproc s)" unfolding st by blast
    have pr: "pi_readopen (pipes s1 a) = pi_readopen (pipes s a)" "myproc s1 = myproc s"
      using k(3) by (auto simp: pipe_after_write_def myproc_def)
    let ?goal = "(\<exists>st'. pipewrite_step a addr n st = Ok (Next st') \<and> ?I st' \<and>
        (case st' of (j, s1) \<Rightarrow> nat (n - j)) < (case st of (j, s1) \<Rightarrow> nat (n - j))) \<or>
      (\<exists>r. pipewrite_step a addr n st = Ok (Done r) \<and> ?Q r)"
    have done_with: ?goal if "pipewrite_step a addr n st = Ok (Done (w, s2))" "pipewrite_post T i a addr n s k w s2" for w s2
      using that by blast
    consider "j = n" | "j < n" "\<not> pi_readopen (pipes s a) \<or> p_killed (myproc s)"
      | "j < n" "pi_readopen (pipes s a)" "\<not> p_killed (myproc s)" using k(2) by fastforce
    then show ?goal
    proof cases
      case 1
      have "pipewrite_post T i a addr n s k (Ret j) (wakeup (PipeReadChan a) s1)"
        by (rule after_write_post[OF k(3) _ disjI2[OF refl]]) (simp add: 1 k(1)[symmetric])
      then show ?thesis using 1 by (intro done_with) (simp_all add: st pipewrite_step_def)
    next
      case 2
      then have "k = 0" using k(4) by blast
      have "pipewrite_post T i a addr n s k (Ret (-1)) s1"
        by (rule after_write_post[OF k(3) _ disjI1[OF refl]]) (use 2 \<open>k = 0\<close> in simp)
      then show ?thesis using 2 by (intro done_with) (auto simp: st pipewrite_step_def pr)
    next
      case 3
      have lt: "i + int k < n" using 3(1) k(1) by simp
      from pipe_after_write_step[OF k(3) pt 3(2,3) lt refl] show ?thesis
      proof (elim disjE exE conjE, goal_cases)
        case (1 s2)
        then have "pipewrite_step a addr n st = Ok (Next (j + 1, s2))" by (simp add: st k(1))
        moreover have "?I (j + 1, s2)" using 1 3 k by (intro case_prodI exI[of _ "Suc k"]) simp
        ultimately show ?case using 3(1) by (intro disjI1 exI[of _ "(j + 1, s2)"]) (simp add: st)
      next
        case 2
        have "pipewrite_post T i a addr n s k (Ret j) (wakeup (PipeReadChan a) s1)"
          by (rule after_write_post[OF k(3) _ disjI2[OF refl]]) (use 2 k(1) in simp)
        then show ?case using 2 by (intro done_with) (simp_all add: st k(1))
      next
        case 3
        have "pipewrite_post T i a addr n s k (Sleep (PipeWriteChan a) j) (wakeup (PipeReadChan a) s1)"
          by (rule after_write_post[OF k(3) _ disjI2[OF refl]]) (use 3 lt k(1) in simp)
        then show ?case using 3 by (intro done_with) (simp_all add: st k(1))
      qed
    qed
  qed
  then obtain r where "loop (Suc (nat (n - i))) (pipewrite_step a addr n) (i, s) = Ok r" "?Q r" by blast
  moreover obtain w s' where "r = (w, s')" by (cases r)
  ultimately show ?thesis by (auto simp: pipewrite_from_def)
qed


section \<open>Reading from a pipe\<close>

lemma copyout_byte:
  assumes "pt_ok T s" "T [] = Some root" "user_ok T s"
  shows "(\<exists>p. user_pa T s a = Some p \<and> copyout root a [c] s = Ok (0, s\<lparr>mem := (mem s)(p := c)\<rparr>)) \<or>
    (user_pa T s a = None \<and> copyout root a [c] s = Ok (-1, s))"
proof -
  from copyout_spec[OF assms, of a "[c]"] obtain k where
    k: "copyout root a [c] s = Ok (if readable T s a 1 then 0 else -1, s\<lparr>mem := stored T s a [c] k\<rparr>)"
      "readable T s a k" "k \<le> 1" "readable T s a 1 \<longrightarrow> k = 1" by auto
  have r: "readable T s a 1 \<longleftrightarrow> user_pa T s a \<noteq> None" by (simp add: readable_def)
  show ?thesis
  proof (cases "user_pa T s a")
    case None
    then have "k = 0" using k(2,3) r by (cases k) auto
    then show ?thesis using k(1) None r by (simp add: stored_def)
  next
    case (Some p)
    then show ?thesis using k(1,4) r by (simp add: stored_def)
  qed
qed

text \<open>The states during a call of \<open>piperead\<close>: the bytes \<open>bs\<close> have left the pipe and are in the
  caller's buffer.\<close>

definition pipe_after_read :: "ptree \<Rightarrow> u64 \<Rightarrow> u64 \<Rightarrow> 'a file_state_scheme \<Rightarrow> byte list \<Rightarrow> 'a file_state_scheme \<Rightarrow> bool" where
  "pipe_after_read T a addr s bs s' \<longleftrightarrow>
     (\<exists>p. s' = s\<lparr>pipes := (pipes s)(a := p), mem := stored T s addr bs (length bs)\<rparr> \<and> pipe_ok p \<and>
       pi_readopen p = pi_readopen (pipes s a) \<and> pi_writeopen p = pi_writeopen (pipes s a) \<and>
       pipe_bytes (pipes s a) = bs @ pipe_bytes p) \<and> readable T s addr (length bs)"

lemma pipe_after_read_0: "pipe_ok (pipes s a) \<Longrightarrow> pipe_after_read T a addr s [] s"
  by (auto simp: pipe_after_read_def readable_def stored_def intro!: exI[of _ "pipes s a"])

lemma stored_snoc:
  "stored T s a (bs @ [c]) (Suc (length bs)) =
     (stored T s a bs (length bs))(the (user_pa T s (a + of_nat (length bs))) := c)"
proof -
  have "fold (\<lambda>j m. m(f j := (bs @ [c]) ! j)) [0..<k] m = fold (\<lambda>j m. m(f j := bs ! j)) [0..<k] m"
    if "k \<le> length bs" for f k and m :: memory
    using that by (intro fold_cong) (auto simp: nth_append)
  then show ?thesis by (simp add: stored_def)
qed

lemma pipe_after_read_step:
  assumes b: "pipe_after_read T a addr s bs s'" and pt: "pt_ok T s" "T [] = Some (p_pagetable (myproc s))"
    and ok: "user_ok T s" and n: "int (length bs) < n" and ne: "pipe_bytes (pipes s' a) = c # cs"
  shows "(\<exists>s1. piperead_step a addr n (int (length bs), s') = Ok (Next (int (length bs) + 1, s1)) \<and>
       pipe_after_read T a addr s (bs @ [c]) s1) \<or>
    (\<exists>p. piperead_step a addr n (int (length bs), s') = Ok (Done (int (length bs), upd_pipe a (\<lambda>_. p) s')) \<and>
       pipe_ok p \<and> pipe_bytes p = cs \<and> \<not> readable T s addr (Suc (length bs)))"
proof -
  from b obtain p where s': "s' = s\<lparr>pipes := (pipes s)(a := p), mem := stored T s addr bs (length bs)\<rparr>"
    and p: "pipe_ok p" "pi_readopen p = pi_readopen (pipes s a)" "pi_writeopen p = pi_writeopen (pipes s a)"
    "pipe_bytes (pipes s a) = bs @ pipe_bytes p" and rd: "readable T s addr (length bs)"
    by (auto simp: pipe_after_read_def)
  have pa: "pipes s' a = p" and my: "myproc s' = myproc s" by (simp_all add: s' myproc_def)
  have nempty: "pi_nread p \<noteq> pi_nwrite p" using ne pipe_bytes_empty[of p] by (simp add: pa)
  obtain c' q where q: "pipe_pop p = (c', q)" by (cases "pipe_pop p")
  note pop = pipe_pop[OF p(1) nempty q]
  have c': "c' = c" "pipe_bytes q = cs" using ne pop(1) by (simp_all add: pa)
  let ?s = "upd_pipe a (\<lambda>_. q) s'"
  have m: "mem ?s = mem (s\<lparr>mem := stored T s addr bs (length bs)\<rparr>)" by (simp add: upd_pipe_def s')
  note view = stored_same_view[OF pt(1) ok rd, where bs = bs]
  have upa: "user_pa T ?s va = user_pa T s va" for va unfolding user_pa_mem[OF m] view(2) ..
  have pt': "pt_ok T ?s" using pt_ok_mem[OF m] view(1) by simp
  have ok': "user_ok T ?s" using ok by (simp add: user_ok_def user_frame_def upa)
  have root: "T [] = Some (p_pagetable (myproc ?s))" using pt(2) by (simp add: upd_pipe_def s' myproc_def)
  have va: "addr + word_of_int (int (length bs)) = addr + of_nat (length bs)" by simp
  have rS: "readable T s addr (Suc (length bs)) \<longleftrightarrow> user_pa T s (addr + of_nat (length bs)) \<noteq> None"
    using rd by (auto simp: readable_def less_Suc_eq)
  have st: "piperead_step a addr n (int (length bs), s') =
      and_then (copyout (p_pagetable (myproc ?s)) (addr + of_nat (length bs)) [c] ?s) (\<lambda>(r, s).
        if r = -1 then Ok (Done (int (length bs), s)) else Ok (Next (int (length bs) + 1, s)))"
    using n nempty by (simp add: piperead_step_def pa q c'(1) Let_def)
  from copyout_byte[OF pt' root ok', of "addr + of_nat (length bs)" c] show ?thesis
  proof (elim disjE exE conjE)
    fix x assume x: "user_pa T ?s (addr + of_nat (length bs)) = Some x"
      "copyout (p_pagetable (myproc ?s)) (addr + of_nat (length bs)) [c] ?s = Ok (0, ?s\<lparr>mem := (mem ?s)(x := c)\<rparr>)"
    have xx: "user_pa T s (addr + of_nat (length bs)) = Some x" using x(1) unfolding upa .
    have e: "?s\<lparr>mem := (mem ?s)(x := c)\<rparr> =
        s\<lparr>pipes := (pipes s)(a := q), mem := stored T s addr (bs @ [c]) (length (bs @ [c]))\<rparr>"
      using xx by (simp add: stored_snoc upd_pipe_def s')
    have "pipe_after_read T a addr s (bs @ [c]) (?s\<lparr>mem := (mem ?s)(x := c)\<rparr>)"
      unfolding pipe_after_read_def e using pop p xx rS by (auto simp: c' intro!: exI[of _ q])
    then show ?thesis using st x(2) by simp
  next
    assume x: "user_pa T ?s (addr + of_nat (length bs)) = None"
      "copyout (p_pagetable (myproc ?s)) (addr + of_nat (length bs)) [c] ?s = Ok (-1, ?s)"
    have "user_pa T s (addr + of_nat (length bs)) = None" using x(1) unfolding upa .
    then show ?thesis using x(2) st rS pop(2) c'(2) by (intro disjI2 exI[of _ q]) simp
  qed
qed


text \<open>What a call that found something to read, or a closed pipe, has done: the bytes \<open>bs\<close> have
  gone from the head of the queue to the caller's buffer. When the copy of a byte failed, that
  byte has left the queue too and is lost.\<close>

definition piperead_post ::
  "ptree \<Rightarrow> u64 \<Rightarrow> u64 \<Rightarrow> int \<Rightarrow> 'a file_state_scheme \<Rightarrow> byte list \<Rightarrow> byte list \<Rightarrow> 'a file_state_scheme \<Rightarrow> bool" where
  "piperead_post T a addr n s bs lost s' \<longleftrightarrow>
     pipe_bytes (pipes s a) = bs @ lost @ pipe_bytes (pipes s' a) \<and> pipe_ok (pipes s' a) \<and>
     (\<forall>b. b \<noteq> a \<longrightarrow> pipes s' b = pipes s b) \<and>
     mem s' = stored T s addr bs (length bs) \<and> readable T s addr (length bs) \<and>
     (if lost = [] then n \<le> int (length bs) \<or> pipe_bytes (pipes s' a) = []
      else length lost = 1 \<and> int (length bs) < n \<and> \<not> readable T s addr (Suc (length bs)))"

lemma after_read_post:
  assumes "pipe_after_read T a addr s bs s1" "n \<le> int (length bs) \<or> pipe_bytes (pipes s1 a) = []"
  shows "piperead_post T a addr n s bs [] s1"
  using assms by (auto simp: pipe_after_read_def piperead_post_def)

lemma piperead_loop:
  assumes ok: "pipe_ok (pipes s a)" and pt: "pt_ok T s" "T [] = Some (p_pagetable (myproc s))" "user_ok T s"
  shows "\<exists>bs lost s'. loop (Suc (nat n)) (piperead_step a addr n) (0, s) = Ok (int (length bs), s') \<and>
    piperead_post T a addr n s bs lost s'"
proof -
  let ?I = "\<lambda>(j, s1). \<exists>bs. j = int (length bs) \<and> pipe_after_read T a addr s bs s1"
  let ?Q = "\<lambda>(j, s'). \<exists>bs lost. j = int (length bs) \<and> piperead_post T a addr n s bs lost s'"
  have "\<exists>r. loop (Suc (nat n)) (piperead_step a addr n) (0, s) = Ok r \<and> ?Q r"
  proof (rule loop_rule[where I = ?I and m = "\<lambda>(j, s1). nat (n - j)"])
    show "?I (0, s)" using pipe_after_read_0[OF ok] by (intro case_prodI exI[of _ "[]"]) simp
    show "(case (0, s) of (j, s1) \<Rightarrow> nat (n - j)) < Suc (nat n)" by simp
    fix st assume I: "?I st"
    obtain j s1 where st: "st = (j, s1)" by (cases st)
    from I obtain bs where b: "j = int (length bs)" "pipe_after_read T a addr s bs s1" unfolding st by blast
    let ?goal = "(\<exists>st'. piperead_step a addr n st = Ok (Next st') \<and> ?I st' \<and>
        (case st' of (j, s1) \<Rightarrow> nat (n - j)) < (case st of (j, s1) \<Rightarrow> nat (n - j))) \<or>
      (\<exists>r. piperead_step a addr n st = Ok (Done r) \<and> ?Q r)"
    consider "n \<le> j \<or> pipe_bytes (pipes s1 a) = []" | c cs where "j < n" "pipe_bytes (pipes s1 a) = c # cs"
      by (cases "pipe_bytes (pipes s1 a)") fastforce+
    then show ?goal
    proof cases
      case 1
      then have "piperead_step a addr n st = Ok (Done (j, s1))"
        by (auto simp: st piperead_step_def pipe_bytes_empty)
      moreover have "?Q (j, s1)" using after_read_post[OF b(2), of n] 1 b(1) by blast
      ultimately show ?thesis by (intro disjI2 exI[of _ "(j, s1)"] conjI)
    next
      case 2
      have lt: "int (length bs) < n" using 2(1) b(1) by simp
      from pipe_after_read_step[OF b(2) pt lt 2(2)] show ?thesis
      proof (elim disjE exE conjE)
        fix s2 assume "piperead_step a addr n (int (length bs), s1) = Ok (Next (int (length bs) + 1, s2))"
          "pipe_after_read T a addr s (bs @ [c]) s2"
        then show ?thesis using 2(1) b(1)
          by (intro disjI1 exI[of _ "(j + 1, s2)"]) (auto simp: st intro!: exI[of _ "bs @ [c]"])
      next
        fix p assume p: "piperead_step a addr n (int (length bs), s1) = Ok (Done (int (length bs), upd_pipe a (\<lambda>_. p) s1))"
          "pipe_ok p" "pipe_bytes p = cs" "\<not> readable T s addr (Suc (length bs))"
        have "piperead_post T a addr n s bs [c] (upd_pipe a (\<lambda>_. p) s1)"
          using b(2) p 2(2) lt by (auto simp: piperead_post_def pipe_after_read_def upd_pipe_def)
        then show ?thesis using p(1) b(1) by (intro disjI2 exI[of _ "(j, upd_pipe a (\<lambda>_. p) s1)"]) (auto simp: st)
      qed
    qed
  qed
  then show ?thesis by fastforce
qed

lemma wakeup_file [simp]:
  "pipes (wakeup c s) = pipes s" "ftable (wakeup c s) = ftable s"
  by (simp_all add: wakeup_def)

lemma piperead_spec:
  assumes "pipe_ok (pipes s a)" "pt_ok T s" "T [] = Some (p_pagetable (myproc s))" "user_ok T s"
  shows "if pipe_bytes (pipes s a) = [] \<and> pi_writeopen (pipes s a)
    then piperead a addr n s = Ok (if p_killed (myproc s) then Ret (-1) else Sleep (PipeReadChan a) 0, s)
    else \<exists>bs lost s'. piperead a addr n s = Ok (Ret (int (length bs)), s') \<and> piperead_post T a addr n s bs lost s'"
proof (cases "pipe_bytes (pipes s a) = [] \<and> pi_writeopen (pipes s a)")
  case True
  then show ?thesis by (simp add: piperead_def pipe_bytes_empty)
next
  case False
  from piperead_loop[OF assms, of n addr] obtain bs lost s' where
    l: "loop (Suc (nat n)) (piperead_step a addr n) (0, s) = Ok (int (length bs), s')"
      "piperead_post T a addr n s bs lost s'" by blast
  have "piperead a addr n s = Ok (Ret (int (length bs)), wakeup (PipeWriteChan a) s')"
    using False l(1) by (auto simp: piperead_def pipe_bytes_empty)
  moreover have "piperead_post T a addr n s bs lost (wakeup (PipeWriteChan a) s')"
    using l(2) by (simp add: piperead_post_def)
  ultimately show ?thesis using False by auto
qed


section \<open>Histories\<close>

text \<open>\<open>pipe_hist a s W R\<close>: since the pipe at \<open>a\<close> was empty, the bytes \<open>W\<close> have been taken from the
  buffers of writers, by calls that start or resume anywhere, and the bytes \<open>R\<close> have been put into
  the buffers of readers; in between anything may happen that leaves the pipe alone.\<close>

fun written :: "int \<Rightarrow> wait \<Rightarrow> nat" where
  "written i (Ret r) = (if r = -1 then 0 else nat (r - i))"
| "written i (Sleep c r) = nat (r - i)"

inductive pipe_hist :: "u64 \<Rightarrow> 'a file_state_scheme \<Rightarrow> byte list \<Rightarrow> byte list \<Rightarrow> bool" for a where
  empty_pipe: "pipe_ok (pipes s a) \<Longrightarrow> pipe_bytes (pipes s a) = [] \<Longrightarrow> pipe_hist a s [] []"
| write_pipe: "pipe_hist a s W R \<Longrightarrow> pt_ok T s \<Longrightarrow> T [] = Some (p_pagetable (myproc s)) \<Longrightarrow> 0 \<le> i \<Longrightarrow> i \<le> n \<Longrightarrow>
    pipewrite_from i a addr n s = Ok (w, s') \<Longrightarrow>
    pipe_hist a s' (W @ user_bytes T s (addr + word_of_int i) (written i w)) R"
| read_pipe: "pipe_hist a s W R \<Longrightarrow> pt_ok T s \<Longrightarrow> T [] = Some (p_pagetable (myproc s)) \<Longrightarrow> user_ok T s \<Longrightarrow>
    readable T s addr (nat n) \<Longrightarrow> piperead a addr n s = Ok (Ret r, s') \<Longrightarrow>
    pipe_hist a s' W (R @ user_bytes T s' addr (nat r))"
| other_step: "pipe_hist a s W R \<Longrightarrow> pipes s' a = pipes s a \<Longrightarrow> pipe_hist a s' W R"

lemma readable_le: "readable T s a n \<Longrightarrow> m \<le> n \<Longrightarrow> readable T s a m"
  by (simp add: readable_def)

lemma read_step_fifo:
  assumes pt: "pt_ok T s" "T [] = Some (p_pagetable (myproc s))" "user_ok T s" and rd: "readable T s addr (nat n)"
    and ok: "pipe_ok (pipes s a)" and r: "piperead a addr n s = Ok (Ret r, s')"
  shows "pipe_bytes (pipes s a) = user_bytes T s' addr (nat r) @ pipe_bytes (pipes s' a) \<and> pipe_ok (pipes s' a)"
proof (cases "pipe_bytes (pipes s a) = [] \<and> pi_writeopen (pipes s a)")
  case True
  then have "r = -1 \<and> s' = s" using piperead_spec[OF ok pt, of addr n] r by (auto split: if_splits)
  then show ?thesis using ok by (simp add: user_bytes_def)
next
  case False
  then obtain bs lost where b: "r = int (length bs)" "piperead_post T a addr n s bs lost s'"
    using piperead_spec[OF ok pt, of addr n] r by auto
  have p: "pipe_bytes (pipes s a) = bs @ lost @ pipe_bytes (pipes s' a)" "pipe_ok (pipes s' a)"
    "mem s' = stored T s addr bs (length bs)" "readable T s addr (length bs)" using b(2) by (simp_all add: piperead_post_def)
  have l: "lost = []"
  proof (rule ccontr)
    assume "lost \<noteq> []"
    then have "int (length bs) < n" "\<not> readable T s addr (Suc (length bs))" using b(2) by (simp_all add: piperead_post_def)
    then show False using readable_le[OF rd, of "Suc (length bs)"] by linarith
  qed
  have "mem s' = mem (s\<lparr>mem := stored T s addr bs (length bs)\<rparr>)" using p(3) by simp
  from user_bytes_mem[OF this] have "user_bytes T s' addr (length bs) = bs"
    using user_bytes_stored[OF pt(1,3) p(4)] by simp
  then show ?thesis using p(1,2) l b(1) by simp
qed

lemma write_step_fifo:
  assumes pt: "pt_ok T s" "T [] = Some (p_pagetable (myproc s))" and i: "0 \<le> i" "i \<le> n"
    and ok: "pipe_ok (pipes s a)" and w: "pipewrite_from i a addr n s = Ok (w, s')"
  shows "pipe_bytes (pipes s' a) = pipe_bytes (pipes s a) @ user_bytes T s (addr + word_of_int i) (written i w) \<and>
    pipe_ok (pipes s' a)"
proof -
  from pipewrite_spec[OF ok pt i(2), of addr] obtain k where "pipewrite_post T i a addr n s k w s'" using w by auto
  moreover from this have "written i w = k" using i(1) by (auto simp: pipewrite_post_def split: wait.splits)
  ultimately show ?thesis by (simp add: pipewrite_post_def)
qed


definition pipe_demo :: file_state where
  "pipe_demo = file0\<lparr>mem := one_page_mem, procs := (\<lambda>_. zero_proc\<lparr>p_pagetable := 0x80100000\<rparr>)\<rparr>"

lemma pipe_demo_ok:
  "pipe_ok (pipes pipe_demo a)" "pipe_bytes (pipes pipe_demo a) = []"
  "pt_ok one_page_tables pipe_demo" "one_page_tables [] = Some (p_pagetable (myproc pipe_demo))"
  "user_ok one_page_tables pipe_demo"
proof -
  have m: "mem pipe_demo = one_page_mem" by (simp add: pipe_demo_def)
  show "pt_ok one_page_tables pipe_demo" "user_ok one_page_tables pipe_demo"
    by (rule one_page_pt[OF m] one_page_user_ok[OF m])+
qed (simp_all add: pipe_demo_def zero_pipe_def pipe_ok_def pipe_bytes_empty one_page_tables_def myproc_def)


text \<open>C26: A byte read from a pipe is lost when it cannot be stored: if the first byte of the caller's
  buffer is not accessible, \<^verbatim>\<open>piperead\<close> returns 0 and yet has removed a byte from the pipe.\<close>

theorem piperead_loses_byte:
  assumes ok: "pipe_ok (pipes s a)" and pt: "pt_ok T s" "T [] = Some (p_pagetable (myproc s))" "user_ok T s"
    and n: "0 < n" and bytes: "pipe_bytes (pipes s a) = c # cs" and bad: "user_pa T s addr = None"
  shows "\<exists>s'. piperead a addr n s = Ok (Ret 0, s') \<and> pipe_bytes (pipes s' a) = cs \<and> mem s' = mem s"
proof -
  from piperead_spec[OF ok pt, of addr n] bytes obtain bs lost s' where
    b: "piperead a addr n s = Ok (Ret (int (length bs)), s')" "piperead_post T a addr n s bs lost s'" by auto
  have "bs = []"
  proof (rule ccontr)
    assume "bs \<noteq> []"
    moreover have "readable T s addr (length bs)" using b(2) by (simp add: piperead_post_def)
    ultimately have "user_pa T s (addr + of_nat 0) \<noteq> None" unfolding readable_def by blast
    then show False using bad by simp
  qed
  then show ?thesis using b n bytes
    by (intro exI[of _ s']) (auto simp: piperead_post_def stored_def length_Suc_conv split: if_splits)
qed

theorem piperead_loses_byte_witness:
  "\<exists>s s'. pipe_bytes (pipes s 0) = [7] \<and> piperead 0 0x5000 1 (s :: file_state) = Ok (Ret 0, s') \<and>
     pipe_bytes (pipes s' 0) = []"
proof -
  let ?p = "pipe_push 7 zero_pipe"
  let ?s = "pipe_demo\<lparr>pipes := (\<lambda>_. ?p)\<rparr>"
  have m: "mem ?s = one_page_mem" "mem ?s = mem pipe_demo" by (simp_all add: pipe_demo_def)
  have z: "pipe_ok zero_pipe" "pipe_bytes zero_pipe = []" by (simp_all add: zero_pipe_def pipe_ok_def pipe_bytes_empty)
  have nf: "pi_nwrite zero_pipe \<noteq> pi_nread zero_pipe + 512" by (simp add: zero_pipe_def)
  have p: "pipe_bytes (pipes ?s 0) = 7 # []" "pipe_ok (pipes ?s 0)"
    using pipe_push[OF z(1) nf, of 7] z(2) by simp_all
  have my: "one_page_tables [] = Some (p_pagetable (myproc ?s))" using pipe_demo_ok(4) by (simp add: myproc_def)
  have "PGROUNDDOWN 0x5000 \<noteq> 0" by (simp add: PGROUNDDOWN_def)
  then have "user_pa one_page_tables ?s 0x5000 = None" using one_page_user[OF m(1), of "0x5000"] by simp
  from piperead_loses_byte[OF p(2) one_page_pt[OF m(1)] my one_page_user_ok[OF m(1)], of 1, OF _ p(1) this]
  obtain s' where "piperead 0 0x5000 1 ?s = Ok (Ret 0, s')" "pipe_bytes (pipes s' 0) = []" by auto
  with p(1) show ?thesis by (intro exI[of _ ?s] exI[of _ s'] conjI)
qed

end
