(* ===== verification/ConsoleQueue.thy ===== *)
theory ConsoleQueue
  imports Console UserMem
begin

text \<open>
  The rings of the serial port and of the console. The transmit buffer is a queue in front of
  the chip: characters leave in the order they were put in. The console buffer is a line
  editor: \<open>edit\<close> is what a key does to the pair of the finished text and the line being typed,
  and \<open>consoleintr\<close> refines it.
\<close>

section \<open>The transmit queue\<close>

interpretation uq: ring 32 uart_idx
proof
  show "uart_idx i = unat i mod 32" for i by (simp add: uart_idx_def unat_mod)
qed simp_all

definition uart_bytes :: "'a dev_state_scheme \<Rightarrow> byte list" where
  "uart_bytes s = uq.content (uart_tx_buf s) (uart_tx_r s) (uart_tx_w s)"

definition uart_ok :: "'a dev_state_scheme \<Rightarrow> bool" where
  "uart_ok s \<longleftrightarrow> unat (uart_tx_w s - uart_tx_r s) \<le> 32"

lemma wakeup_dev [simp]:
  "tx_ready (wakeup c s) = tx_ready s" "tx_reads (wakeup c s) = tx_reads s" "tx_out (wakeup c s) = tx_out s"
  "rx (wakeup c s) = rx s" "uart_tx_buf (wakeup c s) = uart_tx_buf s" "uart_tx_w (wakeup c s) = uart_tx_w s"
  "uart_tx_r (wakeup c s) = uart_tx_r s" "panicked (wakeup c s) = panicked s" "cons_buf (wakeup c s) = cons_buf s"
  "cons_r (wakeup c s) = cons_r s" "cons_w (wakeup c s) = cons_w s" "cons_e (wakeup c s) = cons_e s"
  "devsw_console (wakeup c s) = devsw_console s" "ticks (wakeup c s) = ticks s"
  by (simp_all add: wakeup_def)

text \<open>\<open>uartstart\<close> moves a part of the queue to the chip, and stops when the queue is empty or the
  chip is busy.\<close>

lemma uartstart_spec:
  assumes "uart_ok s"
  shows "\<exists>s'. uartstart s = Ok s' \<and> tx_out s' @ uart_bytes s' = tx_out s @ uart_bytes s \<and>
    uart_ok s' \<and> uart_tx_w s' = uart_tx_w s \<and> (uart_bytes s' = [] \<or> \<not> tx_ready s (tx_reads s' - 1))"
proof -
  let ?I = "\<lambda>t. tx_out t @ uart_bytes t = tx_out s @ uart_bytes s \<and> uart_ok t \<and> uart_tx_w t = uart_tx_w s \<and>
    tx_ready t = tx_ready s"
  let ?Q = "\<lambda>t. tx_out t @ uart_bytes t = tx_out s @ uart_bytes s \<and> uart_ok t \<and> uart_tx_w t = uart_tx_w s \<and>
    (uart_bytes t = [] \<or> \<not> tx_ready s (tx_reads t - 1))"
  have "\<exists>r. loop (Suc (unat (uart_tx_w s - uart_tx_r s))) uartstart_step s = Ok r \<and> ?Q r"
  proof (rule loop_rule[where I = ?I and m = "\<lambda>t. unat (uart_tx_w t - uart_tx_r t)"])
    fix t assume I: "?I t"
    show "(\<exists>t'. uartstart_step t = Ok (Next t') \<and> ?I t' \<and>
        unat (uart_tx_w t' - uart_tx_r t') < unat (uart_tx_w t - uart_tx_r t)) \<or>
      (\<exists>r. uartstart_step t = Ok (Done r) \<and> ?Q r)"
    proof (cases "uart_tx_w t = uart_tx_r t")
      case True
      then have "uart_bytes t = []" by (simp add: uart_bytes_def)
      then show ?thesis using I True by (simp add: uartstart_step_def)
    next
      case False
      note pop = uq.content_pop[OF False[symmetric]] and d = uq.unat_pred_diff[OF False[symmetric]]
      show ?thesis
      proof (cases "tx_ready t (tx_reads t)")
        case True
        then show ?thesis using False I d
          by (auto simp: uartstart_step_def uart_bytes_def uart_ok_def write_thr_def Let_def pop)
      next
        case busy: False
        have "uartstart_step t = Ok (Done (t\<lparr>tx_reads := tx_reads t + 1\<rparr>))"
          using False busy by (simp add: uartstart_step_def Let_def)
        then show ?thesis using I busy by (auto simp: uart_bytes_def uart_ok_def)
      qed
    qed
  qed (use assms in simp_all)
  then show ?thesis by (simp add: uartstart_def)
qed

text \<open>C15: \<^verbatim>\<open>uartputc\<close> on a transmit buffer that is not full returns, and characters reach the
  chip in the order of the calls: what the chip has been given followed by what is buffered grows
  by the new character at its end. At most 32 characters are buffered. On a full buffer the caller
  sleeps and nothing has changed.\<close>

theorem uartputc_in_order:
  assumes "uart_ok s" "\<not> panicked s"
  shows "if length (uart_bytes s) < 32
    then \<exists>s'. uartputc c s = Ok s' \<and> tx_out s' @ uart_bytes s' = (tx_out s @ uart_bytes s) @ [c] \<and>
      uart_ok s' \<and> length (uart_bytes s') \<le> 32
    else uartputc c s = Blocked UartChan"
proof -
  have len: "length (uart_bytes s) = unat (uart_tx_w s - uart_tx_r s)" by (simp add: uart_bytes_def)
  have full: "uart_tx_w s = uart_tx_r s + 32 \<longleftrightarrow> \<not> unat (uart_tx_w s - uart_tx_r s) < 32"
  proof
    assume "\<not> unat (uart_tx_w s - uart_tx_r s) < 32"
    then have "unat (uart_tx_w s - uart_tx_r s) = unat (32 :: u64)" using assms(1) by (simp add: uart_ok_def)
    then have "uart_tx_w s - uart_tx_r s = 32" by (simp only: word_unat_eq_iff)
    then show "uart_tx_w s = uart_tx_r s + 32" by (simp add: algebra_simps)
  qed simp
  show ?thesis
  proof (cases "unat (uart_tx_w s - uart_tx_r s) < 32")
    case True
    let ?t = "s\<lparr>uart_tx_buf := (uart_tx_buf s)(uart_idx (uart_tx_w s) := c), uart_tx_w := uart_tx_w s + 1\<rparr>"
    have b: "uart_bytes ?t = uart_bytes s @ [c]" using uq.content_push[OF True] by (simp add: uart_bytes_def)
    have "uart_ok ?t" using uq.unat_Suc_diff[OF True] True by (simp add: uart_ok_def)
    from uartstart_spec[OF this] obtain s' where
      s': "uartstart ?t = Ok s'" "tx_out s' @ uart_bytes s' = tx_out ?t @ uart_bytes ?t" "uart_ok s'" by blast
    have "uartputc c s = Ok s'" using True full assms(2) s'(1) by (simp add: uartputc_def Let_def)
    moreover have "length (uart_bytes s') \<le> 32" using s'(3) by (simp add: uart_bytes_def uart_ok_def)
    ultimately show ?thesis using True s'(2,3) b len by simp
  next
    case False
    then show ?thesis using full assms(2) len by (simp add: uartputc_def)
  qed
qed


theorem uartputc_in_order_witness:
  "\<exists>s. uartputc 65 dev0 = Ok s \<and> tx_out s @ uart_bytes s = [65]"
proof -
  have "uart_ok dev0" "\<not> panicked dev0" "uart_bytes dev0 = []" "tx_out dev0 = []"
    by (simp_all add: uart_ok_def uart_bytes_def dev0_def)
  with uartputc_in_order[of dev0 65] show ?thesis by auto
qed

section \<open>Output that waits for the chip\<close>

text \<open>The chip never stops answering.\<close>

definition tx_live :: "'a dev_state_scheme \<Rightarrow> bool" where
  "tx_live s \<longleftrightarrow> \<not> panicked s \<and> (\<forall>i. \<exists>j \<ge> i. tx_ready s j)"

definition printed :: "'a dev_state_scheme \<Rightarrow> byte list \<Rightarrow> 'a dev_state_scheme \<Rightarrow> bool" where
  "printed s cs s' \<longleftrightarrow> (\<exists>n. s' = s\<lparr>tx_reads := n, tx_out := tx_out s @ cs\<rparr>)"

lemma printed_trans: "printed s cs s' \<Longrightarrow> printed s' ds s'' \<Longrightarrow> printed s (cs @ ds) s''"
  by (auto simp: printed_def)

lemma printed_live: "printed s cs s' \<Longrightarrow> tx_live s \<Longrightarrow> tx_live s'"
  by (auto simp: printed_def tx_live_def)

lemma printed_nil [simp]: "printed s [] s"
  by (auto simp: printed_def intro!: exI[of _ "tx_reads s"])

lemma tx_wait_returns: "ready j \<Longrightarrow> i \<le> j \<Longrightarrow> \<exists>k. tx_wait ready i = Some k"
proof (induction "j - i" arbitrary: i)
  case 0
  then show ?case by (subst tx_wait.simps) simp
next
  case (Suc n)
  then show ?case by (subst tx_wait.simps) auto
qed

lemma uartputc_sync_ok: "tx_live s \<Longrightarrow> \<exists>s'. uartputc_sync c s = Ok s' \<and> printed s [c] s'"
proof -
  assume a: "tx_live s"
  then obtain j where "tx_ready s j" "tx_reads s \<le> j" by (auto simp: tx_live_def)
  from tx_wait_returns[of "tx_ready s", OF this] a show ?thesis
    by (auto simp: uartputc_sync_def printed_def write_thr_def tx_live_def intro!: exI[of _ "Suc _"])
qed

lemma consputc_ok: "tx_live s \<Longrightarrow> \<exists>s'. consputc c s = Ok s' \<and> printed s (if c = BACKSPACE then [8, 32, 8] else [word_of_int c]) s'"
proof (cases "c = BACKSPACE")
  case True
  assume a: "tx_live s"
  from uartputc_sync_ok[OF a, of 8] obtain s1 where 1: "uartputc_sync 8 s = Ok s1" "printed s [8] s1" by blast
  from uartputc_sync_ok[OF printed_live[OF 1(2) a], of 32] obtain s2 where
    2: "uartputc_sync 32 s1 = Ok s2" "printed s1 [32] s2" by blast
  from uartputc_sync_ok[OF printed_live[OF 2(2) printed_live[OF 1(2) a]], of 8] obtain s3 where
    3: "uartputc_sync 8 s2 = Ok s3" "printed s2 [8] s3" by blast
  show ?thesis using 1(1) 2(1) 3(1) printed_trans[OF printed_trans[OF 1(2) 2(2)] 3(2)] True
    by (simp add: consputc_def)
next
  case False
  assume "tx_live s"
  then show ?thesis using uartputc_sync_ok False by (simp add: consputc_def)
qed

lemma putchars_ok: "tx_live s \<Longrightarrow> \<exists>s'. putchars cs s = Ok s' \<and> printed s cs s'"
proof (induction cs arbitrary: s)
  case (Cons c cs)
  from consputc_ok[OF Cons.prems, of "uint c"] obtain s1 where
    1: "consputc (uint c) s = Ok s1" "printed s [c] s1"
    using uint_bounded[of c] by (auto split: if_splits)
  from Cons.IH[OF printed_live[OF 1(2) Cons.prems]] obtain s2 where
    2: "putchars cs s1 = Ok s2" "printed s1 cs s2" by blast
  show ?case using 1(1) 2(1) printed_trans[OF 1(2) 2(2)] by (simp add: putchars_def)
qed (simp add: putchars_def)


text \<open>What \<open>printf\<close> prints: \<open>None\<close> when the arguments do not fit the format.\<close>

fun fmt_text :: "byte list \<Rightarrow> va_arg list \<Rightarrow> byte list option" where
  "fmt_text [] ap = Some []"
| "fmt_text [c] ap = Some (if c = 37 then [] else [c])"
| "fmt_text (c # d # fmt) ap =
    (if c \<noteq> 37 then map_option ((#) c) (fmt_text (d # fmt) ap)
     else if d = 100 \<or> d = 120 then
       (case ap of VInt x # ap \<Rightarrow>
          map_option ((@) (printint_chars x (if d = 100 then 10 else 16) True)) (fmt_text fmt ap) | _ \<Rightarrow> None)
     else if d = 112 then
       (case ap of VPtr x # ap \<Rightarrow> map_option ((@) (48 # 120 # printptr_chars 16 x)) (fmt_text fmt ap) | _ \<Rightarrow> None)
     else if d = 115 then
       (case ap of VStr x # ap \<Rightarrow>
          map_option ((@) (case x of None \<Rightarrow> bytes_of ''(null)'' | Some bs \<Rightarrow> bs)) (fmt_text fmt ap) | _ \<Rightarrow> None)
     else map_option ((@) (if d = 37 then [37] else [37, d])) (fmt_text fmt ap))"

lemma putchars_Nil: "putchars [] = Ok"
  by (rule ext) (simp add: putchars_def)

lemma putchars_Cons: "putchars (c # cs) = (\<lambda>s. and_then (consputc (uint c) s) (putchars cs))"
  by (rule ext) (simp add: putchars_def[abs_def])

lemma putchars_append: "putchars (cs @ ds) = (\<lambda>s. and_then (putchars cs s) (putchars ds))"
  by (rule ext) (simp add: putchars_def[abs_def] for_each_append)

lemma putchars_append2: "putchars (a # b # cs @ ds) = (\<lambda>s. and_then (putchars (a # b # cs) s) (putchars ds))"
  using putchars_append[of "a # b # cs" ds] by simp

lemma printf_chars_Nil: "printf_chars [] ap = Ok"
  by (rule ext) simp

lemma printf_chars_text: "fmt_text fmt ap = Some t \<Longrightarrow> printf_chars fmt ap = putchars t"
proof (induction fmt ap arbitrary: t rule: fmt_text.induct)
  case (1 ap)
  then show ?case by (auto simp: putchars_Nil)
next
  case (2 c ap)
  then show ?case
    by (auto simp: putchars_Nil putchars_Cons printf_chars_Nil fun_eq_iff simp del: printf_chars.simps(1))
next
  case (3 c d fmt ap)
  note IH = "3.IH" and ft = "3.prems"
  consider "c \<noteq> 37" | "c = 37" "d = 100 \<or> d = 120" | "c = 37" "d = 112" | "c = 37" "d = 115"
    | "c = 37" "d \<noteq> 100" "d \<noteq> 120" "d \<noteq> 112" "d \<noteq> 115" by blast
  then show ?case
  proof cases
    case 1
    then obtain z where z: "fmt_text (d # fmt) ap = Some z" "t = c # z" using ft by auto
    show ?thesis
    proof (rule ext)
      fix s :: "'a dev_state_scheme"
      have "printf_chars (c # d # fmt) ap s = and_then (consputc (uint c) s) (printf_chars (d # fmt) ap)"
        using 1 by simp
      then show "printf_chars (c # d # fmt) ap s = putchars t s"
        by (simp only: z(2) putchars_Cons IH(1)[OF 1 z(1)])
    qed
  next
    case 2
    then show ?thesis using ft IH(2)
      by (intro ext) (auto simp: putchars_append printint_def split: list.splits va_arg.splits)
  next
    case 3
    then show ?thesis using ft IH(3)
      by (intro ext) (auto simp: printptr_def putchars_append2 split: list.splits va_arg.splits)
  next
    case 4
    then show ?thesis using ft IH(4)
      by (intro ext) (auto simp: putchars_append split: list.splits va_arg.splits)
  next
    case 5
    then show ?thesis using ft IH(5)
      by (intro ext) (auto simp: putchars_Cons)
  qed
qed

lemma printf_ok:
  "tx_live s \<Longrightarrow> fmt_text f ap = Some t \<Longrightarrow> \<exists>s'. printf (Some f) ap s = Ok s' \<and> printed s t s'"
  by (simp add: printf_def printf_chars_text putchars_ok)


section \<open>The line editor\<close>

interpretation cq: ring 128 cons_idx
proof
  show "cons_idx i = unat i mod 128" for i by (simp add: cons_idx_def unat_mod)
qed simp_all

text \<open>The text in the buffer; the part of it that readers may have; the line being typed.\<close>

definition typed :: "'a dev_state_scheme \<Rightarrow> byte list" where
  "typed s = cq.content (cons_buf s) (cons_r s) (cons_e s)"

definition finished :: "'a dev_state_scheme \<Rightarrow> byte list" where
  "finished s = take (unat (cons_w s - cons_r s)) (typed s)"

definition editing :: "'a dev_state_scheme \<Rightarrow> byte list" where
  "editing s = drop (unat (cons_w s - cons_r s)) (typed s)"

definition cons_ok :: "'a dev_state_scheme \<Rightarrow> bool" where
  "cons_ok s \<longleftrightarrow> unat (cons_w s - cons_r s) \<le> unat (cons_e s - cons_r s) \<and>
     unat (cons_e s - cons_r s) \<le> 128 \<and> 10 \<notin> set (editing s)"

text \<open>What a key does to the finished text and the line being typed.\<close>

fun edit :: "byte \<Rightarrow> byte list \<times> byte list \<Rightarrow> byte list \<times> byte list" where
  "edit c (fin, line) =
    (if c = 16 then (fin, line)
     else if c = 21 then (fin, [])
     else if c = 8 \<or> c = 127 then (fin, butlast line)
     else if c \<noteq> 0 \<and> length fin + length line < 128 then
       let c = (if c = 13 then 10 else c); line = line @ [c] in
       if c = 10 \<or> c = 4 \<or> length fin + length line = 128 then (fin @ line, []) else (fin, line)
     else (fin, line))"

lemma finished_editing: "finished s @ editing s = typed s"
  by (simp add: finished_def editing_def)

lemma length_typed: "length (typed s) = unat (cons_e s - cons_r s)"
  by (simp add: typed_def)

lemma printed_cons:
  assumes "printed s cs s'"
  shows "typed s' = typed s" "finished s' = finished s" "editing s' = editing s" "cons_ok s' = cons_ok s"
    "cons_r s' = cons_r s" "cons_w s' = cons_w s" "cons_e s' = cons_e s" "cons_buf s' = cons_buf s"
    "rx s' = rx s" "uart_bytes s' = uart_bytes s" "uart_ok s' = uart_ok s" "procs s' = procs s"
  using assms by (auto simp: printed_def typed_def finished_def editing_def cons_ok_def uart_bytes_def uart_ok_def)

lemma editing_empty_iff:
  assumes "cons_ok s"
  shows "editing s = [] \<longleftrightarrow> cons_e s = cons_w s"
proof -
  have "editing s = [] \<longleftrightarrow> unat (cons_e s - cons_r s) = unat (cons_w s - cons_r s)"
    using assms by (simp add: editing_def length_typed cons_ok_def) linarith
  also have "\<dots> \<longleftrightarrow> cons_e s - cons_r s = cons_w s - cons_r s" by (simp only: word_unat_eq_iff)
  finally show ?thesis by simp
qed

text \<open>Moving the edit index back drops the last character of the line.\<close>

lemma edit_back:
  assumes "cons_ok s" "cons_e s \<noteq> cons_w s"
  defines "t \<equiv> s\<lparr>cons_e := cons_e s - 1\<rparr>"
  shows "finished t = finished s" "editing s = editing t @ [cons_buf s (cons_idx (cons_e s - 1))]" "cons_ok t"
    "length (editing t) < length (editing s)"
proof -
  have ne: "cons_r s \<noteq> cons_e s"
  proof
    assume "cons_r s = cons_e s"
    then have "unat (cons_w s - cons_r s) = 0" using assms(1) by (simp add: cons_ok_def)
    then have "cons_w s - cons_r s = 0" by (simp only: unat_eq_zero)
    then have "cons_w s = cons_r s" by simp
    with assms(2) \<open>cons_r s = cons_e s\<close> show False by simp
  qed
  have ty: "typed s = typed t @ [cons_buf s (cons_idx (cons_e s - 1))]"
    using cq.content_unpush[OF ne] by (simp add: typed_def t_def)
  have "unat (cons_w s - cons_r s) \<noteq> unat (cons_e s - cons_r s)"
  proof
    assume "unat (cons_w s - cons_r s) = unat (cons_e s - cons_r s)"
    then have "cons_w s - cons_r s = cons_e s - cons_r s" by (simp only: word_unat_eq_iff)
    with assms(2) show False by simp
  qed
  moreover have len: "length (typed s) = Suc (length (typed t))" using ty by simp
  ultimately have le: "unat (cons_w s - cons_r s) \<le> length (typed t)" "length (typed t) \<le> 128"
    using assms(1) by (simp_all add: cons_ok_def length_typed)
  have w: "cons_w t = cons_w s" "cons_r t = cons_r s" by (simp_all add: t_def)
  show f: "finished t = finished s" "editing s = editing t @ [cons_buf s (cons_idx (cons_e s - 1))]"
    using le(1) by (simp_all add: finished_def editing_def ty w)
  show "length (editing t) < length (editing s)" by (simp add: f(2))
  have "10 \<notin> set (editing t)" using assms(1) by (simp add: cons_ok_def f(2))
  then show "cons_ok t" using le unfolding length_typed cons_ok_def w by simp
qed


lemma edit_put:
  fixes c :: byte
  assumes "cons_ok s" "length (typed s) < 128"
  defines "t \<equiv> s\<lparr>cons_buf := (cons_buf s)(cons_idx (cons_e s) := c), cons_e := cons_e s + 1\<rparr>"
  shows "finished t = finished s" "editing t = editing s @ [c]" "typed t = typed s @ [c]"
proof -
  have l: "unat (cons_e s - cons_r s) < 128" using assms(2) by (simp only: length_typed)
  show ty: "typed t = typed s @ [c]" using cq.content_push[OF l] by (simp add: typed_def t_def)
  have "unat (cons_w s - cons_r s) \<le> length (typed s)" using assms(1) by (simp add: cons_ok_def length_typed)
  then show "finished t = finished s" "editing t = editing s @ [c]"
    unfolding finished_def editing_def ty by (simp_all add: t_def)
qed

lemma edit_commit:
  assumes "cons_ok s \<or> length (typed s) \<le> 128"
  shows "finished (s\<lparr>cons_w := cons_e s\<rparr>) = typed s" "editing (s\<lparr>cons_w := cons_e s\<rparr>) = []"
    "cons_ok (s\<lparr>cons_w := cons_e s\<rparr>)"
proof -
  have ty: "typed (s\<lparr>cons_w := cons_e s\<rparr>) = typed s" by (simp add: typed_def)
  show f: "finished (s\<lparr>cons_w := cons_e s\<rparr>) = typed s" "editing (s\<lparr>cons_w := cons_e s\<rparr>) = []"
    by (simp_all add: finished_def editing_def ty length_typed)
  show "cons_ok (s\<lparr>cons_w := cons_e s\<rparr>)"
    using assms f(2) by (auto simp: cons_ok_def length_typed)
qed

text \<open>A step of the console: the text in the buffer is what \<open>edit\<close> says, and the rest of the
  device state is untouched.\<close>

definition edited :: "'a dev_state_scheme \<Rightarrow> byte list \<times> byte list \<Rightarrow> 'a dev_state_scheme \<Rightarrow> bool" where
  "edited s v s' \<longleftrightarrow> cons_ok s' \<and> (finished s', editing s') = v \<and> tx_live s' \<and> rx s' = rx s \<and>
     uart_bytes s' = uart_bytes s \<and> uart_ok s' = uart_ok s \<and> cons_r s' = cons_r s"

lemma edited_printed:
  assumes "printed s cs s'" "cons_ok s" "tx_live s"
  shows "edited s (finished s, editing s) s'"
  using assms(2,3) printed_cons[OF assms(1)] printed_live[OF assms(1)] by (simp add: edited_def)

lemma tx_live_upd [simp]:
  "tx_live (s\<lparr>cons_e := e\<rparr>) = tx_live s" "tx_live (s\<lparr>cons_w := e\<rparr>) = tx_live s"
  "tx_live (s\<lparr>cons_r := e\<rparr>) = tx_live s" "tx_live (s\<lparr>cons_buf := b\<rparr>) = tx_live s"
  "tx_live (wakeup ch s) = tx_live s"
  by (simp_all add: tx_live_def)

lemma edited_wakeup: "edited s v (wakeup c t) = edited s v t"
  by (simp add: edited_def cons_ok_def finished_def editing_def typed_def uart_bytes_def uart_ok_def)

lemma backspace_ok:
  assumes "cons_ok s" "tx_live s" "cons_e s \<noteq> cons_w s"
  shows "\<exists>s'. consputc BACKSPACE (s\<lparr>cons_e := cons_e s - 1\<rparr>) = Ok s' \<and>
    edited s (finished s, butlast (editing s)) s' \<and> length (editing s') < length (editing s)"
proof -
  let ?t = "s\<lparr>cons_e := cons_e s - 1\<rparr>"
  note b = edit_back[OF assms(1,3)]
  from consputc_ok[of ?t BACKSPACE] assms(2) obtain s' where
    s': "consputc BACKSPACE ?t = Ok s'" "printed ?t [8, 32, 8] s'" by auto
  have live: "tx_live ?t" using assms(2) by simp
  from edited_printed[OF s'(2) b(3) live]
  have "edited s (finished s, butlast (editing s)) s'" by (simp add: edited_def b(1,2) uart_bytes_def uart_ok_def)
  with s' b(4) show ?thesis using printed_cons(3)[OF s'(2)] by auto
qed

lemma length_editing:
  assumes "cons_ok s"
  shows "length (editing s) = unat (cons_e s - cons_w s)"
proof -
  have le: "cons_w s - cons_r s \<le> cons_e s - cons_r s" using assms by (simp add: cons_ok_def word_le_nat_alt)
  have "cons_e s - cons_w s = (cons_e s - cons_r s) - (cons_w s - cons_r s)" by simp
  then have "unat (cons_e s - cons_w s) = unat (cons_e s - cons_r s) - unat (cons_w s - cons_r s)"
    by (simp only: unat_sub[OF le])
  then show ?thesis by (simp add: editing_def length_typed)
qed

lemma kill_line_ok:
  assumes "cons_ok s" "tx_live s"
  shows "\<exists>s'. loop (Suc (unat (cons_e s - cons_w s))) kill_line_step s = Ok s' \<and> edited s (finished s, []) s'"
proof (rule loop_rule[where m = "\<lambda>t. length (editing t)" and I = "\<lambda>t. edited s (finished s, editing t) t"])
  show "edited s (finished s, editing s) s" using assms by (simp add: edited_def)
  show "length (editing s) < Suc (unat (cons_e s - cons_w s))" by (simp add: length_editing[OF assms(1)])
  fix t assume I: "edited s (finished s, editing t) t"
  then have t: "cons_ok t" "tx_live t" by (simp_all add: edited_def)
  show "(\<exists>s'. kill_line_step t = Ok (Next s') \<and> edited s (finished s, editing s') s' \<and>
        length (editing s') < length (editing t)) \<or>
      (\<exists>r. kill_line_step t = Ok (Done r) \<and> edited s (finished s, []) r)"
  proof (cases "cons_e t = cons_w t")
    case True
    then have "editing t = []" using editing_empty_iff[OF t(1)] by simp
    then show ?thesis using True I by (simp add: kill_line_step_def)
  next
    case False
    have "cons_buf t (cons_idx (cons_e t - 1)) \<noteq> 10"
      using t(1) edit_back(2)[OF t(1) False] by (auto simp: cons_ok_def)
    moreover obtain s' where s': "consputc BACKSPACE (t\<lparr>cons_e := cons_e t - 1\<rparr>) = Ok s'"
      "edited t (finished t, butlast (editing t)) s'" "length (editing s') < length (editing t)"
      using backspace_ok[OF t False] by blast
    moreover have "edited s (finished s, editing s') s'" using I s'(2) by (simp add: edited_def)
    ultimately show ?thesis using False by (simp add: kill_line_step_def)
  qed
qed

lemma put_ok:
  assumes "cons_ok s" "tx_live s" "length (typed s) < 128"
  shows "\<exists>s'. and_then (consputc (uint c) s) (\<lambda>s.
       let s = s\<lparr>cons_buf := (cons_buf s)(cons_idx (cons_e s) := c), cons_e := cons_e s + 1\<rparr> in
       if c = 10 \<or> c = 4 \<or> cons_e s - cons_r s = 128
       then Ok (wakeup ConsChan (s\<lparr>cons_w := cons_e s\<rparr>)) else Ok s) = Ok s' \<and>
    edited s (let line = editing s @ [c] in
       if c = 10 \<or> c = 4 \<or> length (finished s) + length line = 128 then (finished s @ line, [])
       else (finished s, line)) s'" (is "\<exists>s'. and_then _ ?f = Ok s' \<and> _")
proof -
  from putchars_ok[OF assms(2), of "[c]"] obtain s1 where
    s1: "consputc (uint c) s = Ok s1" "printed s [c] s1" by (auto simp: putchars_def and_then_Ok_iff)
  note p = printed_cons[OF s1(2)] and live = printed_live[OF s1(2) assms(2)]
  define t where "t = s1\<lparr>cons_buf := (cons_buf s1)(cons_idx (cons_e s1) := c), cons_e := cons_e s1 + 1\<rparr>"
  have l: "length (typed s1) < 128" and ok: "cons_ok s1" using assms by (simp_all only: p)
  note e = edit_put[OF ok l, of c, folded t_def]
  have fr: "rx t = rx s" "uart_bytes t = uart_bytes s" "uart_ok t = uart_ok s" "cons_r t = cons_r s"
    "tx_live t" "cons_w t = cons_w s1" "cons_r t = cons_r s1"
    using p(5,9,10,11) live by (simp_all add: t_def uart_bytes_def uart_ok_def)
  have body: "?f s1 = (if c = 10 \<or> c = 4 \<or> cons_e t - cons_r t = 128
      then Ok (wakeup ConsChan (t\<lparr>cons_w := cons_e t\<rparr>)) else Ok t)" by (simp only: t_def Let_def)
  have full: "cons_e t - cons_r t = 128 \<longleftrightarrow> length (typed t) = 128"
    unfolding length_typed by (simp only: word_unat_eq_iff) simp
  have tl: "length (typed t) \<le> 128" using l unfolding e(3) by simp
  have ty: "typed t = finished s @ editing s @ [c]" unfolding e(3) using finished_editing[of s1] p(2,3) by simp
  show ?thesis
  proof (cases "c = 10 \<or> c = 4 \<or> length (typed t) = 128")
    case True
    note cm = edit_commit[OF disjI2, OF tl]
    have "edited s (finished s @ editing s @ [c], []) (t\<lparr>cons_w := cons_e t\<rparr>)"
      unfolding edited_def cm(1,2) ty using cm(3) fr(1-5) by (simp add: uart_bytes_def uart_ok_def)
    then show ?thesis using True ty unfolding s1(1) and_then.simps body full by (auto simp: edited_wakeup Let_def)
  next
    case False
    have "10 \<notin> set (editing t)" using False ok by (simp add: e(2) cons_ok_def)
    moreover have "unat (cons_w t - cons_r t) \<le> length (typed t)"
      using ok unfolding e(3) fr(6,7) by (simp add: cons_ok_def length_typed)
    ultimately have "cons_ok t" using tl unfolding cons_ok_def length_typed by simp
    then have "edited s (finished s, editing s @ [c]) t" using fr(1-5) e(1,2) p(2,3) by (simp add: edited_def)
    then show ?thesis using False ty unfolding s1(1) and_then.simps body full by (auto simp: Let_def)
  qed
qed


lemma procdump_ok: "tx_live s \<Longrightarrow> \<exists>s' t. procdump s = Ok s' \<and> printed s t s'"
proof -
  assume live: "tx_live s"
  have nl: "fmt_text (bytes_of ''\<newline>'') [] = Some [10]" by (simp add: bytes_of_def)
  from printf_ok[OF live nl] obtain s1 where
    s1: "printf (Some (bytes_of ''\<newline>'')) [] s = Ok s1" "printed s [10] s1" by blast
  let ?body = "\<lambda>i s. let p = procs s i in
      if p_state p = UNUSED then Ok s
      else and_then (printf (Some (bytes_of ''%d %s %s''))
             [VInt (word_of_int (p_pid p)), VStr (Some (bytes_of (state_name (p_state p)))),
              VStr (Some (cname (p_name p) 16))] s) (\<lambda>s.
           printf (Some (bytes_of ''\<newline>'')) [] s)"
  have step: "\<exists>t'. ?body i t = Ok t' \<and> (\<exists>cs. printed s cs t') \<and> tx_live t'"
    if t: "\<exists>cs. printed s cs t" "tx_live t" for i t
  proof (cases "p_state (procs t i) = UNUSED")
    case False
    obtain x where x: "fmt_text (bytes_of ''%d %s %s'') [VInt (word_of_int (p_pid (procs t i))),
        VStr (Some (bytes_of (state_name (p_state (procs t i))))), VStr (Some (cname (p_name (procs t i)) 16))] = Some x"
      by (simp add: bytes_of_def)
    from printf_ok[OF t(2) x] obtain t1 where
      t1: "printf (Some (bytes_of ''%d %s %s'')) [VInt (word_of_int (p_pid (procs t i))),
        VStr (Some (bytes_of (state_name (p_state (procs t i))))), VStr (Some (cname (p_name (procs t i)) 16))] t = Ok t1"
        "printed t x t1" by blast
    note live1 = printed_live[OF t1(2) t(2)]
    from printf_ok[OF live1 nl] obtain t2 where
      t2: "printf (Some (bytes_of ''\<newline>'')) [] t1 = Ok t2" "printed t1 [10] t2" by blast
    have "\<exists>cs. printed s cs t2" using t(1) printed_trans t1(2) t2(2) by blast
    then show ?thesis using False t1(1) t2 printed_live[OF t2(2) live1] by (simp add: Let_def)
  qed (use t in simp)
  have "\<exists>s'. for_each ?body [0..<NPROC] s1 = Ok s' \<and> (\<exists>cs. printed s cs s') \<and> tx_live s'"
    by (rule for_each_rule[where I = "\<lambda>_ t. (\<exists>cs. printed s cs t) \<and> tx_live t"])
      (use s1(2) printed_live[OF s1(2) live] step in blast)+
  then show ?thesis using s1(1) by (auto simp: procdump_def)
qed

lemma consoleintr_edits:
  assumes "cons_ok s" "tx_live s"
  shows "\<exists>s'. consoleintr c s = Ok s' \<and> edited s (edit c (finished s, editing s)) s'"
proof -
  have fl: "length (finished s) + length (editing s) = unat (cons_e s - cons_r s)"
    using finished_editing[of s] length_typed[of s] by (metis length_append)
  have room: "cons_e s - cons_r s < 128 \<longleftrightarrow> unat (cons_e s - cons_r s) < 128"
    by (simp add: word_less_nat_alt)
  have self: "edited s (finished s, editing s) s" using assms by (simp add: edited_def)
  consider "c = 16" | "c = 21" | "c = 8 \<or> c = 127" | "c \<notin> {16, 21, 8, 127}" "c = 0 \<or> \<not> unat (cons_e s - cons_r s) < 128"
    | "c \<notin> {16, 21, 8, 127}" "c \<noteq> 0" "unat (cons_e s - cons_r s) < 128" by blast
  then show ?thesis
  proof cases
    case 1
    from procdump_ok[OF assms(2)] obtain s' t where "procdump s = Ok s'" "printed s t s'" by blast
    then show ?thesis using 1 edited_printed[OF _ assms] by (simp add: consoleintr_def)
  next
    case 2
    then show ?thesis using kill_line_ok[OF assms] by (simp add: consoleintr_def)
  next
    case 3
    then show ?thesis using backspace_ok[OF assms] self editing_empty_iff[OF assms(1)]
      by (cases "cons_e s = cons_w s") (auto simp: consoleintr_def)
  next
    case 4
    then show ?thesis using self by (auto simp: consoleintr_def room fl)
  next
    case 5
    define d where "d = (if c = 13 then 10 else c)"
    have e: "edit c (finished s, editing s) = (let line = editing s @ [d] in
       if d = 10 \<or> d = 4 \<or> length (finished s) + length line = 128 then (finished s @ line, [])
       else (finished s, line))" using 5 fl by (simp add: d_def Let_def)
    from 5 have "length (typed s) < 128" by (simp add: length_typed)
    from put_ok[OF assms this, of d] show ?thesis unfolding e using 5
      by (simp add: consoleintr_def room flip: d_def)
  qed
qed

lemma edited_step:
  assumes "edited s v t"
  shows "cons_ok t" "tx_live t" "(finished t, editing t) = v"
  using assms by (simp_all add: edited_def)

lemma uartintr_loop:
  assumes "cons_ok s" "tx_live s"
  shows "\<exists>s'. loop (Suc (length (rx s))) uartintr_step s = Ok s' \<and> rx s' = [] \<and>
    edited (s\<lparr>rx := []\<rparr>) (fold edit (rx s) (finished s, editing s)) s'"
proof -
  have cs: "\<exists>s'. loop (Suc (length cs)) uartintr_step s = Ok s' \<and> rx s' = [] \<and>
    edited (s\<lparr>rx := []\<rparr>) (fold edit cs (finished s, editing s)) s'" if "rx s = cs" for cs
    using that assms
  proof (induction cs arbitrary: s)
    case Nil
    then show ?case by (auto simp: uartintr_step_def uartgetc_def edited_def uart_bytes_def uart_ok_def)
  next
    case (Cons c cs)
    let ?t = "s\<lparr>rx := cs\<rparr>"
    have t: "cons_ok ?t" "tx_live ?t" "finished ?t = finished s" "editing ?t = editing s"
      using Cons.prems(2,3) by (simp_all add: cons_ok_def finished_def editing_def typed_def tx_live_def)
    from consoleintr_edits[OF t(1,2), of c] obtain s1 where
      s1: "consoleintr c ?t = Ok s1" "edited ?t (edit c (finished s, editing s)) s1" unfolding t(3,4) by blast
    have rx: "rx s1 = cs" using s1(2) by (simp add: edited_def)
    from Cons.IH[OF rx edited_step(1,2)[OF s1(2)]] obtain s' where
      s': "loop (Suc (length cs)) uartintr_step s1 = Ok s'" "rx s' = []"
        "edited (s1\<lparr>rx := []\<rparr>) (fold edit cs (edit c (finished s, editing s))) s'"
      unfolding edited_step(3)[OF s1(2)] by blast
    have "edited (s\<lparr>rx := []\<rparr>) (fold edit (c # cs) (finished s, editing s)) s'"
      using s'(3) s1(2) by (simp add: edited_def uart_bytes_def uart_ok_def)
    moreover have "uartintr_step s = Ok (Next s1)"
      using s1(1) Cons.prems(1) by (simp add: uartintr_step_def uartgetc_def)
    ultimately show ?case using s'(1,2) by (simp del: edit.simps loop.simps(2) add: loop.simps(2)[of _ _ s])
  qed
  show ?thesis by (rule cs) simp
qed

lemma uartstart_cons:
  assumes "uartstart s = Ok s'"
  shows "finished s' = finished s" "editing s' = editing s" "rx s' = rx s" "cons_ok s' = cons_ok s"
proof -
  let ?P = "\<lambda>t. cons_buf t = cons_buf s \<and> cons_r t = cons_r s \<and> cons_w t = cons_w s \<and> cons_e t = cons_e s \<and> rx t = rx s"
  have step: "?P t \<Longrightarrow> uartstart_step t = Ok (Next t') \<Longrightarrow> ?P t'" "?P t \<Longrightarrow> uartstart_step t = Ok (Done t') \<Longrightarrow> ?P t'" for t t'
    by (auto simp: uartstart_step_def Let_def write_thr_def split: if_splits)
  have "?P s'" by (rule loop_returned[where I = ?P, OF assms[unfolded uartstart_def]]) (use step in simp_all)
  then show "finished s' = finished s" "editing s' = editing s" "rx s' = rx s" "cons_ok s' = cons_ok s"
    by (simp_all add: finished_def editing_def typed_def cons_ok_def)
qed

text \<open>C14: The console refines a line editor. The receive interrupt takes all characters that have
  arrived, in order, and each acts on the finished text and the line being typed as \<open>edit\<close> says:
  control-U erases the line, backspace its last character, carriage return is newline, newline,
  control-D and the 128th character finish the line, other characters are appended while there
  is room, and nothing else changes the text. The interrupt returns, and the invariant of the
  buffer is kept. The serial chip is assumed not to stay busy for ever.\<close>

theorem uartintr_edits:
  assumes "cons_ok s" "tx_live s" "uart_ok s"
  shows "\<exists>s'. uartintr s = Ok s' \<and> rx s' = [] \<and> cons_ok s' \<and>
    (finished s', editing s') = fold edit (rx s) (finished s, editing s)"
proof -
  from uartintr_loop[OF assms(1,2)] obtain t where
    t: "loop (Suc (length (rx s))) uartintr_step s = Ok t" "rx t = []"
      "edited (s\<lparr>rx := []\<rparr>) (fold edit (rx s) (finished s, editing s)) t" by blast
  have "uart_ok t" using t(3) assms(3) by (simp add: edited_def uart_ok_def)
  from uartstart_spec[OF this] obtain s' where s': "uartstart t = Ok s'" by blast
  have "uartintr s = Ok s'" using t(1) s' by (simp add: uartintr_def)
  then show ?thesis using uartstart_cons[OF s'] t(2) edited_step[OF t(3)] by simp
qed

theorem uartintr_edits_witness:
  "\<exists>s'. uartintr (dev0\<lparr>rx := [65, 66, 8, 13]\<rparr>) = Ok s' \<and> rx s' = [] \<and> finished s' = [65, 10] \<and> editing s' = []"
proof -
  let ?s = "dev0\<lparr>rx := [65, 66, 8, 13]\<rparr>"
  have "typed ?s = []" by (simp add: typed_def dev0_def)
  then have "cons_ok ?s" "finished ?s = []" "editing ?s = []"
    by (simp_all add: cons_ok_def finished_def editing_def) (simp_all add: dev0_def)
  moreover have "tx_live ?s" "uart_ok ?s" by (auto simp: tx_live_def uart_ok_def dev0_def)
  ultimately show ?thesis using uartintr_edits[of ?s] by auto
qed

end
