(* ===== verification/ULib.thy ===== *)
theory ULib
  imports CString
begin

text \<open>
  The user library, \<^verbatim>\<open>user/ulib.c\<close> and \<^verbatim>\<open>user/printf.c\<close>. A string argument is the
  list of its bytes before the terminator; \<open>strcpy\<close> and the memory functions work on the
  address space of the process. Names that \<^verbatim>\<open>kernel/string.c\<close> uses too carry a \<open>u\<close>.
  Input from a file descriptor is the list of the bytes still to come: the system call
  \<^verbatim>\<open>read\<close> delivers them in pieces, of sizes that \<open>read_n\<close> takes from a schedule.
\<close>

section \<open>Strings\<close>

text \<open>\<open>None\<close> when the source has no terminator.\<close>

partial_function (option) strcpy :: "u64 \<Rightarrow> u64 \<Rightarrow> memory \<Rightarrow> memory option" where
  [code]: "strcpy s t m =
    (let c = m t; m = m(s := c) in if c \<noteq> 0 then strcpy (s + 1) (t + 1) m else Some m)"

fun strcmp :: "byte list \<Rightarrow> byte list \<Rightarrow> int" where
  "strcmp (x # p) (y # q) = (if x = y then strcmp p q else uint x - uint y)"
| "strcmp (x # p) [] = uint x"
| "strcmp [] (y # q) = - uint y"
| "strcmp [] [] = 0"

definition ustrlen :: "byte list \<Rightarrow> u32" where
  "ustrlen s = of_nat (length s)"

definition umemset :: "u64 \<Rightarrow> byte \<Rightarrow> u32 \<Rightarrow> memory \<Rightarrow> memory" where
  "umemset dst c n m = memset_loop dst c [0..<unat n] m"

text \<open>The index of the first \<open>c\<close> before the first zero byte.\<close>

fun strchr :: "byte list \<Rightarrow> byte \<Rightarrow> nat option" where
  "strchr [] c = None"
| "strchr (x # s) c = (if x = 0 then None else if x = c then Some 0 else map_option Suc (strchr s c))"

text \<open>The characters stored before the terminator, and the input that remains. \<open>fuel\<close> counts the
  places left in the buffer.\<close>

fun gets_loop :: "nat \<Rightarrow> byte list \<Rightarrow> byte list \<times> byte list" where
  "gets_loop 0 inp = ([], inp)"
| "gets_loop (Suc n) inp =
    (case inp of
       [] \<Rightarrow> ([], [])
     | c # inp \<Rightarrow>
        if c = 10 \<or> c = 13 then ([c], inp)
        else case gets_loop n inp of (buf, inp) \<Rightarrow> (c # buf, inp))"

definition gets :: "nat \<Rightarrow> byte list \<Rightarrow> byte list \<times> byte list" where
  "gets lim inp = gets_loop (lim - 1) inp"

fun atoi_loop :: "byte list \<Rightarrow> u32 \<Rightarrow> u32" where
  "atoi_loop [] n = n"
| "atoi_loop (c # s) n = (if 48 \<le> c \<and> c \<le> 57 then atoi_loop s (n * 10 + ucast c - 48) else n)"

definition atoi :: "byte list \<Rightarrow> u32" where
  "atoi s = atoi_loop s 0"

definition umemmove :: "u64 \<Rightarrow> u64 \<Rightarrow> int \<Rightarrow> memory \<Rightarrow> memory" where
  "umemmove vdst vsrc n m =
    (if vsrc > vdst then copy_up (nat n) vdst vsrc m
     else copy_down (nat n) (vdst + word_of_int n) (vsrc + word_of_int n) m)"

definition umemcmp :: "u64 \<Rightarrow> u64 \<Rightarrow> u32 \<Rightarrow> memory \<Rightarrow> int" where
  "umemcmp s1 s2 n m = memcmp_loop (unat n) s1 s2 m"

definition umemcpy :: "u64 \<Rightarrow> u64 \<Rightarrow> u32 \<Rightarrow> memory \<Rightarrow> memory" where
  "umemcpy dst src n m = umemmove dst src (sint n) m"

text \<open>The number of bytes that the \<open>i\<close>-th call of \<^verbatim>\<open>read\<close> delivers when \<open>req\<close> are asked for: some,
  if any are asked for and any are left.\<close>

definition read_n :: "(nat \<Rightarrow> nat) \<Rightarrow> nat \<Rightarrow> nat \<Rightarrow> byte list \<Rightarrow> nat" where
  "read_n sched i req inp = min (Suc (sched i)) (min req (length inp))"

section \<open>Formatted output\<close>

definition udigits :: "nat \<Rightarrow> byte" where
  "udigits i = map of_char ''0123456789ABCDEF'' ! i"

function udigits_loop :: "nat \<Rightarrow> nat \<Rightarrow> byte list" where
  "udigits_loop base x =
     udigits (x mod base) # (if 1 < base \<and> x div base \<noteq> 0 then udigits_loop base (x div base) else [])"
  by pat_completeness auto
termination
  by (relation "measure snd") (auto simp: div_greater_zero_iff intro!: div_less_dividend)

declare udigits_loop.simps [simp del]

text \<open>The contents of \<^verbatim>\<open>buf\<close> in \<open>printint\<close>, and the characters printed.\<close>

definition uprintint_buf :: "u32 \<Rightarrow> nat \<Rightarrow> bool \<Rightarrow> byte list" where
  "uprintint_buf xx base sg =
    (let neg = (sg \<and> sint xx < 0);
         x = (if neg then - xx else xx);
         buf = udigits_loop base (unat x)
     in if neg then buf @ [45] else buf)"

definition uprintint :: "u32 \<Rightarrow> nat \<Rightarrow> bool \<Rightarrow> byte list" where
  "uprintint xx base sg = rev (uprintint_buf xx base sg)"

fun uprintptr_loop :: "nat \<Rightarrow> u64 \<Rightarrow> byte list" where
  "uprintptr_loop 0 x = []"
| "uprintptr_loop (Suc n) x = udigits (unat (drop_bit 60 x)) # uprintptr_loop n (push_bit 4 x)"

definition uprintptr :: "u64 \<Rightarrow> byte list" where
  "uprintptr x = [48, 120] @ uprintptr_loop 16 x"

text \<open>A variadic argument: a 64-bit slot, or a pointer to a string, possibly null. \<^verbatim>\<open>va_arg(ap, int)\<close>
  takes the low half of a slot, and so does passing a \<^verbatim>\<open>uint64\<close> as the \<^verbatim>\<open>int\<close> parameter of
  \<open>printint\<close>. The state of the loop is whether a percent sign has been seen; \<open>None\<close> is an
  argument that is missing or not of the kind the format asks for.\<close>

datatype uarg = Num u64 | Str "byte list option"

fun vprintf_loop :: "bool \<Rightarrow> byte list \<Rightarrow> uarg list \<Rightarrow> byte list option" where
  "vprintf_loop st [] ap = Some []"
| "vprintf_loop st (c # fmt) ap =
    (if \<not> st then
       (if c = 37 then vprintf_loop True fmt ap else map_option ((#) c) (vprintf_loop False fmt ap))
     else if c = 100 then
       (case ap of Num x # ap \<Rightarrow> map_option ((@) (uprintint (ucast x) 10 True)) (vprintf_loop False fmt ap) | _ \<Rightarrow> None)
     else if c = 108 then
       (case ap of Num x # ap \<Rightarrow> map_option ((@) (uprintint (ucast x) 10 False)) (vprintf_loop False fmt ap) | _ \<Rightarrow> None)
     else if c = 120 then
       (case ap of Num x # ap \<Rightarrow> map_option ((@) (uprintint (ucast x) 16 False)) (vprintf_loop False fmt ap) | _ \<Rightarrow> None)
     else if c = 112 then
       (case ap of Num x # ap \<Rightarrow> map_option ((@) (uprintptr x)) (vprintf_loop False fmt ap) | _ \<Rightarrow> None)
     else if c = 115 then
       (case ap of
          Str s # ap \<Rightarrow>
            map_option ((@) (case s of None \<Rightarrow> map of_char ''(null)'' | Some s \<Rightarrow> s)) (vprintf_loop False fmt ap)
        | _ \<Rightarrow> None)
     else if c = 99 then
       (case ap of Num x # ap \<Rightarrow> map_option ((#) (ucast x)) (vprintf_loop False fmt ap) | _ \<Rightarrow> None)
     else if c = 37 then map_option ((#) c) (vprintf_loop False fmt ap)
     else map_option (\<lambda>r. 37 # c # r) (vprintf_loop False fmt ap))"

definition vprintf :: "byte list \<Rightarrow> uarg list \<Rightarrow> byte list option" where
  "vprintf fmt ap = vprintf_loop False fmt ap"

section \<open>Comparison and copying\<close>

lemma strcmp_eq_0: "0 \<notin> set p \<Longrightarrow> 0 \<notin> set q \<Longrightarrow> strcmp p q = 0 \<longleftrightarrow> p = q"
  by (induction p q rule: strcmp.induct) (auto simp: word_uint_eq_iff)

text \<open>C21: The user library's \<open>memmove\<close> and the kernel's, which test for overlap in different ways, have the
  same effect whenever neither range wraps around the address space.\<close>

theorem umemmove_eq_memmove:
  assumes "0 \<le> n" "n < 2 ^ 31" "unat dst + nat n \<le> 2 ^ 64" "unat src + nat n < 2 ^ 64"
  shows "umemmove dst src n m = memmove dst src (word_of_int n) m"
proof
  fix a
  have k: "unat (word_of_int n :: u32) = nat n"
    using assms(1,2) by (simp add: unsigned_of_int take_bit_int_eq_self)
  have n32: "nat n \<le> 2 ^ 32" using assms(2) by simp
  have spec: "memmove dst src (word_of_int n) m a = (if in_range dst (nat n) a then m (src + (a - dst)) else m a)"
    using memmove_eq[of dst "word_of_int n" src m a] assms(3,4) by (simp add: k)
  show "umemmove dst src n m a = memmove dst src (word_of_int n) m a"
  proof (cases "src > dst")
    case True
    have "dst \<noteq> src + of_nat k" if "0 < k" "k < nat n" for k
      using True that assms(4) unat_add_of_nat[of src k] by (auto simp: word_less_nat_alt)
    then show ?thesis using copy_up_spec[OF n32, of dst src m a] True spec by (simp add: umemmove_def)
  next
    case False
    have e: "dst + word_of_int n = dst + of_nat (nat n)" "src + word_of_int n = src + of_nat (nat n)"
      using assms(1) by simp_all
    have "src + of_nat (nat n) \<noteq> dst + of_nat (nat n) + of_nat k" if "0 < k" "k < nat n" for k
    proof
      assume "src + of_nat (nat n) = dst + of_nat (nat n) + of_nat k"
      then have "src = dst + of_nat k" by simp
      moreover have "unat (dst + of_nat k) = unat dst + k" using assms(3) that by (intro unat_add_of_nat) simp
      ultimately show False using False that(1) by (simp add: word_less_nat_alt)
    qed
    then show ?thesis using copy_down_spec[OF n32, of "src + of_nat (nat n)" "dst + of_nat (nat n)" m a] False spec
      unfolding umemmove_def e by simp
  qed
qed

theorem umemmove_eq_memmove_witness:
  "umemmove 10 8 4 (\<lambda>a. ucast a) = memmove 10 8 (word_of_int 4) (\<lambda>a. ucast a)"
  by (rule umemmove_eq_memmove) simp_all

section \<open>Numbers\<close>

lemma udigits_decimal: "d < 10 \<Longrightarrow> udigits d = of_nat (48 + d)"
proof -
  assume "d < 10"
  then have "d = 0 \<or> d = 1 \<or> d = 2 \<or> d = 3 \<or> d = 4 \<or> d = 5 \<or> d = 6 \<or> d = 7 \<or> d = 8 \<or> d = 9" by arith
  then show ?thesis by (elim disjE) (simp_all add: udigits_def)
qed

lemma atoi_loop_digit:
  assumes "d < 10"
  shows "atoi_loop (udigits d # s) n = atoi_loop s (n * 10 + of_nat d)"
proof -
  have u: "unat (udigits d) = 48 + d" using assms unat_of_nat_lt[of "2 ^ 8" "48 + d", where 'a = 8]
    by (simp only: udigits_decimal) simp
  have "(ucast (udigits d) :: u32) = of_nat (unat (udigits d))" by simp
  then have "(ucast (udigits d) :: u32) = of_nat d + 48" by (simp only: u) simp
  then show ?thesis using assms by (simp add: word_le_nat_alt u)
qed

declare atoi_loop.simps(2) [simp del]

lemma atoi_loop_append:
  assumes "\<forall>c \<in> set a. \<exists>d < 10. c = udigits d"
  shows "atoi_loop (a @ b) n = atoi_loop b (atoi_loop a n)"
  using assms
proof (induction a arbitrary: n)
  case (Cons c a)
  then obtain d where "d < 10" "c = udigits d" by auto
  then show ?case using Cons by (simp add: atoi_loop_digit)
qed simp

lemma udigits_loop_decimal: "\<forall>c \<in> set (udigits_loop 10 x). \<exists>d < 10. c = udigits d"
proof (induction x rule: less_induct)
  case (less x)
  show ?case
    using less[of "x div 10"] by (subst udigits_loop.simps) (auto simp: div_greater_zero_iff intro: exI[of _ "x mod 10"])
qed

lemma atoi_udigits: "atoi_loop (rev (udigits_loop 10 x)) 0 = of_nat x"
proof (induction x rule: less_induct)
  case (less x)
  show ?case
  proof (cases "x div 10 = 0")
    case True
    then have "x < 10" by simp
    then show ?thesis by (subst udigits_loop.simps) (simp add: atoi_loop_digit)
  next
    case False
    then have "x div 10 < x" by (intro div_less_dividend) auto
    from less[OF this] have
      "atoi_loop (rev (udigits_loop 10 (x div 10)) @ [udigits (x mod 10)]) 0 = of_nat (x div 10) * 10 + of_nat (x mod 10)"
      using udigits_loop_decimal[of "x div 10"] by (simp add: atoi_loop_append atoi_loop_digit)
    also have "\<dots> = of_nat (x div 10 * 10 + x mod 10)" by (simp only: of_nat_add of_nat_mult of_nat_numeral)
    finally show ?thesis using False by (subst udigits_loop.simps) simp
  qed
qed



lemma udigits_loop_length: "1 < base \<Longrightarrow> x < base ^ Suc k \<Longrightarrow> length (udigits_loop base x) \<le> Suc k"
proof (induction k arbitrary: x)
  case 0
  then show ?case by (subst udigits_loop.simps) simp
next
  case (Suc k)
  have "x div base < base ^ Suc k" using Suc.prems by (simp add: div_less_iff_less_mult ac_simps)
  from Suc.IH[OF Suc.prems(1) this] show ?case by (subst udigits_loop.simps) simp
qed

text \<open>C23: \<open>printint\<close> of the user library stays within its buffer of 16 characters, in every base it
  is called with.\<close>

theorem uprintint_in_buf: "base = 10 \<or> base = 16 \<Longrightarrow> length (uprintint_buf xx base sg) \<le> 16"
proof -
  assume b: "base = 10 \<or> base = 16"
  have "unat x < 10 ^ Suc 14" "unat x < 16 ^ Suc 14" for x :: u32
    using unsigned_less[of x, where 'a = nat] by simp_all
  then have "length (udigits_loop base (unat x)) \<le> 15" for x :: u32
    using b udigits_loop_length[of base "unat x" 14] by auto
  from this[of xx] this[of "- xx"] show ?thesis by (auto simp: uprintint_buf_def Let_def)
qed

theorem uprintint_in_buf_witness: "length (uprintint_buf 0x80000000 10 True) \<le> 16"
  using uprintint_in_buf[of 10 "0x80000000" True] by simp

end
