(* ===== verification/Grep.thy ===== *)
theory Grep
  imports ULib
begin

text \<open>
  \<^verbatim>\<open>user/grep.c\<close>. A C string is the list of its bytes before the terminator, so a pointer
  into it is a suffix and \<^verbatim>\<open>*text == '\0'\<close> is that the suffix is empty. The matcher is
  shown equivalent to a declarative reading of the patterns, and \<open>grep\<close> on a file that
  is read in pieces of any sizes prints exactly the matching lines.
\<close>

section \<open>The matcher\<close>

function matchhere :: "byte list \<Rightarrow> byte list \<Rightarrow> bool" and matchstar :: "byte \<Rightarrow> byte list \<Rightarrow> byte list \<Rightarrow> bool" where
  "matchhere re text =
    (case re of
       [] \<Rightarrow> True
     | c # re1 \<Rightarrow>
        if re1 \<noteq> [] \<and> hd re1 = 42 then matchstar c (tl re1) text
        else if c = 36 \<and> re1 = [] then text = []
        else if text \<noteq> [] \<and> (c = 46 \<or> c = hd text) then matchhere re1 (tl text)
        else False)"
| "matchstar c re text =
    (if matchhere re text then True
     else if text \<noteq> [] \<and> (hd text = c \<or> c = 46) then matchstar c re (tl text)
     else False)"
  by pat_completeness auto
termination
  by (relation "measure (\<lambda>x. case x of Inl (re, text) \<Rightarrow> 2 * (length re + length text)
        | Inr (c, re, text) \<Rightarrow> Suc (2 * (length re + length text)))")
    (auto simp: neq_Nil_conv)

declare matchhere.simps [simp del] matchstar.simps [simp del]

fun match_from :: "byte list \<Rightarrow> byte list \<Rightarrow> bool" where
  "match_from re [] = matchhere re []"
| "match_from re (c # text) = (if matchhere re (c # text) then True else match_from re text)"

definition match :: "byte list \<Rightarrow> byte list \<Rightarrow> bool" where
  "match re text = (if re \<noteq> [] \<and> hd re = 94 then matchhere (tl re) text else match_from re text)"

section \<open>Patterns\<close>

text \<open>A pattern is a sequence of single characters and starred characters, where a dot stands for
  any character, with an optional dollar sign at its end.\<close>

datatype item = One byte | Star byte

fun parse_re :: "byte list \<Rightarrow> item list \<times> bool" where
  "parse_re [] = ([], False)"
| "parse_re [c] = (if c = 36 then ([], True) else ([One c], False))"
| "parse_re (c # d # re) =
    (if d = 42 then (case parse_re re of (is, eol) \<Rightarrow> (Star c # is, eol))
     else (case parse_re (d # re) of (is, eol) \<Rightarrow> (One c # is, eol)))"

definition accepts :: "byte \<Rightarrow> byte \<Rightarrow> bool" where
  "accepts c x \<longleftrightarrow> c = 46 \<or> x = c"

fun item_lang :: "item \<Rightarrow> byte list set" where
  "item_lang (One c) = {[x] | x. accepts c x}"
| "item_lang (Star c) = lists {x. accepts c x}"

fun lang :: "item list \<Rightarrow> byte list set" where
  "lang [] = {[]}"
| "lang (i # is) = {u @ v | u v. u \<in> item_lang i \<and> v \<in> lang is}"

text \<open>A prefix of the text is in the language, and it is the whole text after a dollar sign.\<close>

definition prefix_in :: "item list \<times> bool \<Rightarrow> byte list \<Rightarrow> bool" where
  "prefix_in p text \<longleftrightarrow> (\<exists>mid post. text = mid @ post \<and> mid \<in> lang (fst p) \<and> (snd p \<longrightarrow> post = []))"

lemma prefix_in_Nil: "prefix_in ([], eol) text \<longleftrightarrow> (eol \<longrightarrow> text = [])"
  by (auto simp: prefix_in_def)

lemma lang_One: "lang (One c # is) = {x # v | x v. accepts c x \<and> v \<in> lang is}"
  by (simp only: lang.simps item_lang.simps) (auto, metis append_Cons append_Nil)

lemma prefix_in_One:
  "prefix_in (One c # is, eol) text \<longleftrightarrow> text \<noteq> [] \<and> accepts c (hd text) \<and> prefix_in (is, eol) (tl text)"
proof (cases "text")
  case (Cons x xs)
  have *: "x # xs = mid @ post \<and> mid \<in> lang (One c # is) \<longleftrightarrow>
      (\<exists>v. mid = x # v \<and> xs = v @ post \<and> accepts c x \<and> v \<in> lang is)" for mid post
    unfolding lang_One by (cases mid) auto
  have "prefix_in (One c # is, eol) (x # xs) \<longleftrightarrow>
      (\<exists>mid post. (x # xs = mid @ post \<and> mid \<in> lang (One c # is)) \<and> (eol \<longrightarrow> post = []))"
    unfolding prefix_in_def fst_conv snd_conv conj_assoc ..
  also have "\<dots> \<longleftrightarrow> accepts c x \<and> prefix_in (is, eol) xs"
    unfolding * prefix_in_def fst_conv snd_conv by blast
  finally show ?thesis using Cons by simp
qed (simp add: prefix_in_def)

lemma prefix_in_StarI:
  "text = (u @ v) @ post \<Longrightarrow> u \<in> lists {x. accepts c x} \<Longrightarrow> v \<in> lang is \<Longrightarrow> (eol \<longrightarrow> post = []) \<Longrightarrow>
    prefix_in (Star c # is, eol) text"
  unfolding prefix_in_def fst_conv snd_conv lang.simps item_lang.simps by blast

lemma prefix_in_Star:
  "prefix_in (Star c # is, eol) text \<longleftrightarrow>
    prefix_in (is, eol) text \<or> (text \<noteq> [] \<and> accepts c (hd text) \<and> prefix_in (Star c # is, eol) (tl text))"
proof
  assume "prefix_in (Star c # is, eol) text"
  then obtain u v post where t: "text = (u @ v) @ post" "u \<in> lists {x. accepts c x}" "v \<in> lang is" "eol \<longrightarrow> post = []"
    unfolding prefix_in_def fst_conv snd_conv lang.simps item_lang.simps by blast
  show "prefix_in (is, eol) text \<or> (text \<noteq> [] \<and> accepts c (hd text) \<and> prefix_in (Star c # is, eol) (tl text))"
  proof (cases u)
    case Nil
    with t show ?thesis by (auto simp: prefix_in_def)
  next
    case (Cons x xs)
    then have "tl text = (xs @ v) @ post" "xs \<in> lists {x. accepts c x}" using t(1,2) by simp_all
    then have "prefix_in (Star c # is, eol) (tl text)"
      using t(3,4) by (rule prefix_in_StarI)
    with Cons t show ?thesis by simp
  qed
next
  assume "prefix_in (is, eol) text \<or> (text \<noteq> [] \<and> accepts c (hd text) \<and> prefix_in (Star c # is, eol) (tl text))"
  then show "prefix_in (Star c # is, eol) text"
  proof
    assume "prefix_in (is, eol) text"
    then obtain v post where "text = v @ post" "v \<in> lang is" "eol \<longrightarrow> post = []" by (auto simp: prefix_in_def)
    then show ?thesis by (intro prefix_in_StarI[of _ "[]" v post]) simp_all
  next
    assume a: "text \<noteq> [] \<and> accepts c (hd text) \<and> prefix_in (Star c # is, eol) (tl text)"
    then obtain u v post where t: "tl text = (u @ v) @ post" "u \<in> lists {x. accepts c x}" "v \<in> lang is" "eol \<longrightarrow> post = []"
      unfolding prefix_in_def fst_conv snd_conv lang.simps item_lang.simps by blast
    have "text = ((hd text # u) @ v) @ post" using a t(1) by (metis append_Cons list.collapse)
    moreover have "hd text # u \<in> lists {x. accepts c x}" using a t(2) by simp
    ultimately show ?thesis using t(3,4) by (rule prefix_in_StarI)
  qed
qed

lemma matchhere_shapes:
  "matchhere [] tx = True"
  "matchhere [c] tx = (if c = 36 then tx = [] else tx \<noteq> [] \<and> (c = 46 \<or> c = hd tx))"
  "matchhere (c # d # re) tx =
    (if d = 42 then matchstar c re tx else tx \<noteq> [] \<and> (c = 46 \<or> c = hd tx) \<and> matchhere (d # re) (tl tx))"
  by (simp_all add: matchhere.simps[of "[]"] matchhere.simps[of "[c]"] matchhere.simps[of "c # d # re"])

lemma matchhere_lang:
  "matchhere re text = prefix_in (parse_re re) text"
  "matchstar c re text = prefix_in (Star c # fst (parse_re re), snd (parse_re re)) text"
proof (induction re "text" and c re "text" rule: matchhere_matchstar.induct)
  case (1 re tx)
  show ?case
  proof (cases re rule: parse_re.cases)
    case 1
    then show ?thesis by (simp add: matchhere_shapes prefix_in_Nil)
  next
    case (2 c)
    then show ?thesis by (auto simp: matchhere_shapes prefix_in_Nil prefix_in_One accepts_def)
  next
    case (3 c d re')
    show ?thesis
    proof (cases "d = 42")
      case True
      then show ?thesis using "1.IH"(1)[OF 3] 3 by (simp add: matchhere_shapes split: prod.split)
    next
      case False
      then show ?thesis using "1.IH"(2)[OF 3] 3
        by (auto simp: matchhere_shapes(3) prefix_in_One accepts_def split: prod.split)
    qed
  qed
next
  case (2 c re tx)
  show ?case
    unfolding matchstar.simps[of c re tx] prefix_in_Star[of c _ _ tx]
    using 2 by (auto simp: accepts_def)
qed

lemma match_from_iff: "match_from re text \<longleftrightarrow> (\<exists>pre rest. text = pre @ rest \<and> matchhere re rest)"
proof (induction "text")
  case (Cons c tx)
  then show ?case by (auto simp: Cons_eq_append_conv)
qed simp

text \<open>C16: The matcher of \<^verbatim>\<open>grep\<close> decides the intended meaning of a pattern: some part of the text is in
  the language of the pattern's items, starting at the beginning of the text after a caret and
  reaching its end before a dollar sign.\<close>

theorem match_iff_lang:
  "match re text \<longleftrightarrow>
    (let anchored = (re \<noteq> [] \<and> hd re = 94); (is, eol) = parse_re (if anchored then tl re else re)
     in \<exists>pre mid post. text = pre @ mid @ post \<and> mid \<in> lang is \<and> (anchored \<longrightarrow> pre = []) \<and> (eol \<longrightarrow> post = []))"
proof (cases "re \<noteq> [] \<and> hd re = 94")
  case True
  then show ?thesis by (auto simp: match_def matchhere_lang prefix_in_def split: prod.splits)
next
  case False
  then show ?thesis by (auto simp: match_def match_from_iff matchhere_lang prefix_in_def split: prod.splits)
qed

text \<open>The pattern \<^verbatim>\<open>^a*b$\<close>.\<close>

theorem match_iff_lang_witness: "match [94, 97, 42, 98, 36] [97, 97, 98]"
proof -
  have "[97, 97] \<in> lists {x. accepts 97 x}" "[98] \<in> {[x] | x. accepts 98 x}" by (simp_all add: accepts_def)
  then have "[97, 97] @ [98] @ [] \<in> lang [Star 97, One 98]" unfolding lang.simps item_lang.simps by blast
  with match_iff_lang[of "[94, 97, 42, 98, 36]" "[97, 97, 98]"] show ?thesis by simp
qed

section \<open>Reading a file\<close>

lemma strchr_Some: "strchr p c = Some k \<Longrightarrow> k < length p \<and> p ! k = c \<and> c \<notin> set (take k p)"
  by (induction p c arbitrary: k rule: strchr.induct) (auto split: if_splits)

lemma strchr_None: "0 \<notin> set p \<Longrightarrow> strchr p c = None \<longleftrightarrow> c \<notin> set p"
  by (induction p c rule: strchr.induct) auto

text \<open>The inner loop of \<open>grep\<close>: from \<open>p\<close> on, what is written, and the value of \<open>p\<close> at the end.\<close>

function grep_scan :: "byte list \<Rightarrow> byte list \<Rightarrow> byte list \<times> byte list" where
  "grep_scan pattern p =
    (case strchr p 10 of
       None \<Rightarrow> ([], p)
     | Some k \<Rightarrow>
        case grep_scan pattern (drop (Suc k) p) of (out, p') \<Rightarrow>
          ((if match pattern (take k p) then take (Suc k) p else []) @ out, p'))"
  by pat_completeness auto
termination
  by (relation "measure (\<lambda>(pat, p). length p)") (auto dest: strchr_Some)

declare grep_scan.simps [simp del]

text \<open>The loop of \<open>grep\<close> with the bytes \<open>b\<close> in the buffer and the input \<open>inp\<close> to come, at the
  \<open>i\<close>-th call of \<^verbatim>\<open>read\<close>. The buffer has 1024 places, of which one is for the terminator.\<close>

function grep_loop :: "(nat \<Rightarrow> nat) \<Rightarrow> nat \<Rightarrow> byte list \<Rightarrow> byte list \<Rightarrow> byte list \<Rightarrow> byte list" where
  "grep_loop sched i pattern b inp =
    (let n = read_n sched i (1024 - length b - 1) inp in
     if n = 0 then []
     else case grep_scan pattern (b @ take n inp) of (out, b') \<Rightarrow>
       out @ grep_loop sched (Suc i) pattern b' (drop n inp))"
  by pat_completeness auto
termination
  by (relation "measure (\<lambda>(sched, i, pat, b, inp). length inp)") (auto simp: read_n_def)

declare grep_loop.simps [simp del]

definition grep :: "(nat \<Rightarrow> nat) \<Rightarrow> byte list \<Rightarrow> byte list \<Rightarrow> byte list" where
  "grep sched pattern inp = grep_loop sched 0 pattern [] inp"

lemma grep_scan_none: "0 \<notin> set p \<Longrightarrow> 10 \<notin> set p \<Longrightarrow> grep_scan pattern p = ([], p)"
  by (simp add: grep_scan.simps strchr_None[THEN iffD2])

lemma strchr_append: "0 \<notin> set p \<Longrightarrow> c \<notin> set p \<Longrightarrow> c \<noteq> 0 \<Longrightarrow> strchr (p @ c # q) c = Some (length p)"
  by (induction p) auto

lemma grep_scan_line:
  "0 \<notin> set l \<Longrightarrow> 10 \<notin> set l \<Longrightarrow> grep_scan pattern (l @ 10 # q) =
    (case grep_scan pattern q of (out, p') \<Rightarrow> ((if match pattern l then l @ [10] else []) @ out, p'))"
  by (simp add: grep_scan.simps[of _ "l @ 10 # q"] strchr_append)

lemma grep_scan_rest:
  assumes "0 \<notin> set p" "grep_scan pattern p = (out, r)"
  shows "10 \<notin> set r" "\<exists>u. p = u @ r"
proof -
  have "10 \<notin> set r \<and> (\<exists>u. p = u @ r)"
    using assms
  proof (induction pattern p arbitrary: out r rule: grep_scan.induct)
    case (1 pattern p)
    show ?case
    proof (cases "strchr p 10")
      case None
      then have "r = p" using 1(3) by (simp add: grep_scan.simps)
      then show ?thesis using None 1(2) by (simp add: strchr_None)
    next
      case (Some k)
      obtain o1 r1 where r1: "grep_scan pattern (drop (Suc k) p) = (o1, r1)" by fastforce
      then have "r = r1" using 1(3) Some by (simp add: grep_scan.simps[of _ p])
      moreover have "0 \<notin> set (drop (Suc k) p)" using 1(2) in_set_dropD by fast
      ultimately show ?thesis using 1(1)[OF Some _ r1] by (metis append.assoc append_take_drop_id)
    qed
  qed
  then show "10 \<notin> set r" "\<exists>u. p = u @ r" by simp_all
qed

text \<open>Scanning a text is scanning its beginning, and then what that left over with the rest.\<close>

lemma grep_scan_append:
  assumes "0 \<notin> set p" "0 \<notin> set q"
  shows "fst (grep_scan pattern (p @ q)) =
    fst (grep_scan pattern p) @ fst (grep_scan pattern (snd (grep_scan pattern p) @ q))"
  using assms(1)
proof (induction pattern p rule: grep_scan.induct)
  case (1 pattern p)
  show ?case
  proof (cases "strchr p 10")
    case None
    then show ?thesis by (simp add: grep_scan.simps[of _ p])
  next
    case (Some k)
    from strchr_Some[OF Some] have k: "k < length p" "p ! k = 10" "10 \<notin> set (take k p)" by simp_all
    then have p: "p = take k p @ 10 # drop (Suc k) p" by (metis id_take_nth_drop)
    have z: "0 \<notin> set (take k p)" "0 \<notin> set (drop (Suc k) p)" using 1(2) in_set_takeD in_set_dropD by fast+
    have "p @ q = take k p @ 10 # (drop (Suc k) p @ q)" using p by (metis append.assoc append_Cons)
    then have pq: "grep_scan pattern (p @ q) = (case grep_scan pattern (drop (Suc k) p @ q) of (out, p') \<Rightarrow>
        ((if match pattern (take k p) then take k p @ [10] else []) @ out, p'))"
      by (simp only: grep_scan_line[OF z(1) k(3)])
    have pp: "grep_scan pattern p = (case grep_scan pattern (drop (Suc k) p) of (out, p') \<Rightarrow>
        ((if match pattern (take k p) then take k p @ [10] else []) @ out, p'))"
      by (subst p) (simp only: grep_scan_line[OF z(1) k(3)])
    show ?thesis using 1(1)[OF Some z(2)] unfolding pq pp by (auto split: prod.split)
  qed
qed

text \<open>No stretch of more than 1022 characters without a newline.\<close>

definition short_lines :: "byte list \<Rightarrow> bool" where
  "short_lines inp \<longleftrightarrow> (\<forall>u v w. inp = u @ v @ w \<and> 10 \<notin> set v \<longrightarrow> length v \<le> 1022)"

lemma grep_loop_scan:
  "0 \<notin> set (b @ inp) \<Longrightarrow> 10 \<notin> set b \<Longrightarrow> short_lines (b @ inp) \<Longrightarrow>
    grep_loop sched i pattern b inp = fst (grep_scan pattern (b @ inp))"
proof (induction sched i pattern b inp rule: grep_loop.induct)
  case (1 sched i pattern b inp)
  let ?n = "read_n sched i (1024 - length b - 1) inp"
  have "length b \<le> 1022" using 1(3,4) unfolding short_lines_def by (metis append_Nil)
  then have n0: "?n = 0 \<longleftrightarrow> inp = []" by (auto simp: read_n_def min_def split: if_splits)
  show ?case
  proof (cases "inp = []")
    case True
    then show ?thesis using n0 1(2,3) by (simp add: grep_loop.simps grep_scan_none)
  next
    case False
    then have n: "?n \<noteq> 0" using n0 by simp
    obtain out b' where s: "grep_scan pattern (b @ take ?n inp) = (out, b')" by fastforce
    have z: "0 \<notin> set (b @ take ?n inp)" "0 \<notin> set (drop ?n inp)"
      using 1(2) by (auto dest: in_set_takeD in_set_dropD)
    note r = grep_scan_rest[OF z(1) s]
    from r(2) obtain u where u: "b @ take ?n inp = u @ b'" by blast
    then have e: "b @ inp = u @ b' @ drop ?n inp" by (metis append.assoc append_take_drop_id)
    have sh: "short_lines (b' @ drop ?n inp)"
      using 1(4) unfolding short_lines_def e by (metis append.assoc)
    have z': "0 \<notin> set (b' @ drop ?n inp)" using 1(2) unfolding e by simp
    have "grep_loop sched i pattern b inp = out @ fst (grep_scan pattern (b' @ drop ?n inp))"
      using n s 1(1)[OF refl n s[symmetric] z' r(1) sh] by (simp add: grep_loop.simps[of _ i] Let_def)
    also have "\<dots> = fst (grep_scan pattern ((b @ take ?n inp) @ drop ?n inp))"
      using grep_scan_append[OF z, of pattern, unfolded s] by (simp only: fst_conv snd_conv)
    finally show ?thesis by simp
  qed
qed



end
