(* ===== verification/UserProgs.thy ===== *)
theory UserProgs
  imports Grep
begin

text \<open>
  The filters and one-shot programs under \<^verbatim>\<open>user/\<close>: \<^verbatim>\<open>cat\<close>, \<^verbatim>\<open>wc\<close>, \<^verbatim>\<open>echo\<close>, \<^verbatim>\<open>grep\<close>'s
  \<^verbatim>\<open>main\<close>, \<^verbatim>\<open>kill\<close>, \<^verbatim>\<open>ln\<close>, \<^verbatim>\<open>mkdir\<close>, \<^verbatim>\<open>rm\<close> and the name formatting of \<^verbatim>\<open>ls\<close>. A
  program is the list of the system calls it makes that others can see. What the kernel
  answers is a record: the contents of the files that can be opened, the sizes of the pieces
  in which the \<open>j\<close>-th opened file is read, and whether the other calls succeed. The output of
  \<open>grep\<close> on one file is joined into one write.
\<close>

datatype act = Write int "byte list" | Exit int | Kill u32 | Link "byte list" "byte list" | Mkdir "byte list"
  | Unlink "byte list"

record sys =
  file_of :: "byte list \<Rightarrow> byte list option"
  stdin :: "byte list"
  pieces :: "nat \<Rightarrow> nat \<Rightarrow> nat"
  call_ok :: "act \<Rightarrow> bool"

definition str :: "string \<Rightarrow> byte list" where
  "str cs = map of_char cs"

definition say :: "int \<Rightarrow> string \<Rightarrow> uarg list \<Rightarrow> act list" where
  "say fd fmt ap = (case vprintf (str fmt) ap of None \<Rightarrow> [] | Some cs \<Rightarrow> map (\<lambda>c. Write fd [c]) cs)"

text \<open>A loop over the arguments that stops after an exit.\<close>

fun for_args :: "(nat \<Rightarrow> byte list \<Rightarrow> act list \<times> bool) \<Rightarrow> nat \<Rightarrow> byte list list \<Rightarrow> act list" where
  "for_args f i [] = [Exit 0]"
| "for_args f i (a # as) = (case f i a of (out, go) \<Rightarrow> if go then out @ for_args f (Suc i) as else out)"

section \<open>cat\<close>

function cat_loop :: "(act \<Rightarrow> bool) \<Rightarrow> (nat \<Rightarrow> nat) \<Rightarrow> nat \<Rightarrow> byte list \<Rightarrow> act list \<times> bool" where
  "cat_loop wok sched i inp =
    (let n = read_n sched i 512 inp; w = Write 1 (take n inp) in
     if n = 0 then ([], True)
     else if \<not> wok w then (w # say 2 ''cat: write error\<newline>'' [] @ [Exit 1], False)
     else case cat_loop wok sched (Suc i) (drop n inp) of (out, go) \<Rightarrow> (w # out, go))"
  by pat_completeness auto
termination
  by (relation "measure (\<lambda>(wok, sched, i, inp). length inp)") (auto simp: read_n_def)

declare cat_loop.simps [simp del]

definition cat :: "sys \<Rightarrow> nat \<Rightarrow> byte list \<Rightarrow> act list \<times> bool" where
  "cat k j inp = cat_loop (call_ok k) (pieces k j) 0 inp"

definition cat_main :: "sys \<Rightarrow> byte list list \<Rightarrow> act list" where
  "cat_main k argv =
    (if length argv \<le> 1 then case cat k 0 (stdin k) of (out, go) \<Rightarrow> if go then out @ [Exit 0] else out
     else for_args (\<lambda>j a. case file_of k a of
         None \<Rightarrow> (say 2 ''cat: cannot open %s\<newline>'' [Str (Some a)] @ [Exit 1], False)
       | Some inp \<Rightarrow> cat k j inp) 1 (drop 1 argv))"

section \<open>wc\<close>

record wcount =
  wc_l :: u32
  wc_w :: u32
  wc_c :: u32
  wc_inword :: bool

definition wc_char :: "byte \<Rightarrow> wcount \<Rightarrow> wcount" where
  "wc_char ch s =
    (let s = s\<lparr>wc_c := wc_c s + 1\<rparr>;
         s = (if ch = 10 then s\<lparr>wc_l := wc_l s + 1\<rparr> else s)
     in if strchr [32, 13, 9, 10, 11] ch \<noteq> None then s\<lparr>wc_inword := False\<rparr>
        else if \<not> wc_inword s then s\<lparr>wc_w := wc_w s + 1, wc_inword := True\<rparr>
        else s)"

function wc_loop :: "(nat \<Rightarrow> nat) \<Rightarrow> nat \<Rightarrow> byte list \<Rightarrow> wcount \<Rightarrow> wcount" where
  "wc_loop sched i inp s =
    (let n = read_n sched i 512 inp in
     if n = 0 then s else wc_loop sched (Suc i) (drop n inp) (fold wc_char (take n inp) s))"
  by pat_completeness auto
termination
  by (relation "measure (\<lambda>(sched, i, inp, s). length inp)") (auto simp: read_n_def)

declare wc_loop.simps [simp del]

definition wc :: "sys \<Rightarrow> nat \<Rightarrow> byte list \<Rightarrow> byte list \<Rightarrow> act list" where
  "wc k j inp name =
    (let s = wc_loop (pieces k j) 0 inp \<lparr>wc_l = 0, wc_w = 0, wc_c = 0, wc_inword = False\<rparr>
     in say 1 ''%d %d %d %s\<newline>'' [Num (ucast (wc_l s)), Num (ucast (wc_w s)), Num (ucast (wc_c s)), Str (Some name)])"

definition wc_main :: "sys \<Rightarrow> byte list list \<Rightarrow> act list" where
  "wc_main k argv =
    (if length argv \<le> 1 then wc k 0 (stdin k) [] @ [Exit 0]
     else for_args (\<lambda>j a. case file_of k a of
         None \<Rightarrow> (say 1 ''wc: cannot open %s\<newline>'' [Str (Some a)] @ [Exit 1], False)
       | Some inp \<Rightarrow> (wc k j inp a, True)) 1 (drop 1 argv))"

section \<open>grep\<close>

definition grep_main :: "sys \<Rightarrow> byte list list \<Rightarrow> act list" where
  "grep_main k argv =
    (if length argv \<le> 1 then say 2 ''usage: grep pattern [file ...]\<newline>'' [] @ [Exit 1]
     else let pattern = argv ! 1 in
       if length argv \<le> 2 then [Write 1 (grep (pieces k 0) pattern (stdin k)), Exit 0]
       else for_args (\<lambda>j a. case file_of k a of
           None \<Rightarrow> (say 1 ''grep: cannot open %s\<newline>'' [Str (Some a)] @ [Exit 1], False)
         | Some inp \<Rightarrow> ([Write 1 (grep (pieces k j) pattern inp)], True)) 2 (drop 2 argv))"

section \<open>echo, kill, ln, mkdir, rm\<close>

fun echo_args :: "byte list list \<Rightarrow> act list" where
  "echo_args [] = []"
| "echo_args [a] = [Write 1 a, Write 1 [10]]"
| "echo_args (a # as) = Write 1 a # Write 1 [32] # echo_args as"

definition echo_main :: "byte list list \<Rightarrow> act list" where
  "echo_main argv = echo_args (drop 1 argv) @ [Exit 0]"

definition kill_main :: "byte list list \<Rightarrow> act list" where
  "kill_main argv =
    (if length argv < 2 then say 2 ''usage: kill pid...\<newline>'' [] @ [Exit 1]
     else map (\<lambda>a. Kill (atoi a)) (drop 1 argv) @ [Exit 0])"

definition ln_main :: "sys \<Rightarrow> byte list list \<Rightarrow> act list" where
  "ln_main k argv =
    (if length argv \<noteq> 3 then say 2 ''Usage: ln old new\<newline>'' [] @ [Exit 1]
     else let l = Link (argv ! 1) (argv ! 2) in
       l # (if call_ok k l then [] else say 2 ''link %s %s: failed\<newline>'' [Str (Some (argv ! 1)), Str (Some (argv ! 2))]) @
       [Exit 0])"

definition mkdir_main :: "sys \<Rightarrow> byte list list \<Rightarrow> act list" where
  "mkdir_main k argv =
    (if length argv < 2 then say 2 ''Usage: mkdir files...\<newline>'' [] @ [Exit 1]
     else for_args (\<lambda>j a.
       if call_ok k (Mkdir a) then ([Mkdir a], True)
       else (Mkdir a # say 2 ''mkdir: %s failed to create\<newline>'' [Str (Some a)] @ [Exit 0], False)) 1 (drop 1 argv))"

definition rm_main :: "sys \<Rightarrow> byte list list \<Rightarrow> act list" where
  "rm_main k argv =
    (if length argv < 2 then say 2 ''Usage: rm files...\<newline>'' [] @ [Exit 1]
     else for_args (\<lambda>j a.
       if call_ok k (Unlink a) then ([Unlink a], True)
       else (Unlink a # say 2 ''rm: %s failed to delete\<newline>'' [Str (Some a)] @ [Exit 0], False)) 1 (drop 1 argv))"

section \<open>The names that ls prints\<close>

text \<open>The part of a path after its last slash, padded with blanks to 14 characters.\<close>

definition fmtname :: "byte list \<Rightarrow> byte list" where
  "fmtname path =
    (let p = rev (takeWhile (\<lambda>c. c \<noteq> 47) (rev path)) in
     if length p \<ge> 14 then p else p @ replicate (14 - length p) 32)"

section \<open>What the filters compute\<close>

text \<open>The bytes written to a descriptor.\<close>

definition written_to :: "int \<Rightarrow> act list \<Rightarrow> byte list" where
  "written_to fd as = concat (map (\<lambda>a. case a of Write f bs \<Rightarrow> (if f = fd then bs else []) | _ \<Rightarrow> []) as)"

lemma written_to_simps [simp]:
  "written_to fd [] = []" "written_to fd (as @ bs) = written_to fd as @ written_to fd bs"
  "written_to fd (Write f cs # as) = (if f = fd then cs else []) @ written_to fd as"
  "written_to fd (Exit e # as) = written_to fd as"
  by (simp_all add: written_to_def)

lemma cat_loop_all:
  assumes "\<And>w. wok w"
  shows "snd (cat_loop wok sched i inp) \<and> written_to 1 (fst (cat_loop wok sched i inp)) = inp"
proof (induction "length inp" arbitrary: i inp rule: less_induct)
  case less
  let ?n = "read_n sched i 512 inp"
  show ?case
  proof (cases "?n = 0")
    case True
    then have "inp = []" by (auto simp: read_n_def min_def split: if_splits)
    then show ?thesis by (simp add: cat_loop.simps read_n_def)
  next
    case False
    then have "length (drop ?n inp) < length inp" by (auto simp: read_n_def)
    from less[OF this, of "Suc i"] False assms show ?thesis
      by (cases "cat_loop wok sched (Suc i) (drop ?n inp)") (auto simp: cat_loop.simps[of wok sched i] Let_def)
  qed
qed



definition blank :: "byte \<Rightarrow> bool" where
  "blank c \<longleftrightarrow> c \<in> {32, 13, 9, 10, 11}"

lemma strchr_blank: "strchr [32, 13, 9, 10, 11] c \<noteq> None \<longleftrightarrow> blank c"
  by (auto simp: blank_def)

lemma wc_loop_fold: "wc_loop sched i inp s = fold wc_char inp s"
proof (induction "length inp" arbitrary: i inp s rule: less_induct)
  case less
  let ?n = "read_n sched i 512 inp"
  show ?case
  proof (cases "?n = 0")
    case True
    then have "inp = []" by (auto simp: read_n_def min_def split: if_splits)
    then show ?thesis by (simp add: wc_loop.simps read_n_def)
  next
    case False
    then have "length (drop ?n inp) < length inp" by (auto simp: read_n_def)
    from less[OF this, of "Suc i" "fold wc_char (take ?n inp) s"]
    have "wc_loop sched (Suc i) (drop ?n inp) (fold wc_char (take ?n inp) s) = fold wc_char (take ?n inp @ drop ?n inp) s"
      by (simp only: fold_append comp_apply)
    then show ?thesis using False by (simp add: wc_loop.simps[of sched i] Let_def)
  qed
qed

text \<open>The characters that are not blank and follow a blank, or the beginning.\<close>

definition word_starts :: "byte \<Rightarrow> byte list \<Rightarrow> nat" where
  "word_starts prev inp = length (filter (\<lambda>(p, c). blank p \<and> \<not> blank c) (zip (prev # inp) inp))"

lemma word_starts_simps:
  "word_starts p [] = 0"
  "word_starts p (c # inp) = (if blank p \<and> \<not> blank c then 1 else 0) + word_starts c inp"
  by (simp_all add: word_starts_def)

lemma word_starts_cong: "blank p = blank q \<Longrightarrow> word_starts p inp = word_starts q inp"
  by (cases inp) (simp_all add: word_starts_simps)

lemma wc_char_fields:
  "wc_l (wc_char c s) = wc_l s + (if c = 10 then 1 else 0)"
  "wc_w (wc_char c s) = wc_w s + (if blank c \<or> wc_inword s then 0 else 1)"
  "wc_c (wc_char c s) = wc_c s + 1" "wc_inword (wc_char c s) = (\<not> blank c)"
  unfolding wc_char_def Let_def strchr_blank by simp_all

lemma wc_fold:
  "blank p \<longleftrightarrow> \<not> wc_inword s \<Longrightarrow>
    wc_l (fold wc_char inp s) = wc_l s + of_nat (count_list inp 10) \<and>
    wc_w (fold wc_char inp s) = wc_w s + of_nat (word_starts p inp) \<and>
    wc_c (fold wc_char inp s) = wc_c s + of_nat (length inp)"
proof (induction inp arbitrary: s p)
  case (Cons c inp)
  have "blank c \<longleftrightarrow> \<not> wc_inword (wc_char c s)" by (simp add: wc_char_fields)
  from Cons.IH[OF this] show ?case
    using Cons.prems by (auto simp: wc_char_fields word_starts_simps)
qed (simp add: word_starts_simps)


end
