(* ===== verification/Shell.thy ===== *)
theory Shell
  imports ULib
begin

text \<open>
  The parser of the shell, \<^verbatim>\<open>user/sh.c\<close>. The line is an array with its terminator at \<open>es\<close>;
  a pointer into it is an index. A token is the pair of the indices where it starts and
  ends. A \<^verbatim>\<open>struct cmd\<close> is a tree: \<open>parseexec\<close> fills the arguments of the \<open>EXEC\<close> node
  after redirections have been put around it, which is \<open>set_args\<close>. \<^verbatim>\<open>panic\<close> prints a
  message and exits; it is the result \<open>Panic\<close>. Running out of memory is not modelled.

  The recursion carries a fuel that bounds its depth; it is shown that four times the length
  of the line and four is always enough.
\<close>

type_synonym token = "nat \<times> nat"

datatype 'a cmd =
    EXEC "'a list"
  | REDIR "'a cmd" 'a int int
  | PIPE "'a cmd" "'a cmd"
  | LIST "'a cmd" "'a cmd"
  | BACK "'a cmd"

abbreviation (input) MAXARGS :: nat where "MAXARGS \<equiv> 10"
abbreviation (input) O_RDONLY :: int where "O_RDONLY \<equiv> 0"
abbreviation (input) O_WRONLY_CREATE_TRUNC :: int where "O_WRONLY_CREATE_TRUNC \<equiv> 0x601"
abbreviation (input) O_WRONLY_CREATE :: int where "O_WRONLY_CREATE \<equiv> 0x201"

section \<open>Tokens\<close>

definition whitespace :: "byte list" where "whitespace = [32, 9, 13, 10, 11]"
definition symbols :: "byte list" where "symbols = [60, 124, 62, 38, 59, 40, 41]"

function skip_space :: "carray \<Rightarrow> nat \<Rightarrow> nat \<Rightarrow> nat" where
  "skip_space buf es s = (if s < es \<and> strchr whitespace (buf s) \<noteq> None then skip_space buf es (s + 1) else s)"
  by pat_completeness auto
termination by (relation "measure (\<lambda>(buf, es, s). es - s)") auto

function skip_word :: "carray \<Rightarrow> nat \<Rightarrow> nat \<Rightarrow> nat" where
  "skip_word buf es s =
    (if s < es \<and> strchr whitespace (buf s) = None \<and> strchr symbols (buf s) = None then skip_word buf es (s + 1) else s)"
  by pat_completeness auto
termination by (relation "measure (\<lambda>(buf, es, s). es - s)") auto

declare skip_space.simps [simp del] skip_word.simps [simp del]

text \<open>The kind of the token, the token, and where to go on.\<close>

definition gettoken :: "carray \<Rightarrow> nat \<Rightarrow> nat \<Rightarrow> byte \<times> token \<times> nat" where
  "gettoken buf es s =
    (let q = skip_space buf es s; c = buf q;
         (ret, s) =
           (if c = 0 then (c, q)
            else if c \<in> {124, 40, 41, 59, 38, 60} then (c, q + 1)
            else if c = 62 then (if buf (q + 1) = 62 then (43, q + 2) else (c, q + 1))
            else (97, skip_word buf es q))
     in (ret, (q, s), skip_space buf es s))"

definition peek :: "carray \<Rightarrow> nat \<Rightarrow> nat \<Rightarrow> byte list \<Rightarrow> bool \<times> nat" where
  "peek buf es s toks = (let s = skip_space buf es s in (buf s \<noteq> 0 \<and> strchr toks (buf s) \<noteq> None, s))"

section \<open>The parser\<close>

fun parseredirs :: "nat \<Rightarrow> carray \<Rightarrow> nat \<Rightarrow> token cmd \<Rightarrow> nat \<Rightarrow> (token cmd \<times> nat) res" where
  "parseredirs 0 buf es cmd s = Diverge"
| "parseredirs (Suc n) buf es cmd s =
    (let (more, s) = peek buf es s [60, 62] in
     if \<not> more then Ok (cmd, s)
     else
       let (tok, _, s) = gettoken buf es s; (ret, f, s) = gettoken buf es s in
       if ret \<noteq> 97 then Panic ''missing file for redirection''
       else
         let cmd = (if tok = 60 then REDIR cmd f O_RDONLY 0
                    else if tok = 62 then REDIR cmd f O_WRONLY_CREATE_TRUNC 1
                    else if tok = 43 then REDIR cmd f O_WRONLY_CREATE 1
                    else cmd)
         in parseredirs n buf es cmd s)"

fun set_args :: "'a list \<Rightarrow> 'a cmd \<Rightarrow> 'a cmd" where
  "set_args as (EXEC _) = EXEC as"
| "set_args as (REDIR c f m d) = REDIR (set_args as c) f m d"
| "set_args as c = c"

text \<open>The loop of \<open>parseexec\<close> over the arguments.\<close>

fun parseargs :: "nat \<Rightarrow> carray \<Rightarrow> nat \<Rightarrow> token list \<Rightarrow> token cmd \<Rightarrow> nat \<Rightarrow> (token cmd \<times> nat) res" where
  "parseargs 0 buf es as ret s = Diverge"
| "parseargs (Suc n) buf es as ret s =
    (let (stop, s) = peek buf es s [124, 41, 38, 59] in
     if stop then Ok (set_args as ret, s)
     else
       let (tok, t, s) = gettoken buf es s in
       if tok = 0 then Ok (set_args as ret, s)
       else if tok \<noteq> 97 then Panic ''syntax''
       else
         let as = as @ [t] in
         if length as \<ge> MAXARGS then Panic ''too many args''
         else and_then (parseredirs (Suc (es - s)) buf es ret s) (\<lambda>(ret, s). parseargs n buf es as ret s))"

fun parseback :: "nat \<Rightarrow> carray \<Rightarrow> nat \<Rightarrow> token cmd \<Rightarrow> nat \<Rightarrow> (token cmd \<times> nat) res" where
  "parseback 0 buf es cmd s = Diverge"
| "parseback (Suc n) buf es cmd s =
    (let (more, s) = peek buf es s [38] in
     if \<not> more then Ok (cmd, s)
     else let (_, _, s) = gettoken buf es s in parseback n buf es (BACK cmd) s)"

text \<open>The four functions that call each other. Each takes the functions it calls as \<open>rec\<close>, by name;
  \<open>parse n f\<close> is the function \<open>f\<close> with \<open>n\<close> levels of recursion below it.\<close>

datatype fn = Line | Pipe | Exec | Block

type_synonym parser = "carray \<Rightarrow> nat \<Rightarrow> nat \<Rightarrow> (token cmd \<times> nat) res"

definition parseline :: "(fn \<Rightarrow> parser) \<Rightarrow> parser" where
  "parseline rec buf es s =
    and_then (rec Pipe buf es s) (\<lambda>(cmd, s).
    and_then (parseback (Suc (es - s)) buf es cmd s) (\<lambda>(cmd, s).
    let (more, s) = peek buf es s [59] in
    if more then
      let (_, _, s) = gettoken buf es s in
      and_then (rec Line buf es s) (\<lambda>(r, s). Ok (LIST cmd r, s))
    else Ok (cmd, s)))"

definition parsepipe :: "(fn \<Rightarrow> parser) \<Rightarrow> parser" where
  "parsepipe rec buf es s =
    and_then (rec Exec buf es s) (\<lambda>(cmd, s).
    let (more, s) = peek buf es s [124] in
    if more then
      let (_, _, s) = gettoken buf es s in
      and_then (rec Pipe buf es s) (\<lambda>(r, s). Ok (PIPE cmd r, s))
    else Ok (cmd, s))"

definition parseblock :: "(fn \<Rightarrow> parser) \<Rightarrow> parser" where
  "parseblock rec buf es s =
    (let (blk, s) = peek buf es s [40] in
     if \<not> blk then Panic ''parseblock''
     else
       let (_, _, s) = gettoken buf es s in
       and_then (rec Line buf es s) (\<lambda>(cmd, s).
       let (close, s) = peek buf es s [41] in
       if \<not> close then Panic ''syntax - missing )''
       else
         let (_, _, s) = gettoken buf es s in
         parseredirs (Suc (es - s)) buf es cmd s))"

definition parseexec :: "(fn \<Rightarrow> parser) \<Rightarrow> parser" where
  "parseexec rec buf es s =
    (let (blk, s) = peek buf es s [40] in
     if blk then rec Block buf es s
     else
       and_then (parseredirs (Suc (es - s)) buf es (EXEC []) s) (\<lambda>(ret, s).
       parseargs (Suc (es - s)) buf es [] ret s))"

primrec parse :: "nat \<Rightarrow> fn \<Rightarrow> parser" where
  "parse 0 f buf es s = Diverge"
| "parse (Suc n) f buf es s =
    (case f of
       Line \<Rightarrow> parseline (parse n) buf es s
     | Pipe \<Rightarrow> parsepipe (parse n) buf es s
     | Exec \<Rightarrow> parseexec (parse n) buf es s
     | Block \<Rightarrow> parseblock (parse n) buf es s)"

text \<open>A zero byte is put at the end of every argument and file name.\<close>

fun nulterminate :: "token cmd \<Rightarrow> carray \<Rightarrow> carray" where
  "nulterminate (EXEC as) buf = fold (\<lambda>t buf. buf(snd t := 0)) as buf"
| "nulterminate (REDIR c f m d) buf = (nulterminate c buf)(snd f := 0)"
| "nulterminate (PIPE l r) buf = nulterminate r (nulterminate l buf)"
| "nulterminate (LIST l r) buf = nulterminate r (nulterminate l buf)"
| "nulterminate (BACK c) buf = nulterminate c buf"

text \<open>The array holds a string of \<open>es\<close> characters.\<close>

definition parsecmd :: "nat \<Rightarrow> carray \<Rightarrow> (token cmd \<times> carray) res" where
  "parsecmd es buf =
    and_then (parse (4 * es + 4) Line buf es 0) (\<lambda>(cmd, s).
    let (_, s) = peek buf es s [] in
    if s \<noteq> es then Panic ''syntax'' else Ok (cmd, nulterminate cmd buf))"

section \<open>The rest of the line\<close>

text \<open>The parser only looks at the rest of the line, after its leading blanks.\<close>

definition is_space :: "byte \<Rightarrow> bool" where "is_space c \<longleftrightarrow> c \<in> set whitespace"
definition ordinary :: "byte \<Rightarrow> bool" where "ordinary c \<longleftrightarrow> c \<noteq> 0 \<and> c \<notin> set whitespace \<and> c \<notin> set symbols"

definition line_ok :: "carray \<Rightarrow> nat \<Rightarrow> bool" where
  "line_ok buf es \<longleftrightarrow> buf es = 0 \<and> (\<forall>i < es. buf i \<noteq> 0)"

definition rest :: "carray \<Rightarrow> nat \<Rightarrow> nat \<Rightarrow> byte list" where
  "rest buf es s = map buf [s..<es]"

lemma strchr_set: "0 \<notin> set s \<Longrightarrow> strchr s c \<noteq> None \<longleftrightarrow> c \<in> set s"
  by (induction s) auto

lemma strchr_space: "strchr whitespace c \<noteq> None \<longleftrightarrow> is_space c"
  unfolding is_space_def by (rule strchr_set) (simp add: whitespace_def)

lemma strchr_symbol: "strchr symbols c \<noteq> None \<longleftrightarrow> c \<in> set symbols"
  by (rule strchr_set) (simp add: symbols_def)

lemma rest_Cons: "s < es \<Longrightarrow> rest buf es s = buf s # rest buf es (s + 1)"
  by (simp add: rest_def upt_conv_Cons)

lemma rest_end [simp]: "rest buf es es = []"
  by (simp add: rest_def)

lemma rest_Nil: "s \<le> es \<Longrightarrow> rest buf es s = [] \<longleftrightarrow> s = es"
  by (auto simp: rest_def)

lemma skip_space_step:
  "skip_space buf es s = (if s < es \<and> is_space (buf s) then skip_space buf es (Suc s) else s)"
  by (subst skip_space.simps) (simp only: strchr_space Suc_eq_plus1)

lemma skip_word_step:
  assumes "line_ok buf es"
  shows "skip_word buf es s = (if s < es \<and> ordinary (buf s) then skip_word buf es (Suc s) else s)"
proof -
  have "s < es \<Longrightarrow> strchr whitespace (buf s) = None \<and> strchr symbols (buf s) = None \<longleftrightarrow> ordinary (buf s)"
    using assms strchr_space[of "buf s"] strchr_symbol[of "buf s"] by (auto simp: ordinary_def is_space_def line_ok_def)
  then show ?thesis by (subst skip_word.simps) auto
qed

lemma skip_space_spec:
  "s \<le> es \<Longrightarrow> rest buf es (skip_space buf es s) = dropWhile is_space (rest buf es s) \<and>
    s \<le> skip_space buf es s \<and> skip_space buf es s \<le> es"
proof (induction "es - s" arbitrary: s)
  case 0
  then show ?case by (subst (1 2 3) skip_space_step) (simp add: rest_def)
next
  case (Suc n)
  then have "s < es" "Suc s \<le> es" "n = es - Suc s" by simp_all
  with Suc(1)[of "Suc s"] show ?case
    by (subst (1 2 3) skip_space_step) (auto simp: rest_Cons)
qed

lemma skip_word_spec:
  "line_ok buf es \<Longrightarrow> s \<le> es \<Longrightarrow> rest buf es (skip_word buf es s) = dropWhile ordinary (rest buf es s) \<and>
    s \<le> skip_word buf es s \<and> skip_word buf es s \<le> es \<and> map buf [s..<skip_word buf es s] = takeWhile ordinary (rest buf es s)"
proof (induction "es - s" arbitrary: s)
  case 0
  then show ?case by (subst (1 2 3 4) skip_word_step) (simp_all add: rest_def)
next
  case (Suc n)
  then have s: "s < es" "Suc s \<le> es" "n = es - Suc s" by simp_all
  note IH = Suc(1)[OF s(3) Suc.prems(1) s(2)]
  show ?case
  proof (cases "ordinary (buf s)")
    case True
    then have "skip_word buf es s = skip_word buf es (Suc s)" using s(1) skip_word_step[OF Suc.prems(1), of s] by simp
    then show ?thesis using IH True s(1) by (simp add: rest_Cons upt_conv_Cons)
  next
    case False
    then have "skip_word buf es s = s" using skip_word_step[OF Suc.prems(1), of s] by simp
    then show ?thesis using False s(1) by (simp add: rest_Cons)
  qed
qed

lemma skip_word_end:
  assumes "line_ok buf es" "s \<le> es"
  shows "\<not> ordinary (buf (skip_word buf es s))"
proof (cases "skip_word buf es s = es")
  case True
  then show ?thesis using assms(1) by (simp add: line_ok_def ordinary_def)
next
  case False
  note w = skip_word_spec[OF assms]
  then have "buf (skip_word buf es s) # rest buf es (Suc (skip_word buf es s)) = dropWhile ordinary (rest buf es s)"
    using False rest_Cons[of "skip_word buf es s" es buf] by simp
  then show ?thesis by (metis hd_dropWhile list.distinct(1) list.sel(1))
qed

text \<open>The rest of the line after its blanks.\<close>

definition ahead :: "carray \<Rightarrow> nat \<Rightarrow> nat \<Rightarrow> byte list" where
  "ahead buf es s = dropWhile is_space (rest buf es s)"

lemma peek_spec:
  assumes "line_ok buf es" "s \<le> es" "0 \<notin> set toks"
  shows "\<exists>s'. peek buf es s toks = (ahead buf es s \<noteq> [] \<and> hd (ahead buf es s) \<in> set toks, s') \<and>
    ahead buf es s' = ahead buf es s \<and> s \<le> s' \<and> s' \<le> es"
proof -
  let ?s = "skip_space buf es s"
  note sk = skip_space_spec[OF assms(2), of buf]
  then have r: "rest buf es ?s = ahead buf es s" by (simp add: ahead_def)
  then have a: "ahead buf es ?s = ahead buf es s" by (simp add: ahead_def)
  have "buf ?s \<noteq> 0 \<and> strchr toks (buf ?s) \<noteq> None \<longleftrightarrow> ahead buf es s \<noteq> [] \<and> hd (ahead buf es s) \<in> set toks"
  proof (cases "?s = es")
    case True
    then show ?thesis using assms(1) r by (simp add: line_ok_def)
  next
    case False
    then have "?s < es" using sk by simp
    then show ?thesis using assms r[symmetric] strchr_set[OF assms(3), of "buf ?s"]
      by (simp add: rest_Cons line_ok_def)
  qed
  then show ?thesis using sk a by (auto simp: peek_def Let_def)
qed

lemma dropWhile_space_idem [simp]: "dropWhile is_space (dropWhile is_space xs) = dropWhile is_space xs"
  by (induction xs) auto

text \<open>What a token is, by the first character ahead.\<close>

lemma gettoken_spec:
  assumes "line_ok buf es" "s \<le> es"
  shows "\<exists>ret q eq s'. gettoken buf es s = (ret, (q, eq), s') \<and> s \<le> q \<and> q \<le> eq \<and> eq \<le> s' \<and> s' \<le> es \<and>
    (case ahead buf es s of
       [] \<Rightarrow> ret = 0 \<and> ahead buf es s' = []
     | c # cs \<Rightarrow> q < eq \<and>
        (if c \<in> {124, 40, 41, 59, 38, 60} then ret = c \<and> ahead buf es s' = dropWhile is_space cs
         else if c = 62 then
           (if cs \<noteq> [] \<and> hd cs = 62 then ret = 43 \<and> ahead buf es s' = dropWhile is_space (tl cs)
            else ret = 62 \<and> ahead buf es s' = dropWhile is_space cs)
         else ret = 97 \<and> map buf [q..<eq] = takeWhile ordinary (c # cs) \<and>
           ahead buf es s' = dropWhile is_space (dropWhile ordinary cs) \<and> \<not> ordinary (buf eq)))"
proof -
  let ?q = "skip_space buf es s"
  note sk = skip_space_spec[OF assms(2), of buf]
  then have r: "rest buf es ?q = ahead buf es s" by (simp add: ahead_def)
  have nxt: "ahead buf es (skip_space buf es t) = dropWhile is_space (rest buf es t)"
    "t \<le> skip_space buf es t" "skip_space buf es t \<le> es" if "t \<le> es" for t
    using skip_space_spec[OF that, of buf] by (simp_all add: ahead_def)
  show ?thesis
  proof (cases "ahead buf es s")
    case Nil
    then have "?q = es" using r sk rest_Nil[of ?q es buf] by simp
    then show ?thesis using Nil assms sk skip_space_spec[of es es buf]
      by (simp add: gettoken_def Let_def line_ok_def ahead_def)
  next
    case (Cons c cs)
    then have q: "?q < es" using r sk rest_Nil[of ?q es buf] by (cases "?q = es") auto
    then have c: "buf ?q = c" "rest buf es (Suc ?q) = cs" "c \<noteq> 0"
      using r Cons assms(1) by (auto simp: rest_Cons line_ok_def)
    have sp: "\<not> is_space c" using Cons unfolding ahead_def by (metis hd_dropWhile list.distinct(1) list.sel(1))
    have q1: "Suc ?q \<le> es" and sq: "s \<le> ?q" using q sk by simp_all
    consider "c \<in> {124, 40, 41, 59, 38, 60}" | "c = 62" "cs \<noteq> [] \<and> hd cs = 62" | "c = 62" "\<not> (cs \<noteq> [] \<and> hd cs = 62)"
      | "c \<notin> {124, 40, 41, 59, 38, 60}" "c \<noteq> 62" by blast
    then show ?thesis
    proof cases
      case 1
      then have "gettoken buf es s = (c, (?q, Suc ?q), skip_space buf es (Suc ?q))"
        using c by (simp add: gettoken_def Let_def)
      then show ?thesis using 1 Cons nxt[OF q1] c(2) sq by simp
    next
      case 2
      have lt: "Suc ?q < es" using 2(2) c(2) q1 by (cases "Suc ?q = es") auto
      then have b: "buf (Suc ?q) = 62" "rest buf es (Suc (Suc ?q)) = tl cs"
        using 2(2) unfolding c(2)[symmetric] by (simp_all add: rest_Cons)
      then have "gettoken buf es s = (43, (?q, Suc (Suc ?q)), skip_space buf es (Suc (Suc ?q)))"
        using c 2(1) by (simp add: gettoken_def Let_def)
      then show ?thesis using 2 Cons nxt[of "Suc (Suc ?q)"] b(2) sq lt by simp
    next
      case 3
      have b: "buf (Suc ?q) \<noteq> 62"
      proof (cases "Suc ?q = es")
        case False
        then have "cs = buf (Suc ?q) # rest buf es (Suc (Suc ?q))"
          unfolding c(2)[symmetric] using q1 by (simp add: rest_Cons)
        then show ?thesis using 3(2) by auto
      qed (use assms(1) in \<open>simp add: line_ok_def\<close>)
      then have "gettoken buf es s = (62, (?q, Suc ?q), skip_space buf es (Suc ?q))"
        using c 3(1) by (simp add: gettoken_def Let_def)
      then show ?thesis using 3 Cons nxt[OF q1] c(2) sq by simp
    next
      case 4
      then have o: "ordinary c" using c(3) sp by (auto simp: ordinary_def is_space_def symbols_def)
      let ?e = "skip_word buf es ?q"
      note w = skip_word_spec[OF assms(1) less_imp_le[OF q]]
      have qe: "?q < ?e" using o c(1) q skip_word_step[OF assms(1), of ?q] skip_word_spec[OF assms(1) q1]
        by simp
      have "gettoken buf es s = (97, (?q, ?e), skip_space buf es ?e)"
        using c 4 by (simp add: gettoken_def Let_def)
      moreover note skip_word_end[OF assms(1) less_imp_le[OF q]]
      moreover have "rest buf es ?e = dropWhile ordinary cs" using w r Cons o by simp
      ultimately show ?thesis using 4 Cons nxt[of ?e] w r sq qe by simp
    qed
  qed
qed


section \<open>Every line is parsed or refused\<close>

text \<open>The tokens of a command are maximal stretches of ordinary characters, and no command has as
  many arguments as the array \<^verbatim>\<open>argv\<close> has places.\<close>

definition token_ok :: "carray \<Rightarrow> nat \<Rightarrow> token \<Rightarrow> bool" where
  "token_ok buf es t \<longleftrightarrow> fst t < snd t \<and> snd t \<le> es \<and> (\<forall>i. fst t \<le> i \<and> i < snd t \<longrightarrow> ordinary (buf i)) \<and>
     \<not> ordinary (buf (snd t))"

fun cmd_ok :: "carray \<Rightarrow> nat \<Rightarrow> token cmd \<Rightarrow> bool" where
  "cmd_ok buf es (EXEC as) \<longleftrightarrow> length as < MAXARGS \<and> (\<forall>t \<in> set as. token_ok buf es t)"
| "cmd_ok buf es (REDIR c f m d) \<longleftrightarrow> cmd_ok buf es c \<and> token_ok buf es f"
| "cmd_ok buf es (PIPE l r) \<longleftrightarrow> cmd_ok buf es l \<and> cmd_ok buf es r"
| "cmd_ok buf es (LIST l r) \<longleftrightarrow> cmd_ok buf es l \<and> cmd_ok buf es r"
| "cmd_ok buf es (BACK c) \<longleftrightarrow> cmd_ok buf es c"

definition good :: "carray \<Rightarrow> nat \<Rightarrow> nat \<Rightarrow> (token cmd \<times> nat) res \<Rightarrow> bool" where
  "good buf es s r \<longleftrightarrow>
    (case r of Ok (c, s') \<Rightarrow> s \<le> s' \<and> s' \<le> es \<and> cmd_ok buf es c | Panic m \<Rightarrow> True | _ \<Rightarrow> False)"

lemma good_simps [simp]:
  "good buf es s (Ok (c, s')) \<longleftrightarrow> s \<le> s' \<and> s' \<le> es \<and> cmd_ok buf es c" "good buf es s (Panic m)"
  by (simp_all add: good_def)

lemma good_mono: "good buf es s' r \<Longrightarrow> s \<le> s' \<Longrightarrow> good buf es s r"
  by (auto simp: good_def split: res.splits)

lemma good_bind:
  assumes "good buf es s r" "\<And>c s'. s \<le> s' \<Longrightarrow> s' \<le> es \<Longrightarrow> cmd_ok buf es c \<Longrightarrow> good buf es s' (f (c, s'))"
  shows "good buf es s (and_then r f)"
  using assms good_mono by (cases r) (force simp: good_def)+

lemma gettoken_moves:
  assumes "line_ok buf es" "s \<le> es"
  shows "\<exists>ret t s'. gettoken buf es s = (ret, t, s') \<and> s \<le> s' \<and> s' \<le> es \<and> (ret = 97 \<longrightarrow> token_ok buf es t) \<and>
    (ahead buf es s \<noteq> [] \<longrightarrow> s < s') \<and> (ret \<noteq> 0 \<longrightarrow> s < s')"
proof -
  from gettoken_spec[OF assms] obtain ret q eq s' where
    g: "gettoken buf es s = (ret, (q, eq), s')" "s \<le> q" "q \<le> eq" "eq \<le> s'" "s' \<le> es"
    and k: "case ahead buf es s of
       [] \<Rightarrow> ret = 0 \<and> ahead buf es s' = []
     | c # cs \<Rightarrow> q < eq \<and>
        (if c \<in> {124, 40, 41, 59, 38, 60} then ret = c \<and> ahead buf es s' = dropWhile is_space cs
         else if c = 62 then
           (if cs \<noteq> [] \<and> hd cs = 62 then ret = 43 \<and> ahead buf es s' = dropWhile is_space (tl cs)
            else ret = 62 \<and> ahead buf es s' = dropWhile is_space cs)
         else ret = 97 \<and> map buf [q..<eq] = takeWhile ordinary (c # cs) \<and>
           ahead buf es s' = dropWhile is_space (dropWhile ordinary cs) \<and> \<not> ordinary (buf eq))" by blast
  have "ahead buf es s \<noteq> [] \<Longrightarrow> q < eq" using k by (cases "ahead buf es s") auto
  moreover have "ret \<noteq> 0 \<Longrightarrow> ahead buf es s \<noteq> []" using k by (cases "ahead buf es s") auto
  moreover have "token_ok buf es (q, eq)" if r: "ret = 97"
  proof (cases "ahead buf es s")
    case (Cons c cs)
    then have m: "map buf [q..<eq] = takeWhile ordinary (c # cs)" "\<not> ordinary (buf eq)" "q < eq"
      using k r by (auto split: if_splits)
    have "ordinary (buf i)" if "q \<le> i" "i < eq" for i
    proof -
      have "buf i \<in> set (map buf [q..<eq])" using that by simp
      then show ?thesis unfolding m(1) by (metis set_takeWhileD)
    qed
    then show ?thesis using m g by (simp add: token_ok_def)
  qed (use k r in simp)
  ultimately show ?thesis using g by auto
qed

lemma peek_moves:
  assumes "line_ok buf es" "s \<le> es" "0 \<notin> set toks"
  shows "\<exists>b s'. peek buf es s toks = (b, s') \<and> s \<le> s' \<and> s' \<le> es \<and> (b \<longrightarrow> ahead buf es s' \<noteq> [])"
  using peek_spec[OF assms] by auto

lemma parseredirs_good:
  assumes "line_ok buf es"
  shows "s \<le> es \<Longrightarrow> cmd_ok buf es cmd \<Longrightarrow> es - s < n \<Longrightarrow> good buf es s (parseredirs n buf es cmd s)"
proof (induction n arbitrary: cmd s)
  case (Suc n)
  from peek_moves[OF assms Suc.prems(1), of "[60, 62]"] obtain b s1 where
    p: "peek buf es s [60, 62] = (b, s1)" "s \<le> s1" "s1 \<le> es" "b \<longrightarrow> ahead buf es s1 \<noteq> []" by auto
  show ?case
  proof (cases b)
    case True
    from gettoken_moves[OF assms p(3)] obtain tok t s2 where
      g: "gettoken buf es s1 = (tok, t, s2)" "s1 \<le> s2" "s2 \<le> es" "ahead buf es s1 \<noteq> [] \<longrightarrow> s1 < s2" by blast
    from gettoken_moves[OF assms g(3)] obtain ret f s3 where
      h: "gettoken buf es s2 = (ret, f, s3)" "s2 \<le> s3" "s3 \<le> es" "ret = 97 \<longrightarrow> token_ok buf es f" by blast
    have lt: "es - s3 < n" "s \<le> s3" using True p g h Suc.prems(3) by auto
    have "good buf es s (parseredirs n buf es c s3)" if "cmd_ok buf es c" for c
      using good_mono[OF Suc.IH[OF h(3) that lt(1)] lt(2)] .
    then show ?thesis using True p(1) g(1) h(1,4) Suc.prems(2) by simp
  qed (use p Suc.prems in simp)
qed simp

lemma set_args_ok:
  "cmd_ok buf es c \<Longrightarrow> length as < MAXARGS \<Longrightarrow> \<forall>t \<in> set as. token_ok buf es t \<Longrightarrow> cmd_ok buf es (set_args as c)"
  by (induction as c rule: set_args.induct) auto

lemma parseargs_good:
  assumes "line_ok buf es"
  shows "s \<le> es \<Longrightarrow> cmd_ok buf es ret \<Longrightarrow> length as < MAXARGS \<Longrightarrow> \<forall>t \<in> set as. token_ok buf es t \<Longrightarrow> es - s < n \<Longrightarrow>
    good buf es s (parseargs n buf es as ret s)"
proof (induction n arbitrary: as ret s)
  case (Suc n)
  from peek_moves[OF assms Suc.prems(1), of "[124, 41, 38, 59]"] obtain b s1 where
    p: "peek buf es s [124, 41, 38, 59] = (b, s1)" "s \<le> s1" "s1 \<le> es" by auto
  from gettoken_moves[OF assms p(3)] obtain tok t s2 where
    g: "gettoken buf es s1 = (tok, t, s2)" "s1 \<le> s2" "s2 \<le> es" "tok = 97 \<longrightarrow> token_ok buf es t" "tok \<noteq> 0 \<longrightarrow> s1 < s2" by blast
  note fin = set_args_ok[OF Suc.prems(2-4)]
  have "good buf es s (and_then (parseredirs (Suc (es - s2)) buf es ret s2)
      (\<lambda>(ret, s). parseargs n buf es (as @ [t]) ret s))" if tok: "tok = 97" "length (as @ [t]) < MAXARGS"
  proof (rule good_mono[of _ _ s2], rule good_bind)
    show "good buf es s2 (parseredirs (Suc (es - s2)) buf es ret s2)"
      by (rule parseredirs_good[OF assms g(3) Suc.prems(2)]) simp
    fix c s' assume c: "s2 \<le> s'" "s' \<le> es" "cmd_ok buf es c"
    have "es - s' < n" "\<forall>t \<in> set (as @ [t]). token_ok buf es t"
      using tok c g p Suc.prems(4,5) by auto
    from Suc.IH[OF c(2,3) tok(2) this(2,1)]
    show "good buf es s' (case (c, s') of (ret, s) \<Rightarrow> parseargs n buf es (as @ [t]) ret s)" by simp
  qed (use p g in simp)
  then show ?case using p g fin by (auto simp: Let_def not_le)
qed simp

lemma parseback_good:
  assumes "line_ok buf es"
  shows "s \<le> es \<Longrightarrow> cmd_ok buf es cmd \<Longrightarrow> es - s < n \<Longrightarrow> good buf es s (parseback n buf es cmd s)"
proof (induction n arbitrary: cmd s)
  case (Suc n)
  from peek_moves[OF assms Suc.prems(1), of "[38]"] obtain b s1 where
    p: "peek buf es s [38] = (b, s1)" "s \<le> s1" "s1 \<le> es" "b \<longrightarrow> ahead buf es s1 \<noteq> []" by auto
  from gettoken_moves[OF assms p(3)] obtain tok t s2 where
    g: "gettoken buf es s1 = (tok, t, s2)" "s1 \<le> s2" "s2 \<le> es" "ahead buf es s1 \<noteq> [] \<longrightarrow> s1 < s2" by blast
  show ?case
  proof (cases b)
    case True
    then have lt: "es - s2 < n" "s \<le> s2" using p g Suc.prems(3) by auto
    then show ?thesis using True p(1) g(1) good_mono[OF Suc.IH[OF g(3) _ lt(1), of "BACK cmd"] lt(2)] Suc.prems(2) by simp
  qed (use p Suc.prems in simp)
qed simp


text \<open>The fuel that each function needs at position \<open>s\<close>.\<close>

lemma parse_good:
  assumes "line_ok buf es"
  shows "s \<le> es \<Longrightarrow> (4 * (es - s) + 4 \<le> n \<longrightarrow> good buf es s (parse n Line buf es s)) \<and>
    (4 * (es - s) + 3 \<le> n \<longrightarrow> good buf es s (parse n Pipe buf es s)) \<and>
    (4 * (es - s) + 2 \<le> n \<longrightarrow> good buf es s (parse n Exec buf es s)) \<and>
    (4 * (es - s) + 1 \<le> n \<longrightarrow> good buf es s (parse n Block buf es s))"
proof (induction n arbitrary: s)
  case (Suc n)
  have tok: "\<exists>b s1 ret t s2. peek buf es s' cs = (b, s1) \<and> s' \<le> s1 \<and> s1 \<le> es \<and>
      gettoken buf es s1 = (ret, t, s2) \<and> s1 \<le> s2 \<and> s2 \<le> es \<and> (b \<longrightarrow> s' < s2)"
    if "s' \<le> es" "0 \<notin> set cs" for s' cs
  proof -
    from peek_moves[OF assms that] obtain b s1 where
      1: "peek buf es s' cs = (b, s1)" "s' \<le> s1" "s1 \<le> es" "b \<longrightarrow> ahead buf es s1 \<noteq> []" by blast
    from gettoken_moves[OF assms 1(3)] obtain ret t s2 where
      2: "gettoken buf es s1 = (ret, t, s2)" "s1 \<le> s2" "s2 \<le> es" "ahead buf es s1 \<noteq> [] \<longrightarrow> s1 < s2" by blast
    then show ?thesis using 1 by (meson le_less_trans)
  qed
  have "good buf es s (parse (Suc n) Line buf es s)" if f: "4 * (es - s) + 4 \<le> Suc n"
    unfolding parse.simps fn.case parseline_def
  proof (rule good_bind)
    show "good buf es s (parse n Pipe buf es s)" using Suc f by simp
    fix c s' assume c: "s \<le> s'" "s' \<le> es" "cmd_ok buf es c"
    show "good buf es s' (case (c, s') of (cmd, s) \<Rightarrow> and_then (parseback (Suc (es - s)) buf es cmd s) (\<lambda>(cmd, s).
        let (more, s) = peek buf es s [59] in
        if more then let (_, _, s) = gettoken buf es s in
          and_then (parse n Line buf es s) (\<lambda>(r, s). Ok (LIST cmd r, s))
        else Ok (cmd, s)))"
      unfolding prod.case
    proof (rule good_bind)
      show "good buf es s' (parseback (Suc (es - s')) buf es c s')" by (rule parseback_good[OF assms c(2,3)]) simp
      fix d s'' assume d: "s' \<le> s''" "s'' \<le> es" "cmd_ok buf es d"
      from tok[OF d(2), of "[59]"] obtain b s1 ret t s2 where
        t: "peek buf es s'' [59] = (b, s1)" "s'' \<le> s1" "s1 \<le> es" "gettoken buf es s1 = (ret, t, s2)" "s1 \<le> s2" "s2 \<le> es"
          "b \<longrightarrow> s'' < s2" by auto
      have "good buf es s'' (and_then (parse n Line buf es s2) (\<lambda>(r, s). Ok (LIST d r, s)))" if b
      proof (rule good_mono[of _ _ s2], rule good_bind)
        show "good buf es s2 (parse n Line buf es s2)" using Suc.IH[OF t(6)] f t c d that by auto
      qed (use d t in auto)
      then show "good buf es s'' (case (d, s'') of (cmd, s) \<Rightarrow> let (more, s) = peek buf es s [59] in
        if more then let (_, _, s) = gettoken buf es s in
          and_then (parse n Line buf es s) (\<lambda>(r, s). Ok (LIST cmd r, s))
        else Ok (cmd, s))" using t d by (simp add: Let_def)
    qed
  qed
  moreover have "good buf es s (parse (Suc n) Pipe buf es s)" if f: "4 * (es - s) + 3 \<le> Suc n"
    unfolding parse.simps fn.case parsepipe_def
  proof (rule good_bind)
    show "good buf es s (parse n Exec buf es s)" using Suc f by simp
    fix d s'' assume d: "s \<le> s''" "s'' \<le> es" "cmd_ok buf es d"
    from tok[OF d(2), of "[124]"] obtain b s1 ret t s2 where
      t: "peek buf es s'' [124] = (b, s1)" "s'' \<le> s1" "s1 \<le> es" "gettoken buf es s1 = (ret, t, s2)" "s1 \<le> s2" "s2 \<le> es"
        "b \<longrightarrow> s'' < s2" by auto
    have "good buf es s'' (and_then (parse n Pipe buf es s2) (\<lambda>(r, s). Ok (PIPE d r, s)))" if b
    proof (rule good_mono[of _ _ s2], rule good_bind)
      show "good buf es s2 (parse n Pipe buf es s2)" using Suc.IH[OF t(6)] f t d that by auto
    qed (use d t in auto)
    then show "good buf es s'' (case (d, s'') of (cmd, s) \<Rightarrow> let (more, s) = peek buf es s [124] in
        if more then let (_, _, s) = gettoken buf es s in
          and_then (parse n Pipe buf es s) (\<lambda>(r, s). Ok (PIPE cmd r, s))
        else Ok (cmd, s))" using t d by (simp add: Let_def)
  qed
  moreover have "good buf es s (parse (Suc n) Exec buf es s)" if f: "4 * (es - s) + 2 \<le> Suc n"
  proof -
    from tok[OF Suc.prems, of "[40]"] obtain b s1 where
      t: "peek buf es s [40] = (b, s1)" "s \<le> s1" "s1 \<le> es" by auto
    have "good buf es s1 (parse n Block buf es s1)" using Suc.IH[OF t(3)] f t by auto
    moreover have "good buf es s1 (and_then (parseredirs (Suc (es - s1)) buf es (EXEC []) s1)
        (\<lambda>(ret, s). parseargs (Suc (es - s)) buf es [] ret s))"
      using t(3)
      by (intro good_bind) (auto intro!: parseredirs_good[OF assms] parseargs_good[OF assms]
          simp del: parseargs.simps parseredirs.simps)
    ultimately show ?thesis using t good_mono[OF _ t(2)]
      by (simp add: parseexec_def Let_def del: parseredirs.simps parseargs.simps)
  qed
  moreover have "good buf es s (parse (Suc n) Block buf es s)" if f: "4 * (es - s) + 1 \<le> Suc n"
  proof -
    from tok[OF Suc.prems, of "[40]"] obtain b s1 ret t s2 where
      t: "peek buf es s [40] = (b, s1)" "s \<le> s1" "s1 \<le> es" "gettoken buf es s1 = (ret, t, s2)" "s1 \<le> s2" "s2 \<le> es"
        "b \<longrightarrow> s < s2" by auto
    let ?close = "\<lambda>(cmd, s). let (close, s) = peek buf es s [41] in
       if \<not> close then Panic ''syntax - missing )''
       else let (_, _, s) = gettoken buf es s in parseredirs (Suc (es - s)) buf es cmd s"
    have "good buf es s (and_then (parse n Line buf es s2) ?close)" if b
    proof (rule good_mono[of _ _ s2], rule good_bind)
      show "good buf es s2 (parse n Line buf es s2)" using Suc.IH[OF t(6)] f t that by auto
      fix d s'' assume d: "s2 \<le> s''" "s'' \<le> es" "cmd_ok buf es d"
      from tok[OF d(2), of "[41]"] obtain b' s3 ret' t' s4 where
        u: "peek buf es s'' [41] = (b', s3)" "s'' \<le> s3" "s3 \<le> es" "gettoken buf es s3 = (ret', t', s4)" "s3 \<le> s4" "s4 \<le> es"
        by auto
      then have "good buf es s'' (parseredirs (Suc (es - s4)) buf es d s4)"
        using parseredirs_good[OF assms u(6) d(3), of "Suc (es - s4)"] good_mono by fastforce
      then show "good buf es s'' (?close (d, s''))" using u by (simp add: Let_def del: parseredirs.simps)
    qed (use t in simp)
    then show ?thesis using t by (simp add: parseblock_def Let_def del: parseredirs.simps)
  qed
  ultimately show ?case by blast
qed simp

text \<open>C19: The shell's parser always comes to an end: every line is parsed into a command or refused with
  a message. A command it returns has fewer than 10 arguments at each program, so \<^verbatim>\<open>argv\<close> and its
  null terminator fit, and each argument and file name is a maximal stretch of ordinary
  characters of the line.\<close>

theorem parsecmd_returns:
  assumes "line_ok buf es"
  shows "(\<exists>m. parsecmd es buf = Panic m) \<or> (\<exists>cmd. parsecmd es buf = Ok (cmd, nulterminate cmd buf) \<and> cmd_ok buf es cmd)"
proof -
  have "good buf es 0 (parse (4 * es + 4) Line buf es 0)" using parse_good[OF assms, of 0 "4 * es + 4"] by simp
  then show ?thesis by (cases "parse (4 * es + 4) Line buf es 0") (auto simp: good_def parsecmd_def Let_def split: prod.splits)
qed


text \<open>The array that holds a given line.\<close>

definition cbuf :: "byte list \<Rightarrow> carray" where
  "cbuf cs i = (if i < length cs then cs ! i else 0)"

lemma line_ok_cbuf: "0 \<notin> set cs \<Longrightarrow> line_ok (cbuf cs) (length cs)"
  by (auto simp: line_ok_def cbuf_def in_set_conv_nth)

lemma cbuf_all: "map (cbuf cs) [0..<length cs] = cs"
  by (rule nth_equalityI) (simp_all add: cbuf_def)

theorem parsecmd_returns_witness:
  "(\<exists>m. parsecmd 4 (cbuf [97, 32, 62, 98]) = Panic m) \<or>
   (\<exists>cmd. parsecmd 4 (cbuf [97, 32, 62, 98]) = Ok (cmd, nulterminate cmd (cbuf [97, 32, 62, 98])) \<and>
     cmd_ok (cbuf [97, 32, 62, 98]) 4 cmd)"
proof (rule parsecmd_returns)
  have "length [97, 32, 62, 98 :: byte] = 4" by simp
  then show "line_ok (cbuf [97, 32, 62, 98]) 4" using line_ok_cbuf[of "[97, 32, 62, 98]"] by (simp only:) simp
qed

section \<open>Printing and parsing\<close>

text \<open>A command with its words as texts is written down with parentheses where the grammar needs
  them. The level says where it stands: 0 in a line, 1 before an ampersand, 2 in a pipeline,
  3 as a part of a pipeline or before a redirection.\<close>

definition paren :: "bool \<Rightarrow> byte list \<Rightarrow> byte list" where
  "paren b t = (if b then 40 # t @ [41] else t)"

definition redir_op :: "int \<Rightarrow> byte list" where
  "redir_op m = (if m = O_RDONLY then [60] else if m = O_WRONLY_CREATE_TRUNC then [62] else [62, 62])"

fun show_cmd :: "nat \<Rightarrow> byte list cmd \<Rightarrow> byte list" where
  "show_cmd k (EXEC as) = concat (map (\<lambda>w. w @ [32]) as)"
| "show_cmd k (REDIR c f m d) = show_cmd 3 c @ redir_op m @ f @ [32]"
| "show_cmd k (PIPE l r) = paren (k > 2) (show_cmd 3 l @ 124 # show_cmd 2 r)"
| "show_cmd k (BACK c) = paren (k > 1) (show_cmd 1 c @ [38])"
| "show_cmd k (LIST l r) = paren (k > 0) (show_cmd 1 l @ 59 # show_cmd 0 r)"

definition word_ok :: "byte list \<Rightarrow> bool" where
  "word_ok w \<longleftrightarrow> w \<noteq> [] \<and> (\<forall>c \<in> set w. ordinary c)"

definition redir_ok :: "byte list \<times> int \<times> int \<Rightarrow> bool" where
  "redir_ok = (\<lambda>(f, m, d). word_ok f \<and> (m, d) \<in> {(O_RDONLY, 0), (O_WRONLY_CREATE_TRUNC, 1), (O_WRONLY_CREATE, 1)})"

fun writable :: "byte list cmd \<Rightarrow> bool" where
  "writable (EXEC as) \<longleftrightarrow> length as < MAXARGS \<and> (\<forall>w \<in> set as. word_ok w)"
| "writable (REDIR c f m d) \<longleftrightarrow> writable c \<and> redir_ok (f, m, d)"
| "writable (PIPE l r) \<longleftrightarrow> writable l \<and> writable r"
| "writable (BACK c) \<longleftrightarrow> writable c"
| "writable (LIST l r) \<longleftrightarrow> writable l \<and> writable r"

text \<open>The words of a parsed command.\<close>

abbreviation (input) texts :: "carray \<Rightarrow> token cmd \<Rightarrow> byte list cmd" where
  "texts buf \<equiv> map_cmd (\<lambda>(q, e). map buf [q..<e])"

abbreviation (input) nb :: "byte list \<Rightarrow> byte list" where
  "nb \<equiv> dropWhile is_space"

text \<open>Where a part of a line at level \<open>k\<close> ends.\<close>

definition stops :: "nat \<Rightarrow> byte list \<Rightarrow> bool" where
  "stops k t \<longleftrightarrow> nb t = [] \<or> hd (nb t) \<in> set (drop (3 - k) [124, 38, 59, 41])"

text \<open>\<open>yields r c t\<close>: the parse \<open>r\<close> gives the command \<open>c\<close> and leaves the text \<open>t\<close>, or its fuel
  was not enough.\<close>

definition yields :: "carray \<Rightarrow> nat \<Rightarrow> (token cmd \<times> nat) res \<Rightarrow> byte list cmd \<Rightarrow> byte list \<Rightarrow> bool" where
  "yields buf es r c t \<longleftrightarrow> r = Diverge \<or>
    (\<exists>cmd s. r = Ok (cmd, s) \<and> texts buf cmd = c \<and> ahead buf es s = nb t \<and> s \<le> es)"

lemma yields_bind:
  assumes "yields buf es r c t"
    and "\<And>cmd s. texts buf cmd = c \<Longrightarrow> ahead buf es s = nb t \<Longrightarrow> s \<le> es \<Longrightarrow> yields buf es (f (cmd, s)) c' t'"
  shows "yields buf es (and_then r f) c' t'"
proof (cases "r = Diverge")
  case False
  then obtain cmd s where "r = Ok (cmd, s)" "texts buf cmd = c" "ahead buf es s = nb t" "s \<le> es"
    using assms(1) by (auto simp: yields_def)
  then show ?thesis using assms(2) by simp
qed (simp add: yields_def)

lemma ahead_peek:
  assumes "line_ok buf es" "s \<le> es" "0 \<notin> set toks" "ahead buf es s = u"
  shows "\<exists>s'. peek buf es s toks = (u \<noteq> [] \<and> hd u \<in> set toks, s') \<and> ahead buf es s' = u \<and> s' \<le> es"
  using peek_spec[OF assms(1-3)] assms(4) by auto

lemma ahead_end:
  assumes "line_ok buf es" "s \<le> es"
  shows "ahead buf es s = [] \<Longrightarrow> \<exists>x s'. gettoken buf es s = (0, x, s') \<and> ahead buf es s' = [] \<and> s' \<le> es"
  using gettoken_spec[OF assms] by auto

lemma ahead_symbol:
  assumes "line_ok buf es" "s \<le> es" "ahead buf es s = c # cs" "c \<in> {124, 40, 41, 59, 38, 60}"
  shows "\<exists>t s'. gettoken buf es s = (c, t, s') \<and> ahead buf es s' = nb cs \<and> s' \<le> es"
  using gettoken_spec[OF assms(1,2)] assms(3,4) by auto

lemma ordinary_not_space: "ordinary c \<Longrightarrow> \<not> is_space c"
  by (simp add: ordinary_def is_space_def)

lemma nb_word: "word_ok w \<Longrightarrow> nb (w @ t) = w @ t"
  by (cases w) (auto simp: word_ok_def ordinary_not_space)

lemma ahead_word:
  assumes "line_ok buf es" "s \<le> es" "ahead buf es s = w @ 32 # t" "word_ok w"
  shows "\<exists>q e s'. gettoken buf es s = (97, (q, e), s') \<and> map buf [q..<e] = w \<and> ahead buf es s' = nb t \<and> s' \<le> es"
proof -
  obtain c cs where w: "w = c # cs" "ordinary c" "\<forall>x \<in> set cs. ordinary x"
    using assms(4) by (cases w) (auto simp: word_ok_def)
  have c: "c \<notin> {124, 40, 41, 59, 38, 60}" "c \<noteq> 62" using w(2) by (auto simp: ordinary_def symbols_def)
  have o: "\<not> ordinary 32" "is_space 32" by (simp_all add: ordinary_def is_space_def whitespace_def)
  have "takeWhile ordinary (cs @ 32 # t) = cs" "dropWhile ordinary (cs @ 32 # t) = 32 # t"
    using w(3) o by (simp_all add: takeWhile_append2 dropWhile_append2)
  then show ?thesis using gettoken_spec[OF assms(1,2)] assms(3) w c o by auto
qed


section \<open>Redirections\<close>

definition wrap :: "'a cmd \<Rightarrow> ('a \<times> int \<times> int) list \<Rightarrow> 'a cmd" where
  "wrap c rs = foldl (\<lambda>c (f, m, d). REDIR c f m d) c rs"

definition rtext :: "(byte list \<times> int \<times> int) list \<Rightarrow> byte list" where
  "rtext rs = concat (map (\<lambda>(f, m, d). redir_op m @ f @ [32]) rs)"

lemma wrap_simps [simp]: "wrap c [] = c" "wrap c ((f, m, d) # rs) = wrap (REDIR c f m d) rs"
  by (simp_all add: wrap_def)

lemma rtext_simps [simp]: "rtext [] = []" "rtext ((f, m, d) # rs) = redir_op m @ f @ 32 # rtext rs"
  by (simp_all add: rtext_def)

lemma set_args_wrap: "set_args as (wrap c rs) = wrap (set_args as c) rs"
  by (induction rs arbitrary: c) auto

lemma texts_set_args: "map_cmd f (set_args as c) = set_args (map f as) (map_cmd f c)"
  by (induction as c rule: set_args.induct) auto

lemma not_space_symbols [simp]: "\<not> is_space 60" "\<not> is_space 62" "\<not> is_space 40" "\<not> is_space 41" "\<not> is_space 124"
  "\<not> is_space 38" "\<not> is_space 59" "is_space 32"
  by (simp_all add: is_space_def whitespace_def)

lemma nb_redir [simp]: "nb (redir_op m @ t) = redir_op m @ t"
  by (simp add: redir_op_def)

lemma redir_hd: "hd (redir_op m @ t) \<in> {60, 62}" "redir_op m \<noteq> []"
  by (simp_all add: redir_op_def)

lemma word_hd: "word_ok w \<Longrightarrow> w \<noteq> [] \<and> ordinary (hd w)"
  by (cases w) (auto simp: word_ok_def)

lemma ordinary_not_symbol: "ordinary c \<Longrightarrow> c \<notin> {124, 40, 41, 59, 38, 60, 62, 0}"
  by (auto simp: ordinary_def symbols_def)

lemma ahead_redir:
  assumes "line_ok buf es" "s \<le> es" "ahead buf es s = redir_op m @ f @ t" "word_ok f" "m \<in> {0, 0x601, 0x201}"
  shows "\<exists>x s'. gettoken buf es s = (if m = 0 then 60 else if m = 0x601 then 62 else 43, x, s') \<and>
    ahead buf es s' = f @ t \<and> s' \<le> es"
proof -
  have f: "f \<noteq> []" "hd f \<noteq> 62" "nb (f @ t) = f @ t"
    using word_hd[OF assms(4)] ordinary_not_symbol[of "hd f"] nb_word[OF assms(4)] by auto
  then have h: "f @ t \<noteq> []" "hd (f @ t) \<noteq> 62" by simp_all
  consider "m = 0" | "m = 0x601" | "m = 0x201" using assms(5) by auto
  then show ?thesis
  proof cases
    case 1
    then show ?thesis using ahead_symbol[OF assms(1,2), of 60 "f @ t"] assms(3) f(3) by (auto simp: redir_op_def)
  next
    case 2
    then show ?thesis using gettoken_spec[OF assms(1,2)] assms(3) f(3) h by (auto simp: redir_op_def)
  next
    case 3
    then show ?thesis using gettoken_spec[OF assms(1,2)] assms(3) f(3) h by (auto simp: redir_op_def)
  qed
qed

lemma parseredirs_yields:
  assumes "line_ok buf es"
  shows "s \<le> es \<Longrightarrow> ahead buf es s = nb (rtext rs @ t) \<Longrightarrow> \<forall>r \<in> set rs. redir_ok r \<Longrightarrow>
    nb t = [] \<or> hd (nb t) \<notin> {60, 62} \<Longrightarrow>
    yields buf es (parseredirs n buf es cmd s) (wrap (texts buf cmd) rs) t"
proof (induction rs arbitrary: cmd s n)
  case Nil
  show ?case
  proof (cases n)
    case (Suc k)
    from ahead_peek[OF assms Nil.prems(1), of "[60, 62]" "nb t"] Nil.prems(2)
    obtain s1 where "peek buf es s [60, 62] = (nb t \<noteq> [] \<and> hd (nb t) \<in> {60, 62}, s1)" "ahead buf es s1 = nb t" "s1 \<le> es"
      by auto
    then show ?thesis using Suc Nil.prems(4) by (auto simp: yields_def)
  qed (simp add: yields_def)
next
  case (Cons r rs)
  obtain f m d where r: "r = (f, m, d)" by (cases r)
  have ok: "word_ok f" "m \<in> {0, 0x601, 0x201}" "(m = 0) = (d = 0)" "m \<noteq> 0 \<longrightarrow> d = 1"
    using Cons.prems(3) unfolding r by (auto simp: redir_ok_def)
  show ?case
  proof (cases n)
    case (Suc k)
    have a: "ahead buf es s = redir_op m @ f @ 32 # rtext rs @ t" using Cons.prems(2) by (simp add: r)
    have pk: "redir_op m @ f @ 32 # rtext rs @ t \<noteq> [] \<and> hd (redir_op m @ f @ 32 # rtext rs @ t) \<in> set [60, 62]"
      by (simp add: redir_op_def)
    from ahead_peek[OF assms Cons.prems(1) _ a, of "[60, 62]"] obtain s1 where
      1: "peek buf es s [60, 62] = (True, s1)" "ahead buf es s1 = redir_op m @ f @ 32 # rtext rs @ t" "s1 \<le> es"
      using pk by auto
    from ahead_redir[OF assms 1(3,2) ok(1,2)] obtain x s2 where
      2: "gettoken buf es s1 = (if m = 0 then 60 else if m = 0x601 then 62 else 43, x, s2)"
        "ahead buf es s2 = f @ 32 # rtext rs @ t" "s2 \<le> es" by blast
    from ahead_word[OF assms 2(3,2) ok(1)] obtain q e s3 where
      3: "gettoken buf es s2 = (97, (q, e), s3)" "map buf [q..<e] = f" "ahead buf es s3 = nb (rtext rs @ t)" "s3 \<le> es" by blast
    let ?c = "REDIR cmd (q, e) m d"
    have "parseredirs n buf es cmd s = parseredirs k buf es ?c s3"
      using Suc 1(1) 2(1) 3(1) ok by (auto simp: Let_def)
    moreover have "texts buf ?c = REDIR (texts buf cmd) f m d" using 3(2) by simp
    ultimately show ?thesis using Cons.IH[OF 3(4,3) _ Cons.prems(4), of k ?c] Cons.prems(3) unfolding r by simp
  qed (simp add: yields_def)
qed


section \<open>Programs with arguments\<close>

abbreviation (input) wtext :: "byte list list \<Rightarrow> byte list" where
  "wtext ws \<equiv> concat (map (\<lambda>w. w @ [32]) ws)"

lemma stops_cases:
  assumes "stops k t"
  shows "nb t = [] \<or> hd (nb t) \<in> {124, 38, 59, 41}"
  using assms by (auto simp: stops_def dest: in_set_dropD)

lemma parseargs_stop:
  assumes "line_ok buf es" "s \<le> es" "ahead buf es s = nb t" "stops 3 t"
  shows "yields buf es (parseargs n buf es as ret s) (texts buf (set_args as ret)) t"
proof (cases n)
  case (Suc k)
  from ahead_peek[OF assms(1,2) _ assms(3), of "[124, 41, 38, 59]"] obtain s1 where
    1: "peek buf es s [124, 41, 38, 59] = (nb t \<noteq> [] \<and> hd (nb t) \<in> set [124, 41, 38, 59], s1)" "ahead buf es s1 = nb t" "s1 \<le> es"
    by auto
  show ?thesis
  proof (cases "nb t = []")
    case True
    from ahead_end[OF assms(1) 1(3)] obtain x s2 where
      2: "gettoken buf es s1 = (0, x, s2)" "ahead buf es s2 = nb t" "s2 \<le> es" unfolding 1(2) True by blast
    have "peek buf es s [124, 41, 38, 59] = (False, s1)" using 1(1) unfolding True by simp
    then show ?thesis using 2 Suc by (auto simp: yields_def Let_def)
  next
    case False
    then have "peek buf es s [124, 41, 38, 59] = (True, s1)" using stops_cases[OF assms(4)] 1(1) by auto
    then show ?thesis using 1(2,3) Suc by (auto simp: yields_def Let_def)
  qed
qed (simp add: yields_def)

lemma nb_wtext: "ws \<noteq> [] \<Longrightarrow> \<forall>w \<in> set ws. word_ok w \<Longrightarrow> nb (wtext ws @ t) = wtext ws @ t"
  by (cases ws) (simp_all add: nb_word)

lemma texts_EXEC: "texts buf c = EXEC [] \<Longrightarrow> c = EXEC []"
  by (cases c) auto

lemma parseargs_yields:
  assumes ok: "line_ok buf es" and rs: "\<forall>r \<in> set rs. redir_ok r" and t: "stops 3 t"
  shows "s \<le> es \<Longrightarrow> ws \<noteq> [] \<Longrightarrow> ahead buf es s = wtext ws @ rtext rs @ t \<Longrightarrow> \<forall>w \<in> set ws. word_ok w \<Longrightarrow>
    length as + length ws < MAXARGS \<Longrightarrow>
    yields buf es (parseargs n buf es as (EXEC []) s) (wrap (EXEC (map (\<lambda>(q, e). map buf [q..<e]) as @ ws)) rs) t"
proof (induction ws arbitrary: s as n)
  case (Cons w ws)
  show ?case
  proof (cases n)
    case (Suc k)
    have w: "word_ok w" using Cons.prems(4) by simp
    have a: "ahead buf es s = w @ 32 # wtext ws @ rtext rs @ t" using Cons.prems(3) by simp
    have hw: "w @ 32 # wtext ws @ rtext rs @ t \<noteq> []" "hd (w @ 32 # wtext ws @ rtext rs @ t) \<notin> set [124, 41, 38, 59]"
      using word_hd[OF w] ordinary_not_symbol[of "hd w"] by auto
    from ahead_peek[OF ok Cons.prems(1) _ a, of "[124, 41, 38, 59]"] hw obtain s1 where
      1: "peek buf es s [124, 41, 38, 59] = (False, s1)" "ahead buf es s1 = w @ 32 # wtext ws @ rtext rs @ t" "s1 \<le> es"
      by auto
    from ahead_word[OF ok 1(3,2) w] obtain q e s2 where
      2: "gettoken buf es s1 = (97, (q, e), s2)" "map buf [q..<e] = w" "ahead buf es s2 = nb (wtext ws @ rtext rs @ t)" "s2 \<le> es"
      by blast
    have step: "parseargs n buf es as (EXEC []) s = and_then (parseredirs (Suc (es - s2)) buf es (EXEC []) s2)
        (\<lambda>(ret, s). parseargs k buf es (as @ [(q, e)]) ret s)"
      using Suc 1(1) 2(1) Cons.prems(5) by (simp add: Let_def del: parseredirs.simps)
    show ?thesis
    proof (cases "ws = []")
      case True
      have "nb t = [] \<or> hd (nb t) \<notin> {60, 62}" using stops_cases[OF t] by auto
      from parseredirs_yields[OF ok 2(4) _ rs this, of "Suc (es - s2)" "EXEC []"] 2(3) True
      have r: "yields buf es (parseredirs (Suc (es - s2)) buf es (EXEC []) s2) (wrap (EXEC []) rs) t"
        by (simp del: parseredirs.simps)
      show ?thesis unfolding step
      proof (rule yields_bind[OF r])
        fix c s3 assume c: "texts buf c = wrap (EXEC []) rs" "ahead buf es s3 = nb t" "s3 \<le> es"
        have "texts buf (set_args (as @ [(q, e)]) c) = wrap (EXEC (map (\<lambda>(q, e). map buf [q..<e]) as @ [w])) rs"
          using 2(2) by (simp add: texts_set_args c(1) set_args_wrap)
        then show "yields buf es (case (c, s3) of (ret, s) \<Rightarrow> parseargs k buf es (as @ [(q, e)]) ret s)
            (wrap (EXEC (map (\<lambda>(q, e). map buf [q..<e]) as @ w # ws)) rs) t"
          using parseargs_stop[OF ok c(3,2) t, of k "as @ [(q, e)]" c] True by simp
      qed
    next
      case False
      have nbw: "nb (wtext ws @ rtext rs @ t) = wtext ws @ rtext rs @ t" using nb_wtext[OF False] Cons.prems(4) by simp
      then have h: "hd (nb (wtext ws @ rtext rs @ t)) \<notin> {60, 62}"
        using False Cons.prems(4) word_hd ordinary_not_symbol by (cases ws) fastforce+
      from parseredirs_yields[OF ok 2(4), of "[]" "wtext ws @ rtext rs @ t" "Suc (es - s2)" "EXEC []"] 2(3) h
      have r: "yields buf es (parseredirs (Suc (es - s2)) buf es (EXEC []) s2) (EXEC []) (wtext ws @ rtext rs @ t)"
        by (simp del: parseredirs.simps)
      show ?thesis unfolding step
      proof (rule yields_bind[OF r])
        fix c s3 assume c: "texts buf c = EXEC []" "ahead buf es s3 = nb (wtext ws @ rtext rs @ t)" "s3 \<le> es"
        from Cons.IH[OF c(3) False c(2)[unfolded nbw], of "as @ [(q, e)]" k] Cons.prems(4,5) 2(2) texts_EXEC[OF c(1)]
        show "yields buf es (case (c, s3) of (ret, s) \<Rightarrow> parseargs k buf es (as @ [(q, e)]) ret s)
            (wrap (EXEC (map (\<lambda>(q, e). map buf [q..<e]) as @ w # ws)) rs) t" by simp
      qed
    qed
  qed (simp add: yields_def)
qed simp

section \<open>The grammar\<close>

text \<open>The function of the parser that reads level \<open>k\<close>, and that it reads \<open>c\<close> from the text \<open>u\<close>.\<close>

definition parse_at :: "nat \<Rightarrow> nat \<Rightarrow> parser" where
  "parse_at k n buf es s =
    (if k = 0 then parse n Line buf es s
     else if k = 1 then
       and_then (parse n Pipe buf es s) (\<lambda>(cmd, s). parseback (Suc (es - s)) buf es cmd s)
     else if k = 2 then parse n Pipe buf es s
     else parse n Exec buf es s)"

definition parses :: "nat \<Rightarrow> byte list \<Rightarrow> byte list cmd \<Rightarrow> bool" where
  "parses k u c \<longleftrightarrow> (\<forall>buf es n s t. line_ok buf es \<longrightarrow> s \<le> es \<longrightarrow> ahead buf es s = nb (u @ t) \<longrightarrow> stops k t \<longrightarrow>
     yields buf es (parse_at k n buf es s) c t)"

lemma parsesI:
  assumes "\<And>buf es n s t. line_ok buf es \<Longrightarrow> s \<le> es \<Longrightarrow> ahead buf es s = nb (u @ t) \<Longrightarrow> stops k t \<Longrightarrow>
     yields buf es (parse_at k n buf es s) c t"
  shows "parses k u c"
  using assms by (simp add: parses_def)

lemma parsesD:
  "parses k u c \<Longrightarrow> line_ok buf es \<Longrightarrow> s \<le> es \<Longrightarrow> ahead buf es s = nb (u @ t) \<Longrightarrow> stops k t \<Longrightarrow>
     yields buf es (parse_at k n buf es s) c t"
  by (simp add: parses_def)

lemma exec_parses:
  assumes "\<forall>w \<in> set ws. word_ok w" "length ws < MAXARGS" "\<forall>r \<in> set rs. redir_ok r"
  shows "parses 3 (wtext ws @ rtext rs) (wrap (EXEC ws) rs)"
proof (rule parsesI)
  fix buf es n s t
  assume a: "line_ok buf es" "s \<le> es" "ahead buf es s = nb ((wtext ws @ rtext rs) @ t)" "stops 3 t"
  have h: "nb ((wtext ws @ rtext rs) @ t) = [] \<or> hd (nb ((wtext ws @ rtext rs) @ t)) \<noteq> 40"
  proof (cases ws)
    case (Cons w ws')
    then have "word_ok w" using assms(1) by simp
    then show ?thesis using Cons word_hd[of w] ordinary_not_symbol[of "hd w"] by (auto simp: nb_word)
  next
    case Nil
    show ?thesis
    proof (cases rs)
      case Nil
      then show ?thesis using \<open>ws = []\<close> stops_cases[OF a(4)] by auto
    next
      case (Cons r rs')
      obtain f m d where "r = (f, m, d)" by (cases r)
      then show ?thesis using \<open>ws = []\<close> Cons redir_hd[of m] by (auto simp del: dropWhile_eq_Nil_conv)
    qed
  qed
  show "yields buf es (parse_at 3 n buf es s) (wrap (EXEC ws) rs) t"
  proof (cases n)
    case (Suc k)
    from ahead_peek[OF a(1,2) _ a(3), of "[40]"] h obtain s1 where
      1: "peek buf es s [40] = (False, s1)" "ahead buf es s1 = nb ((wtext ws @ rtext rs) @ t)" "s1 \<le> es" by auto
    have step: "parse_at 3 n buf es s = and_then (parseredirs (Suc (es - s1)) buf es (EXEC []) s1)
        (\<lambda>(ret, s). parseargs (Suc (es - s)) buf es [] ret s)"
      using Suc 1(1) by (simp add: parse_at_def parseexec_def del: parseredirs.simps parseargs.simps)
    show ?thesis
    proof (cases "ws = []")
      case True
      have "nb t = [] \<or> hd (nb t) \<notin> {60, 62}" using stops_cases[OF a(4)] by auto
      from parseredirs_yields[OF a(1) 1(3) _ assms(3) this, of "Suc (es - s1)" "EXEC []"] 1(2) True
      have r: "yields buf es (parseredirs (Suc (es - s1)) buf es (EXEC []) s1) (wrap (EXEC []) rs) t"
        by (simp del: parseredirs.simps)
      show ?thesis unfolding step
      proof (rule yields_bind[OF r])
        fix c s3 assume c: "texts buf c = wrap (EXEC []) rs" "ahead buf es s3 = nb t" "s3 \<le> es"
        from parseargs_stop[OF a(1) c(3,2) a(4), of _ "[]" c]
        show "yields buf es (case (c, s3) of (ret, s) \<Rightarrow> parseargs (Suc (es - s)) buf es [] ret s) (wrap (EXEC ws) rs) t"
          using True by (simp add: texts_set_args c(1) set_args_wrap del: parseargs.simps)
      qed
    next
      case False
      have nbw: "nb (wtext ws @ rtext rs @ t) = wtext ws @ rtext rs @ t" using nb_wtext[OF False] assms(1) by simp
      then have h: "hd (nb (wtext ws @ rtext rs @ t)) \<notin> {60, 62}"
        using False assms(1) word_hd ordinary_not_symbol by (cases ws) fastforce+
      from parseredirs_yields[OF a(1) 1(3), of "[]" "wtext ws @ rtext rs @ t" "Suc (es - s1)" "EXEC []"] 1(2) h
      have r: "yields buf es (parseredirs (Suc (es - s1)) buf es (EXEC []) s1) (EXEC []) (wtext ws @ rtext rs @ t)"
        by (simp del: parseredirs.simps)
      show ?thesis unfolding step
      proof (rule yields_bind[OF r])
        fix c s3 assume c: "texts buf c = EXEC []" "ahead buf es s3 = nb (wtext ws @ rtext rs @ t)" "s3 \<le> es"
        from parseargs_yields[OF a(1) assms(3) a(4) c(3) False c(2)[unfolded nbw] assms(1), of "[]"] assms(2)
        show "yields buf es (case (c, s3) of (ret, s) \<Rightarrow> parseargs (Suc (es - s)) buf es [] ret s) (wrap (EXEC ws) rs) t"
          by (simp add: texts_EXEC[OF c(1)] del: parseargs.simps)
      qed
    qed
  qed (simp add: yields_def parse_at_def)
qed


text \<open>Looking for a symbol that is next, and taking it.\<close>

lemma take_symbol:
  assumes "line_ok buf es" "s \<le> es" "ahead buf es s = c # t" "c \<in> {124, 40, 41, 59, 38, 60}"
  shows "\<exists>s1 x s2. peek buf es s [c] = (True, s1) \<and> ahead buf es s1 = c # t \<and> s1 \<le> es \<and>
    gettoken buf es s1 = (c, x, s2) \<and> ahead buf es s2 = nb t \<and> s2 \<le> es"
proof -
  from ahead_peek[OF assms(1,2) _ assms(3), of "[c]"] assms(4) obtain s1 where
    "peek buf es s [c] = (True, s1)" "ahead buf es s1 = c # t" "s1 \<le> es" by auto
  with ahead_symbol[OF assms(1), of s1 c t] assms(4) show ?thesis by blast
qed

lemma no_symbol:
  assumes "line_ok buf es" "s \<le> es" "ahead buf es s = nb t" "nb t = [] \<or> hd (nb t) \<noteq> c" "c \<noteq> 0"
  shows "\<exists>s1. peek buf es s [c] = (False, s1) \<and> ahead buf es s1 = nb t \<and> s1 \<le> es"
  using ahead_peek[OF assms(1,2) _ assms(3), of "[c]"] assms(4,5) by auto

lemma block_parses:
  assumes u: "parses 0 u c" and rs: "\<forall>r \<in> set rs. redir_ok r"
  shows "parses 3 (40 # u @ 41 # rtext rs) (wrap c rs)"
proof (rule parsesI)
  fix buf es n s t
  assume a: "line_ok buf es" "s \<le> es" "ahead buf es s = nb ((40 # u @ 41 # rtext rs) @ t)" "stops 3 t"
  have a3: "ahead buf es s = 40 # u @ 41 # rtext rs @ t" using a(3) by simp
  from take_symbol[OF a(1,2) a3] obtain s1 where
    1: "peek buf es s [40] = (True, s1)" "ahead buf es s1 = 40 # u @ 41 # rtext rs @ t" "s1 \<le> es" by auto
  from take_symbol[OF a(1) 1(3,2)] obtain s2 x s3 where
    2: "peek buf es s1 [40] = (True, s2)" "gettoken buf es s2 = (40, x, s3)" "ahead buf es s3 = nb (u @ 41 # rtext rs @ t)" "s3 \<le> es"
    by auto
  show "yields buf es (parse_at 3 n buf es s) (wrap c rs) t"
  proof (cases "n < 2")
    case True
    then have "n = 0 \<or> n = 1" by auto
    then show ?thesis using 1(1) by (auto simp: yields_def parse_at_def parseexec_def)
  next
    case False
    then obtain k where n: "n = Suc (Suc k)" by (metis add_2_eq_Suc' le_add_diff_inverse2 not_less)
    let ?close = "\<lambda>(cmd, s). let (close, s) = peek buf es s [41] in
       if \<not> close then Panic ''syntax - missing )''
       else let (_, _, s) = gettoken buf es s in parseredirs (Suc (es - s)) buf es cmd s"
    have step: "parse_at 3 n buf es s = and_then (parse k Line buf es s3) ?close"
      using 1(1) 2(1,2) by (simp add: n parse_at_def parseexec_def parseblock_def del: parseredirs.simps)
    have st: "stops 0 (41 # rtext rs @ t)" by (simp add: stops_def)
    from parsesD[OF u a(1) 2(4,3) st, of k] have r: "yields buf es (parse k Line buf es s3) c (41 # rtext rs @ t)"
      by (simp add: parse_at_def)
    show ?thesis unfolding step
    proof (rule yields_bind[OF r])
      fix cmd s4 assume c: "texts buf cmd = c" "ahead buf es s4 = nb (41 # rtext rs @ t)" "s4 \<le> es"
      have c2: "ahead buf es s4 = 41 # rtext rs @ t" using c(2) by simp
      from take_symbol[OF a(1) c(3) c2] obtain s5 y s6 where
        3: "peek buf es s4 [41] = (True, s5)" "gettoken buf es s5 = (41, y, s6)" "ahead buf es s6 = nb (rtext rs @ t)" "s6 \<le> es"
        by auto
      have "nb t = [] \<or> hd (nb t) \<notin> {60, 62}" using stops_cases[OF a(4)] by auto
      from parseredirs_yields[OF a(1) 3(4,3) rs this, of _ cmd] 3(1,2) c(1)
      show "yields buf es (?close (cmd, s4)) (wrap c rs) t" by (simp del: parseredirs.simps)
    qed
  qed
qed

lemma pipe_parses:
  assumes "parses 3 u c" "parses 2 v d"
  shows "parses 2 (u @ 124 # v) (PIPE c d)"
proof (rule parsesI)
  fix buf es n s t
  assume a: "line_ok buf es" "s \<le> es" "ahead buf es s = nb ((u @ 124 # v) @ t)" "stops 2 t"
  show "yields buf es (parse_at 2 n buf es s) (PIPE c d) t"
  proof (cases n)
    case (Suc k)
    let ?rest = "\<lambda>(cmd, s). let (more, s) = peek buf es s [124] in
          if more then let (_, _, s) = gettoken buf es s in
            and_then (parse k Pipe buf es s) (\<lambda>(r, s). Ok (PIPE cmd r, s))
          else Ok (cmd, s)"
    have step: "parse_at 2 n buf es s = and_then (parse k Exec buf es s) ?rest"
      by (simp add: Suc parse_at_def parsepipe_def)
    have a3: "ahead buf es s = nb (u @ 124 # v @ t)" using a(3) by simp
    have "stops 3 (124 # v @ t)" by (simp add: stops_def)
    from parsesD[OF assms(1) a(1,2) a3 this, of k]
    have r: "yields buf es (parse k Exec buf es s) c (124 # v @ t)" by (simp add: parse_at_def)
    show ?thesis unfolding step
    proof (rule yields_bind[OF r])
      fix cmd s1 assume c: "texts buf cmd = c" "ahead buf es s1 = nb (124 # v @ t)" "s1 \<le> es"
      have "ahead buf es s1 = 124 # v @ t" using c(2) by simp
      from take_symbol[OF a(1) c(3) this] obtain s2 x s3 where
        1: "peek buf es s1 [124] = (True, s2)" "gettoken buf es s2 = (124, x, s3)" "ahead buf es s3 = nb (v @ t)" "s3 \<le> es"
        by auto
      from parsesD[OF assms(2) a(1) 1(4,3) a(4), of k] have r2: "yields buf es (parse k Pipe buf es s3) d t"
        by (simp add: parse_at_def)
      have "yields buf es (and_then (parse k Pipe buf es s3) (\<lambda>(r, s). Ok (PIPE cmd r, s))) (PIPE c d) t"
        by (rule yields_bind[OF r2]) (simp add: yields_def c(1))
      then show "yields buf es (?rest (cmd, s1)) (PIPE c d) t" using 1 by simp
    qed
  qed (simp add: yields_def parse_at_def)
qed

lemma list_parses:
  assumes "parses 1 u c" "parses 0 v d"
  shows "parses 0 (u @ 59 # v) (LIST c d)"
proof (rule parsesI)
  fix buf es n s t
  assume a: "line_ok buf es" "s \<le> es" "ahead buf es s = nb ((u @ 59 # v) @ t)" "stops 0 t"
  show "yields buf es (parse_at 0 n buf es s) (LIST c d) t"
  proof (cases n)
    case (Suc k)
    let ?rest = "\<lambda>(cmd, s). let (more, s) = peek buf es s [59] in
          if more then let (_, _, s) = gettoken buf es s in
            and_then (parse k Line buf es s) (\<lambda>(r, s). Ok (LIST cmd r, s))
          else Ok (cmd, s)"
    have step: "parse_at 0 n buf es s = and_then (parse_at 1 k buf es s) ?rest"
      by (simp add: Suc parse_at_def parseline_def and_then_assoc case_prod_beta' del: parseback.simps)
    have a3: "ahead buf es s = nb (u @ 59 # v @ t)" using a(3) by simp
    have "stops 1 (59 # v @ t)" by (simp add: stops_def)
    note r = parsesD[OF assms(1) a(1,2) a3 this, of k]
    show ?thesis unfolding step
    proof (rule yields_bind[OF r])
      fix cmd s1 assume c: "texts buf cmd = c" "ahead buf es s1 = nb (59 # v @ t)" "s1 \<le> es"
      have "ahead buf es s1 = 59 # v @ t" using c(2) by simp
      from take_symbol[OF a(1) c(3) this] obtain s2 x s3 where
        1: "peek buf es s1 [59] = (True, s2)" "gettoken buf es s2 = (59, x, s3)" "ahead buf es s3 = nb (v @ t)" "s3 \<le> es"
        by auto
      from parsesD[OF assms(2) a(1) 1(4,3) a(4), of k] have r2: "yields buf es (parse k Line buf es s3) d t"
        by (simp add: parse_at_def)
      have "yields buf es (and_then (parse k Line buf es s3) (\<lambda>(r, s). Ok (LIST cmd r, s))) (LIST c d) t"
        by (rule yields_bind[OF r2]) (simp add: yields_def c(1))
      then show "yields buf es (?rest (cmd, s1)) (LIST c d) t" using 1 by simp
    qed
  qed (simp add: yields_def parse_at_def)
qed

lemma parseback_yields:
  assumes "line_ok buf es"
  shows "s \<le> es \<Longrightarrow> ahead buf es s = nb (replicate j 38 @ t) \<Longrightarrow> nb t = [] \<or> hd (nb t) \<noteq> 38 \<Longrightarrow>
    yields buf es (parseback n buf es cmd s) ((BACK ^^ j) (texts buf cmd)) t"
proof (induction j arbitrary: cmd s n)
  case 0
  have "ahead buf es s = nb t" using "0.prems"(2) by simp
  from no_symbol[OF assms "0.prems"(1) this "0.prems"(3)] obtain s1 where
    "peek buf es s [38] = (False, s1)" "ahead buf es s1 = nb t" "s1 \<le> es" by auto
  then show ?case by (cases n) (auto simp: yields_def)
next
  case (Suc j)
  have "ahead buf es s = 38 # replicate j 38 @ t" using Suc.prems(2) by simp
  from take_symbol[OF assms Suc.prems(1) this] obtain s1 x s2 where
    1: "peek buf es s [38] = (True, s1)" "gettoken buf es s1 = (38, x, s2)" "ahead buf es s2 = nb (replicate j 38 @ t)" "s2 \<le> es"
    by auto
  from Suc.IH[OF 1(4,3) Suc.prems(3), of _ "BACK cmd"] 1(1,2) show ?case
    by (cases n) (simp_all add: yields_def funpow_swap1)
qed

lemma back_parses:
  assumes "parses 2 u c"
  shows "parses 1 (u @ replicate j 38) ((BACK ^^ j) c)"
proof (rule parsesI)
  fix buf es n s t
  assume a: "line_ok buf es" "s \<le> es" "ahead buf es s = nb ((u @ replicate j 38) @ t)" "stops 1 t"
  have a3: "ahead buf es s = nb (u @ replicate j 38 @ t)" using a(3) by simp
  have st: "stops 2 (replicate j 38 @ t)" using a(4) by (cases j) (auto simp: stops_def)
  have nt: "nb t = [] \<or> hd (nb t) \<noteq> 38" using a(4) by (auto simp: stops_def)
  have step: "parse_at 1 n buf es s = and_then (parse_at 2 n buf es s) (\<lambda>(cmd, s). parseback (Suc (es - s)) buf es cmd s)"
    by (simp add: parse_at_def del: parseback.simps)
  show "yields buf es (parse_at 1 n buf es s) ((BACK ^^ j) c) t"
    unfolding step
  proof (rule yields_bind[OF parsesD[OF assms a(1,2) a3 st]])
    fix cmd s1 assume c: "texts buf cmd = c" "ahead buf es s1 = nb (replicate j 38 @ t)" "s1 \<le> es"
    from parseback_yields[OF a(1) c(3,2) nt, of "Suc (es - s1)" cmd]
    show "yields buf es (case (cmd, s1) of (cmd, s) \<Rightarrow> parseback (Suc (es - s)) buf es cmd s) ((BACK ^^ j) c) t"
      by (simp add: c(1) del: parseback.simps)
  qed
qed

text \<open>What is read at a level is read at the lower ones.\<close>

lemma lift_parses:
  assumes "parses 3 u c"
  shows "parses 2 u c"
proof (rule parsesI)
  fix buf es n s t
  assume a: "line_ok buf es" "s \<le> es" "ahead buf es s = nb (u @ t)" "stops 2 t"
  show "yields buf es (parse_at 2 n buf es s) c t"
  proof (cases n)
    case (Suc k)
    let ?rest = "\<lambda>(cmd, s). let (more, s) = peek buf es s [124] in
          if more then let (_, _, s) = gettoken buf es s in
            and_then (parse k Pipe buf es s) (\<lambda>(r, s). Ok (PIPE cmd r, s))
          else Ok (cmd, s)"
    have step: "parse_at 2 n buf es s = and_then (parse_at 3 k buf es s) ?rest"
      by (simp add: Suc parse_at_def parsepipe_def)
    have st: "stops 3 t" "nb t = [] \<or> hd (nb t) \<noteq> 124" using a(4) by (auto simp: stops_def)
    show ?thesis unfolding step
    proof (rule yields_bind[OF parsesD[OF assms a(1-3) st(1)]])
      fix cmd s1 assume c: "texts buf cmd = c" "ahead buf es s1 = nb t" "s1 \<le> es"
      from no_symbol[OF a(1) c(3,2) st(2)] obtain s2 where
        "peek buf es s1 [124] = (False, s2)" "ahead buf es s2 = nb t" "s2 \<le> es" by auto
      then show "yields buf es (?rest (cmd, s1)) c t" using c(1) by (simp add: yields_def)
    qed
  qed (simp add: yields_def parse_at_def)
qed

lemma lift_line:
  assumes "parses 1 u c"
  shows "parses 0 u c"
proof (rule parsesI)
  fix buf es n s t
  assume a: "line_ok buf es" "s \<le> es" "ahead buf es s = nb (u @ t)" "stops 0 t"
  show "yields buf es (parse_at 0 n buf es s) c t"
  proof (cases n)
    case (Suc k)
    let ?rest = "\<lambda>(cmd, s). let (more, s) = peek buf es s [59] in
          if more then let (_, _, s) = gettoken buf es s in
            and_then (parse k Line buf es s) (\<lambda>(r, s). Ok (LIST cmd r, s))
          else Ok (cmd, s)"
    have step: "parse_at 0 n buf es s = and_then (parse_at 1 k buf es s) ?rest"
      by (simp add: Suc parse_at_def parseline_def and_then_assoc case_prod_beta' del: parseback.simps)
    have st: "stops 1 t" "nb t = [] \<or> hd (nb t) \<noteq> 59" using a(4) by (auto simp: stops_def)
    show ?thesis unfolding step
    proof (rule yields_bind[OF parsesD[OF assms a(1-3) st(1)]])
      fix cmd s1 assume c: "texts buf cmd = c" "ahead buf es s1 = nb t" "s1 \<le> es"
      from no_symbol[OF a(1) c(3,2) st(2)] obtain s2 where
        "peek buf es s1 [59] = (False, s2)" "ahead buf es s2 = nb t" "s2 \<le> es" by auto
      then show "yields buf es (?rest (cmd, s1)) c t" using c(1) by (simp add: yields_def)
    qed
  qed (simp add: yields_def parse_at_def)
qed

text \<open>A command written down at a level is read back there; so it is with further redirections or
  ampersands.\<close>

definition reads_back :: "byte list cmd \<Rightarrow> bool" where
  "reads_back c \<longleftrightarrow> (\<forall>k \<le> 3. parses k (show_cmd k c) c) \<and>
    (\<forall>rs. (\<forall>r \<in> set rs. redir_ok r) \<longrightarrow> parses 3 (show_cmd 3 c @ rtext rs) (wrap c rs)) \<and>
    (\<forall>j. parses 1 (show_cmd 1 c @ replicate j 38) ((BACK ^^ j) c))"

lemma levels: "(\<forall>k \<le> (3 :: nat). P k) \<longleftrightarrow> P 0 \<and> P 1 \<and> P 2 \<and> P 3"
proof -
  have "k \<le> 3 \<longleftrightarrow> k = 0 \<or> k = 1 \<or> k = 2 \<or> k = 3" for k :: nat by arith
  then show ?thesis by auto
qed

lemma exec_level_reads_back:
  assumes "\<And>rs. \<forall>r \<in> set rs. redir_ok r \<Longrightarrow> parses 3 (show_cmd 3 c @ rtext rs) (wrap c rs)"
    and "\<And>k. show_cmd k c = show_cmd 3 c"
  shows "reads_back c"
proof -
  have 3: "parses 3 (show_cmd 3 c) c" using assms(1)[of "[]"] by simp
  note 2 = lift_parses[OF 3]
  have 1: "parses 1 (show_cmd 3 c) c" using back_parses[OF 2, of 0] by simp
  show ?thesis unfolding reads_back_def levels assms(2)[of 0] assms(2)[of 1] assms(2)[of 2]
    using assms(1) 3 2 1 lift_line[OF 1] back_parses[OF 2] by auto
qed

lemma show_reads_back: "writable c \<Longrightarrow> reads_back c"
proof (induction c)
  case (EXEC as)
  then show ?case using exec_parses[of as] by (intro exec_level_reads_back) simp_all
next
  case (REDIR c f m d)
  then have "\<forall>r \<in> set rs. redir_ok r \<Longrightarrow> parses 3 (show_cmd 3 c @ rtext rs) (wrap c rs)" for rs
    by (simp add: reads_back_def)
  from this[of "(f, m, d) # rs" for rs] REDIR.prems show ?case by (intro exec_level_reads_back) simp_all
next
  case (PIPE l r)
  then have "parses 3 (show_cmd 3 l) l" "parses 2 (show_cmd 2 r) r" by (simp_all add: reads_back_def)
  note 2 = pipe_parses[OF this]
  have 1: "parses 1 (show_cmd 2 (PIPE l r) @ replicate j 38) ((BACK ^^ j) (PIPE l r))" for j
    using back_parses[OF 2, of j] by (simp add: paren_def)
  have "parses 1 (show_cmd 2 (PIPE l r)) (PIPE l r)" using 1[of 0] by simp
  note 0 = lift_line[OF this]
  have 3: "\<forall>r \<in> set rs. redir_ok r \<Longrightarrow> parses 3 (show_cmd 3 (PIPE l r) @ rtext rs) (wrap (PIPE l r) rs)" for rs
    using block_parses[OF 0, of rs] by (simp add: paren_def)
  show ?case unfolding reads_back_def levels using 2 1 1[of 0] 0 3 3[of "[]"] by (simp add: paren_def)
next
  case (LIST l r)
  then have "parses 1 (show_cmd 1 l) l" "parses 0 (show_cmd 0 r) r" by (simp_all add: reads_back_def)
  note 0 = list_parses[OF this]
  have 3: "\<forall>r \<in> set rs. redir_ok r \<Longrightarrow> parses 3 (show_cmd 3 (LIST l r) @ rtext rs) (wrap (LIST l r) rs)" for rs
    using block_parses[OF 0, of rs] by (simp add: paren_def)
  have "parses 3 (show_cmd 3 (LIST l r)) (LIST l r)" using 3[of "[]"] by simp
  note 2 = lift_parses[OF this]
  show ?case unfolding reads_back_def levels using 0 3 3[of "[]"] 2 back_parses[OF 2] back_parses[OF 2, of 0]
    by (simp add: paren_def)
next
  case (BACK c)
  then have b: "parses 1 (show_cmd 1 c @ replicate j 38) ((BACK ^^ j) c)" for j by (simp add: reads_back_def)
  have 1: "parses 1 (show_cmd 1 (BACK c) @ replicate j 38) ((BACK ^^ j) (BACK c))" for j
    using b[of "Suc j"] by (simp add: paren_def funpow_swap1)
  have "parses 1 (show_cmd 1 (BACK c)) (BACK c)" using 1[of 0] by simp
  note 0 = lift_line[OF this]
  have 3: "\<forall>r \<in> set rs. redir_ok r \<Longrightarrow> parses 3 (show_cmd 3 (BACK c) @ rtext rs) (wrap (BACK c) rs)" for rs
    using block_parses[OF 0, of rs] by (simp add: paren_def)
  have "parses 3 (show_cmd 3 (BACK c)) (BACK c)" using 3[of "[]"] by simp
  note 2 = lift_parses[OF this]
  show ?case unfolding reads_back_def levels using 0 1 1[of 0] 2 3 3[of "[]"] by (simp add: paren_def)
qed


section \<open>The words of the command\<close>

lemma nulterminate_eq: "nulterminate c buf i = (if i \<in> snd ` set_cmd c then 0 else buf i)"
proof (induction c arbitrary: buf)
  case (EXEC as)
  show ?case by (induction as arbitrary: buf) auto
qed auto

lemma cmd_ok_tokens: "cmd_ok buf es c \<Longrightarrow> t \<in> set_cmd c \<Longrightarrow> token_ok buf es t"
  by (induction c) auto

text \<open>The string that a pointer into the array points to.\<close>

definition string_at :: "carray \<Rightarrow> nat \<Rightarrow> nat \<Rightarrow> byte list" where
  "string_at buf es q = takeWhile (\<lambda>c. c \<noteq> 0) (map buf [q..<Suc es])"

lemma string_at_token:
  assumes "cmd_ok buf es c" "(q, e) \<in> set_cmd c"
  shows "string_at (nulterminate c buf) es q = map buf [q..<e]"
proof -
  let ?b = "nulterminate c buf"
  have t: "q < e" "e \<le> es" "\<And>i. q \<le> i \<Longrightarrow> i < e \<Longrightarrow> ordinary (buf i)"
    using cmd_ok_tokens[OF assms] by (simp_all add: token_ok_def)
  have z: "?b e = 0" using assms(2) by (force simp: nulterminate_eq)
  have k: "?b i = buf i \<and> buf i \<noteq> 0" if i: "q \<le> i" "i < e" for i
  proof -
    have "i \<noteq> e'" if "(q', e') \<in> set_cmd c" for q' e'
      using cmd_ok_tokens[OF assms(1) that] t(3)[OF i] by (auto simp: token_ok_def)
    then have "i \<notin> snd ` set_cmd c" by force
    then show ?thesis using t(3)[OF i] by (simp add: nulterminate_eq ordinary_def)
  qed
  have "[q..<Suc es] = [q..<e] @ [e..<Suc es]" using t(1,2) upt_add_eq_append[of q e "Suc es - e"] by simp
  also have "[e..<Suc es] = e # [Suc e..<Suc es]" using t(2) by (intro upt_conv_Cons) simp
  finally have "map ?b [q..<Suc es] = map ?b [q..<e] @ 0 # map ?b [Suc e..<Suc es]" by (simp only: map_append list.map z)
  moreover have "map ?b [q..<e] = map buf [q..<e]" using k by simp
  moreover have "takeWhile (\<lambda>c. c \<noteq> 0) (map buf [q..<e] @ 0 # xs) = map buf [q..<e]" for xs
    using k by (subst takeWhile_append2) auto
  ultimately show ?thesis by (simp only: string_at_def)
qed

lemma show_no_zero: "writable c \<Longrightarrow> 0 \<notin> set (show_cmd k c)"
proof (induction k c rule: show_cmd.induct)
  case (1 k as)
  then show ?case by (auto simp: word_ok_def ordinary_def)
next
  case (2 k c f m d)
  then show ?case by (auto simp: word_ok_def ordinary_def redir_ok_def redir_op_def)
qed (auto simp: paren_def)

text \<open>C18: Printing and parsing: every command, written down with blanks after the words and parentheses where
  the grammar needs them, is parsed back by the shell to the same command. After \<open>nulterminate\<close>
  has cut the line into strings, each pointer in the command points to exactly its word.\<close>

theorem parse_show:
  assumes "writable c"
  shows "\<exists>cmd buf. parsecmd (length (show_cmd 0 c)) (cbuf (show_cmd 0 c)) = Ok (cmd, buf) \<and>
    map_cmd (\<lambda>(q, e). string_at buf (length (show_cmd 0 c)) q) cmd = c"
proof -
  let ?t = "show_cmd 0 c"
  let ?es = "length ?t" and ?buf = "cbuf ?t"
  have ok: "line_ok ?buf ?es" by (rule line_ok_cbuf[OF show_no_zero[OF assms]])
  have a: "ahead ?buf ?es 0 = nb (?t @ [])" by (simp only: ahead_def rest_def cbuf_all append_Nil2)
  have "parses 0 ?t c" using show_reads_back[OF assms] by (simp add: reads_back_def)
  from parsesD[OF this ok _ a] have y: "yields ?buf ?es (parse (4 * ?es + 4) Line ?buf ?es 0) c []"
    by (simp add: parse_at_def stops_def del: parse.simps)
  have g: "good ?buf ?es 0 (parse (4 * ?es + 4) Line ?buf ?es 0)" using parse_good[OF ok, of 0 "4 * ?es + 4"] by simp
  then obtain cmd s where
    p: "parse (4 * ?es + 4) Line ?buf ?es 0 = Ok (cmd, s)" "texts ?buf cmd = c" "ahead ?buf ?es s = []" "s \<le> ?es" "cmd_ok ?buf ?es cmd"
    using y by (auto simp: yields_def good_def)
  have "rest ?buf ?es (skip_space ?buf ?es s) = []" "skip_space ?buf ?es s \<le> ?es"
    using skip_space_spec[OF p(4), of ?buf] p(3) by (simp_all add: ahead_def)
  then have "skip_space ?buf ?es s = ?es" using rest_Nil by blast
  then have "parsecmd ?es ?buf = Ok (cmd, nulterminate cmd ?buf)"
    using p(1) by (simp add: parsecmd_def peek_def Let_def del: parse.simps)
  moreover have "map_cmd (\<lambda>(q, e). string_at (nulterminate cmd ?buf) ?es q) cmd = texts ?buf cmd"
    using string_at_token[OF p(5)] by (intro cmd.map_cong) auto
  ultimately show ?thesis using p(2) by auto
qed

text \<open>\<^verbatim>\<open>a <f | (b ; c &)\<close>\<close>

theorem parse_show_witness:
  "\<exists>cmd buf. parsecmd 14 (cbuf (map of_char ''a <f |(b ;c &)'')) = Ok (cmd, buf) \<and>
    map_cmd (\<lambda>(q, e). string_at buf 14 q) cmd = PIPE (REDIR (EXEC [[97]]) [102] 0 0) (LIST (EXEC [[98]]) (BACK (EXEC [[99]])))"
proof -
  let ?c = "PIPE (REDIR (EXEC [[97]]) [102] 0 0) (LIST (EXEC [[98]]) (BACK (EXEC [[99]])))"
  have "ordinary 97" "ordinary 98" "ordinary 99" "ordinary 102"
    by (simp_all add: ordinary_def whitespace_def symbols_def)
  then have w: "writable ?c" by (simp add: word_ok_def redir_ok_def)
  have t: "show_cmd 0 ?c = map of_char ''a <f |(b ;c &)''" by (simp add: paren_def redir_op_def)
  have "length (map of_char ''a <f |(b ;c &)'' :: byte list) = 14" by simp
  with parse_show[OF w] show ?thesis unfolding t by (simp only:)
qed

end
