(* ===== verification/ShellRun.thy ===== *)
theory ShellRun
  imports Shell
begin

text \<open>
  Running commands, the rest of \<^verbatim>\<open>user/sh.c\<close>: \<open>runcmd\<close>, \<open>getcmd\<close> and \<open>main\<close>. A process is
  its table of open files, where a new descriptor is the lowest free one, as \<^verbatim>\<open>fdalloc\<close> of
  \<^verbatim>\<open>kernel/sysfile.c\<close> has it. What \<open>runcmd\<close> does is the list of the programs it starts, in
  itself or in its children, each with its arguments and its open files. Whether \<^verbatim>\<open>open\<close> and
  \<^verbatim>\<open>pipe\<close> succeed is the kernel's answer, a parameter; a failing \<^verbatim>\<open>fork\<close> ends the shell with
  a message and is not followed.
\<close>

datatype obj = Console | PipeEnd nat bool | Opened "byte list" int

type_synonym fdt = "nat \<Rightarrow> obj option"

record answers =
  open_ok :: "byte list \<Rightarrow> int \<Rightarrow> bool"
  pipe_ok :: "nat \<Rightarrow> bool"

abbreviation (input) NOFILE :: nat where "NOFILE \<equiv> 16"

definition newfd :: "fdt \<Rightarrow> nat option" where
  "newfd t = List.find (\<lambda>fd. t fd = None) [0..<NOFILE]"

definition sclose :: "nat \<Rightarrow> fdt \<Rightarrow> fdt" where
  "sclose fd t = t(fd := None)"

text \<open>\<open>None\<close> is the result \<^verbatim>\<open>-1\<close>.\<close>

definition sopen :: "answers \<Rightarrow> byte list \<Rightarrow> int \<Rightarrow> fdt \<Rightarrow> (nat \<times> fdt) option" where
  "sopen k f m t =
    (if \<not> open_ok k f m then None
     else case newfd t of None \<Rightarrow> None | Some fd \<Rightarrow> Some (fd, t(fd \<mapsto> Opened f m)))"

definition sdup :: "nat \<Rightarrow> fdt \<Rightarrow> fdt" where
  "sdup fd t = (case newfd t of None \<Rightarrow> t | Some d \<Rightarrow> t(d := t fd))"

definition spipe :: "answers \<Rightarrow> nat \<Rightarrow> fdt \<Rightarrow> (nat \<times> nat \<times> fdt) option" where
  "spipe k n t =
    (if \<not> pipe_ok k n then None
     else case newfd t of
         None \<Rightarrow> None
       | Some r \<Rightarrow>
          let t = t(r \<mapsto> PipeEnd n False) in
          case newfd t of None \<Rightarrow> None | Some w \<Rightarrow> Some (r, w, t(w \<mapsto> PipeEnd n True)))"

text \<open>The programs started, and the number of pipes made so far.\<close>

fun runcmd :: "answers \<Rightarrow> byte list cmd \<Rightarrow> fdt \<Rightarrow> nat \<Rightarrow> (byte list list \<times> fdt) list \<times> nat" where
  "runcmd k (EXEC as) t n = ((if as = [] then [] else [(as, t)]), n)"
| "runcmd k (REDIR c f m d) t n =
    (case sopen k f m (sclose (nat d) t) of
       None \<Rightarrow> ([], n)
     | Some (_, t) \<Rightarrow> runcmd k c t n)"
| "runcmd k (LIST l r) t n =
    (let (xs, n) = runcmd k l t n; (ys, n) = runcmd k r t n in (xs @ ys, n))"
| "runcmd k (PIPE l r) t n =
    (case spipe k n t of
       None \<Rightarrow> ([], n)
     | Some (p0, p1, t) \<Rightarrow>
        let (xs, n2) = runcmd k l (sclose p1 (sclose p0 (sdup p1 (sclose 1 t)))) (Suc n);
            (ys, n2) = runcmd k r (sclose p1 (sclose p0 (sdup p0 (sclose 0 t)))) n2
        in (xs @ ys, n2))"
| "runcmd k (BACK c) t n = runcmd k c t n"

section \<open>Reading commands\<close>

text \<open>What \<open>main\<close> does with a line.\<close>

datatype job = Chdir "byte list" | Job "byte list"

definition c_string :: "byte list \<Rightarrow> byte list" where
  "c_string cs = takeWhile (\<lambda>c. c \<noteq> 0) cs"

text \<open>\<open>None\<close> is the result \<^verbatim>\<open>-1\<close>, at the end of the input.\<close>

definition getcmd :: "byte list \<Rightarrow> (byte list \<times> byte list) option" where
  "getcmd inp = (case gets 100 inp of (buf, inp) \<Rightarrow> if c_string buf = [] then None else Some (c_string buf, inp))"

lemma gets_loop_shorter: "gets_loop n inp = (buf, inp') \<Longrightarrow> length inp' \<le> length inp \<and> (buf \<noteq> [] \<longrightarrow> length inp' < length inp)"
proof (induction n arbitrary: inp buf inp')
  case (Suc n)
  show ?case
  proof (cases inp)
    case (Cons c cs)
    then show ?thesis using Suc.prems Suc.IH[of cs] by (fastforce split: if_splits prod.splits)
  qed (use Suc.prems in simp)
qed simp

function sh_main :: "byte list \<Rightarrow> job list" where
  "sh_main inp =
    (case getcmd inp of
       None \<Rightarrow> []
     | Some (buf, inp) \<Rightarrow>
        (if take 3 buf = [99, 100, 32] then Chdir (drop 3 (butlast buf)) else Job buf) # sh_main inp)"
  by pat_completeness auto
termination
proof (relation "measure length", simp)
  fix inp x2 buf inp'
  assume "getcmd inp = Some x2" "(buf, inp') = x2"
  then show "(inp', inp) \<in> measure length"
    using gets_loop_shorter[of 99 inp] by (auto simp: getcmd_def gets_def c_string_def split: prod.splits if_splits)
qed

section \<open>Plumbing\<close>

lemma newfd_Some: "newfd t = Some fd \<longleftrightarrow> fd < NOFILE \<and> t fd = None \<and> (\<forall>d < fd. t d \<noteq> None)"
  unfolding newfd_def find_Some_iff
proof -
  show "(\<exists>i < length [0..<NOFILE]. t ([0..<NOFILE] ! i) = None \<and> fd = [0..<NOFILE] ! i \<and> (\<forall>j < i. t ([0..<NOFILE] ! j) \<noteq> None))
      \<longleftrightarrow> fd < NOFILE \<and> t fd = None \<and> (\<forall>d < fd. t d \<noteq> None)" (is "?l \<longleftrightarrow> ?r")
  proof
    assume ?l
    then obtain i where "i < 16" "t ([0..<16] ! i) = None" "fd = [0..<16] ! i" "\<forall>j < i. t ([0..<16] ! j) \<noteq> None" by auto
    then show ?r by (simp add: nth_upt)
  next
    assume ?r
    then show ?l by (intro exI[of _ fd]) (simp add: nth_upt)
  qed
qed

text \<open>The standard descriptors are open, and there is room for a pipe.\<close>

definition std_open :: "fdt \<Rightarrow> bool" where
  "std_open t \<longleftrightarrow> t 0 \<noteq> None \<and> t 1 \<noteq> None \<and> t 2 \<noteq> None"

text \<open>C20: Redirection and pipelines are wired as intended. In a shell with its standard descriptors open,
  \<^verbatim>\<open>l | r\<close> runs \<open>l\<close> with the write end of a new pipe as its output and \<open>r\<close> with the read end as its
  input, all other descriptors as in the shell, and no further end of the pipe open in either, so
  that \<open>r\<close> sees the end of its input when \<open>l\<close> is done.\<close>

theorem pipeline_wired:
  assumes "std_open t" "pipe_ok k n" "newfd t = Some p" "newfd (t(p \<mapsto> x)) = Some q"
  shows "runcmd k (PIPE l r) t n =
    (let (xs, n2) = runcmd k l (t(1 \<mapsto> PipeEnd n True)) (Suc n);
         (ys, n2) = runcmd k r (t(0 \<mapsto> PipeEnd n False)) n2
     in (xs @ ys, n2))"
proof -
  let ?t = "t(p \<mapsto> PipeEnd n False, q \<mapsto> PipeEnd n True)"
  have p: "p < NOFILE" "t p = None" "\<forall>d < p. t d \<noteq> None" using assms(3) by (simp_all add: newfd_Some)
  have q: "q < NOFILE" "t q = None" "q \<noteq> p" "\<forall>d < q. d \<noteq> p \<longrightarrow> t d \<noteq> None"
    using assms(4) by (auto simp: newfd_Some split: if_splits)
  have pq: "2 < p" "2 < q" using assms(1) p(2) q(2) unfolding std_open_def
    by (metis One_nat_def less_2_cases_iff linorder_neqE_nat)+
  have "newfd (t(p \<mapsto> PipeEnd n False)) = Some q" using p q by (auto simp: newfd_Some)
  then have pipe: "spipe k n t = Some (p, q, ?t)" using assms(2,3) by (simp add: spipe_def)
  have "newfd (sclose 1 ?t) = Some 1" using assms(1) pq by (auto simp: newfd_Some sclose_def std_open_def)
  then have l: "sclose q (sclose p (sdup q (sclose 1 ?t))) = t(1 \<mapsto> PipeEnd n True)"
    using p(2) q(2,3) pq by (auto simp: sdup_def sclose_def fun_eq_iff)
  have "newfd (sclose 0 ?t) = Some 0" by (auto simp: newfd_Some sclose_def)
  then have r: "sclose q (sclose p (sdup p (sclose 0 ?t))) = t(0 \<mapsto> PipeEnd n False)"
    using p(2) q(2,3) pq by (auto simp: sdup_def sclose_def fun_eq_iff)
  show ?thesis by (simp only: runcmd.simps pipe l r option.case prod.case Let_def)
qed

theorem pipeline_wired_witness:
  "runcmd \<lparr>open_ok = (\<lambda>_ _. True), pipe_ok = (\<lambda>_. True)\<rparr> (PIPE (EXEC [[97]]) (EXEC [[98]]))
     [0 \<mapsto> Console, 1 \<mapsto> Console, 2 \<mapsto> Console] 0 =
   ([([[97]], [0 \<mapsto> Console, 1 \<mapsto> PipeEnd 0 True, 2 \<mapsto> Console]),
     ([[98]], [0 \<mapsto> PipeEnd 0 False, 1 \<mapsto> Console, 2 \<mapsto> Console])], 1)"
proof -
  let ?t = "[0 \<mapsto> Console, 1 \<mapsto> Console, 2 \<mapsto> Console]"
  have "newfd ?t = Some 3" "newfd (?t(3 \<mapsto> Console)) = Some 4"
    by (auto simp: newfd_Some less_Suc_eq numeral_eq_Suc)
  then show ?thesis
    by (subst pipeline_wired[where p = 3 and q = 4 and x = Console]) (auto simp: std_open_def fun_eq_iff)
qed

lemma redirection_wired:
  assumes "open_ok k f m" "d = 0 \<or> d = 1 \<and> t 0 \<noteq> None"
  shows "runcmd k (REDIR c f m d) t n = runcmd k c (t(nat d \<mapsto> Opened f m)) n"
proof -
  have "newfd (sclose (nat d) t) = Some (nat d)" using assms(2) by (auto simp: newfd_Some sclose_def)
  then show ?thesis using assms(1) by (simp add: sopen_def sclose_def)
qed

end
