(* ===== verification/Spec2Isabelle.thy ===== *)
theory Spec2Isabelle
  imports ProcInv SpinLock PipeQueue UserMem ConsoleQueue UserProgs ShellRun
begin

text \<open>
  \<^bold>\<open>A verification development of xv6-zig\<close>

  xv6 is a small Unix-like kernel for 64-bit RISC-V machines with its user programs. The
  repository holds a kernel in C under \<^verbatim>\<open>src/kernel\<close>, user programs in C under \<^verbatim>\<open>src/user\<close>, the
  tool \<^verbatim>\<open>src/mkfs\<close> that makes a file system image, and parts being rewritten in Zig. This
  development models the C code.

  \<^bold>\<open>Parts of the program.\<close> The kernel is layered. At the bottom are memory
  (\<^verbatim>\<open>string.c\<close>, \<^verbatim>\<open>kalloc.c\<close>, \<^verbatim>\<open>vm.c\<close>), locks (\<^verbatim>\<open>spinlock.c\<close>, \<^verbatim>\<open>sleeplock.c\<close>) and the disk
  driver (\<^verbatim>\<open>virtio_disk.c\<close>). On them stand the buffer cache (\<^verbatim>\<open>bio.c\<close>), the write-ahead log
  (\<^verbatim>\<open>log.c\<close>), the file system (\<^verbatim>\<open>fs.c\<close>), devices (\<^verbatim>\<open>uart.c\<close>, \<^verbatim>\<open>console.c\<close>, \<^verbatim>\<open>printf.c\<close>,
  \<^verbatim>\<open>plic.c\<close>), open files and pipes (\<^verbatim>\<open>file.c\<close>, \<^verbatim>\<open>pipe.c\<close>), processes (\<^verbatim>\<open>proc.c\<close>,
  \<^verbatim>\<open>exec.c\<close>), and the system calls and traps (\<^verbatim>\<open>syscall.c\<close>, \<^verbatim>\<open>sysfile.c\<close>, \<^verbatim>\<open>sysproc.c\<close>,
  \<^verbatim>\<open>trap.c\<close>). User programs reach the kernel through system calls and share the library
  \<^verbatim>\<open>ulib.c\<close>, \<^verbatim>\<open>printf.c\<close>, \<^verbatim>\<open>umalloc.c\<close>.

  \<^bold>\<open>How code becomes definitions.\<close> A C struct is a record, an integer of width \<open>w\<close> a word of
  that length, a pointer into a static table its index, a pointer into memory its address. The
  kernel state is one extensible record: each component extends the record of the component
  below it (\<open>kcore\<close>, \<open>bio\<close>, \<open>logst\<close>, \<open>fs_state\<close>, \<open>dev_state\<close>, \<open>file_state\<close>,
  \<open>kernel\<close>), so an operation of a lower layer applies to the state of every higher one. A C
  function is a function from the state to a result \<open>'a res\<close>: \<open>Ok\<close>, \<open>Panic\<close> with the message
  of the panic, \<open>Blocked\<close> on a channel before anything was changed, or \<open>Diverge\<close> when it never
  returns. An operation that sleeps half-way returns how far it has come (\<open>wait\<close>,
  \<open>sysret\<close>), and a second function goes on from there. A loop with early exits is a step
  function iterated by \<open>loop\<close>.

  \<^bold>\<open>Bounds and fuel.\<close> The fuel of a \<open>loop\<close> is computed from its arguments, so that it exceeds
  the number of turns of the C loop: the bytes still to copy, the pages of a range, the
  blocks of the bitmap, the entries of a directory, the characters of a path. Running out of
  it is \<open>Diverge\<close>, and the theorems show \<open>Ok\<close>, so the fuel is enough. The shell's parser has
  fuel for the depth of its recursion, four times the length of the line and four, which
  \<open>parsecmd_returns\<close> shows to be enough. Waiting for the serial chip is a \<open>partial_function\<close>: it
  returns when the chip becomes ready.

  \<^bold>\<open>Theories.\<close>

  \<^item> \<open>Prelude\<close>, \<open>KState\<close>, \<open>Mem\<close>: results, loops and their rules, little-endian words in
    byte arrays, processes and sleep locks, 64-bit words in memory.
  \<^item> \<open>CString\<close> (\<^verbatim>\<open>string.c\<close>), \<open>Kalloc\<close> (\<^verbatim>\<open>kalloc.c\<close>), \<open>Vm\<close> (\<^verbatim>\<open>vm.c\<close>): memory
    functions, the page allocator with its free list threaded through the free pages, page
    tables in byte memory. \<open>PageTable\<close> shows that \<open>mappages\<close> refines the update of an abstract
    address space; \<open>UserMem\<close> specifies \<open>copyin\<close> and \<open>copyout\<close> as reads and writes of user
    memory.
  \<^item> \<open>Bio\<close> (\<^verbatim>\<open>bio.c\<close>), \<open>WLog\<close> (\<^verbatim>\<open>log.c\<close>): buffer cache and log. \<open>Txn\<close> gives the laws of the
    two as a store of blocks with a set of logged blocks; \<open>Commit\<close> shows that a transaction
    is atomic and durable, whatever moment power fails.
  \<^item> \<open>Fs\<close> (\<^verbatim>\<open>fs.c\<close>), \<open>File\<close> (\<^verbatim>\<open>file.c\<close>, \<^verbatim>\<open>pipe.c\<close>), \<open>Proc\<close> (\<^verbatim>\<open>proc.c\<close>), \<open>Exec\<close>
    (\<^verbatim>\<open>exec.c\<close> and the argument functions of \<^verbatim>\<open>syscall.c\<close>), \<open>Sysfile\<close> (\<^verbatim>\<open>sysfile.c\<close>,
    \<^verbatim>\<open>sysproc.c\<close>, the dispatch of \<^verbatim>\<open>syscall.c\<close>), \<open>Trap\<close> (\<^verbatim>\<open>trap.c\<close>, \<^verbatim>\<open>plic.c\<close>), \<open>Virtio\<close>
    (\<^verbatim>\<open>virtio_disk.c\<close>).
  \<^item> \<open>ProcFrame\<close> shows what every operation of the kernel keeps of the process table, once for
    all properties closed under two laws (the locales \<open>memory_contract\<close> and
    \<open>process_contract\<close>). \<open>Lifecycle\<close> is an abstract transition system of processes with its
    invariant, and \<open>ProcInv\<close> shows that every trap, system call and interrupt refines it, with
    the invariant of the process table and the absence of starvation as consequences.
  \<^item> \<open>Ring\<close> is the interface of a ring buffer with free-running counters: the locale \<open>ring\<close>,
    interpreted for the transmit buffer and the console in \<open>ConsoleQueue\<close> and for pipes in
    \<open>PipeQueue\<close>. \<open>Uart\<close> (\<^verbatim>\<open>uart.c\<close>, \<^verbatim>\<open>printf.c\<close>) and \<open>Console\<close> (\<^verbatim>\<open>console.c\<close>) are the
    operations; the queue theories show that characters and bytes are neither lost nor
    reordered, and that the console is a line editor.
  \<^item> \<open>SpinLock\<close> (\<^verbatim>\<open>spinlock.c\<close>): the lock operations cut at their accesses to shared memory
    and interleaved over any number of CPUs; mutual exclusion and absence of panics.
  \<^item> \<open>ULib\<close> (\<^verbatim>\<open>user/ulib.c\<close>, \<^verbatim>\<open>user/printf.c\<close>), \<open>Grep\<close>, \<open>UserProgs\<close> (\<^verbatim>\<open>cat\<close>, \<^verbatim>\<open>wc\<close> and
    others), \<open>Shell\<close> and \<open>ShellRun\<close> (\<^verbatim>\<open>sh.c\<close>): user programs as functions of their input and
    of the kernel's answers.

  \<^bold>\<open>What is assumed.\<close> Code that is not in the repository is a parameter: the addresses the
  linker fixes, the answers of the serial chip, of the interrupt controller and of the disk,
  the sizes in which \<^verbatim>\<open>read\<close> delivers its input. Hypotheses on them are premises of the theorems,
  and each theorem with premises has a witness that meets them.

  \<^bold>\<open>Not modelled.\<close> Assembly code (\<^verbatim>\<open>swtch.S\<close>, \<^verbatim>\<open>trampoline.S\<close>, \<^verbatim>\<open>kernelvec.S\<close>,
  \<^verbatim>\<open>entry.S\<close>), the machine-mode start-up of \<^verbatim>\<open>start.c\<close> and the register access functions of
  \<^verbatim>\<open>riscv.h\<close>: they are instructions, not functions of the modelled state; a context switch
  is the change of the running process. Other CPUs while one is inside the kernel, except for
  spin locks: a kernel operation is one step. Header files with prototypes only
  (\<^verbatim>\<open>defs.h\<close>, \<^verbatim>\<open>user.h\<close>). The test programs \<^verbatim>\<open>usertests.c\<close>, \<^verbatim>\<open>grind.c\<close>, \<^verbatim>\<open>stressfs.c\<close>,
  \<^verbatim>\<open>forktest.c\<close>, which exercise the system and have no contract of their own. The code in
  Zig, which duplicates the C code while it is being ported.
\<close>

end
